(* ===== verification/Prelude.thy ===== *)
theory Prelude
  imports Main "HOL-Library.Word" "HOL-Library.Multiset"
begin

text \<open>
  Vocabulary shared by all components of the development: machine words, the
  faults a C operation can run into, the error-propagating sequencing of such
  operations, the iteration of a C \<open>while\<close> loop, and the list and word lemmas the
  component theories rely on.
\<close>

unbundle bit_operations_syntax

type_synonym u8 = "8 word"
type_synonym u16 = "16 word"
type_synonym u32 = "32 word"
type_synonym u64 = "64 word"
type_synonym bytes = "8 word list"

section \<open>Faults and sequencing\<close>

text \<open>
  The ways in which a C function of the program stops without returning: a failed
  \<open>assert\<close>, a call of \<open>abort\<close>, an access outside an object, a dereferenced
  \<open>NULL\<close>, a division by zero, an access to freed memory, and a loop that never ends.
\<close>

datatype fault =
    AssertFail
  | Abort
  | OutOfBounds
  | NullDeref
  | DivByZero
  | UseAfterFree
  | Diverges

type_synonym 'a res = "fault + 'a"

fun bindR :: "'a res \<Rightarrow> ('a \<Rightarrow> 'b res) \<Rightarrow> 'b res" where
  "bindR (Inl e) f = Inl e"
| "bindR (Inr x) f = f x"

fun of_loop :: "'a option \<Rightarrow> 'a res" where
  "of_loop None = Inl Diverges"
| "of_loop (Some x) = Inr x"

fun foldR :: "('a \<Rightarrow> 's \<Rightarrow> 's res) \<Rightarrow> 'a list \<Rightarrow> 's \<Rightarrow> 's res" where
  "foldR f [] s = Inr s"
| "foldR f (x # xs) s = bindR (f x s) (foldR f xs)"

text \<open>
  A \<open>while\<close> loop over a loop state: it stops at the first state with property
  \<open>stop\<close>, and \<open>None\<close> is the loop that never stops.
\<close>

partial_function (option) seek :: "('s \<Rightarrow> bool) \<Rightarrow> ('s \<Rightarrow> 's) \<Rightarrow> 's \<Rightarrow> 's option" where
  "seek stop nxt i = (if stop i then Some i else seek stop nxt (nxt i))"

declare seek.simps [code]

section \<open>Memory\<close>

text \<open>
  Checked accesses: reading an element, handing out a region, and overwriting a
  region of an object; \<open>memcmp\<close> of the C library.
\<close>

definition rd :: "'a list \<Rightarrow> int \<Rightarrow> 'a res" where
  "rd xs i = (if 0 \<le> i \<and> i < int (length xs) then Inr (xs ! nat i) else Inl OutOfBounds)"

definition region :: "'a list \<Rightarrow> int \<Rightarrow> int \<Rightarrow> 'a list res" where
  "region xs p n =
     (if 0 \<le> p \<and> 0 \<le> n \<and> p + n \<le> int (length xs)
      then Inr (take (nat n) (drop (nat p) xs)) else Inl OutOfBounds)"

definition store :: "'a list \<Rightarrow> nat \<Rightarrow> 'a list \<Rightarrow> 'a list" where
  "store xs p d = take p xs @ d @ drop (p + length d) xs"

fun memcmp :: "bytes \<Rightarrow> bytes \<Rightarrow> nat \<Rightarrow> int" where
  "memcmp (a # as) (b # bs) (Suc n) =
     (if a = b then memcmp as bs n else int (unat a) - int (unat b))"
| "memcmp _ _ _ = 0"

text \<open>The value of a 32-bit signed computation: two's complement wrap-around.\<close>

definition s32 :: "int \<Rightarrow> int" where
  "s32 x = (x + 2 ^ 31) mod 2 ^ 32 - 2 ^ 31"

named_theorems machine_int \<open>wrap-around of signed 32-bit arithmetic\<close>

section \<open>C strings\<close>

text \<open>
  A C string is the list of its characters up to the terminating zero. The
  characters \<open>isspace\<close> accepts, digits by radix, and the parts of an integer that
  \<open>strtol\<close> and \<open>sscanf\<close> skip or convert.
\<close>

definition is_space :: "char \<Rightarrow> bool" where
  "is_space c \<longleftrightarrow> c \<in> {CHR '' '', CHR 0x09, CHR 0x0A, CHR 0x0B, CHR 0x0C, CHR 0x0D}"

definition digit_val :: "char \<Rightarrow> int option" where
  "digit_val c =
     (let n = of_char c :: int in
      if 48 \<le> n \<and> n \<le> 57 then Some (n - 48)
      else if 97 \<le> n \<and> n \<le> 102 then Some (n - 87)
      else if 65 \<le> n \<and> n \<le> 70 then Some (n - 55) else None)"

definition is_digit :: "int \<Rightarrow> char \<Rightarrow> bool" where
  "is_digit radix c \<longleftrightarrow> (case digit_val c of None \<Rightarrow> False | Some v \<Rightarrow> v < radix)"

definition digits_val :: "int \<Rightarrow> string \<Rightarrow> int" where
  "digits_val radix ds = foldl (\<lambda>a c. a * radix + the (digit_val c)) 0 ds"

definition scan_sign :: "string \<Rightarrow> bool \<times> string" where
  "scan_sign s =
     (case s of
        [] \<Rightarrow> (False, s)
      | c # cs \<Rightarrow> if c = CHR ''-'' then (True, cs) else if c = CHR ''+'' then (False, cs) else (False, s))"

definition skip_0x :: "int \<Rightarrow> string \<Rightarrow> string" where
  "skip_0x radix s =
     (if radix = 16 \<and> length s > 2 \<and> hd s = CHR ''0'' \<and> (s ! 1 = CHR ''x'' \<or> s ! 1 = CHR ''X'')
         \<and> is_digit 16 (s ! 2)
      then drop 2 s else s)"

section \<open>Sequencing\<close>

lemma bindR_eq_Inr [simp]: "bindR m f = Inr y \<longleftrightarrow> (\<exists>x. m = Inr x \<and> f x = Inr y)"
  by (cases m) auto

lemma isl_bindR [simp]: "isl (bindR m f) \<longleftrightarrow> isl m \<or> (\<exists>x. m = Inr x \<and> isl (f x))"
  by (cases m) auto

lemma not_isl_Inr: "\<not> isl m \<longleftrightarrow> (\<exists>x. m = Inr x)"
  by (cases m) auto

lemma bindR_assoc: "bindR (bindR m f) g = bindR m (\<lambda>x. bindR (f x) g)"
  by (cases m) auto

lemma of_loop_eq_Inr [simp]: "of_loop m = Inr x \<longleftrightarrow> m = Some x"
  by (cases m) auto

lemma foldR_append: "foldR f (xs @ ys) s = bindR (foldR f xs s) (foldR f ys)"
proof (induction xs arbitrary: s)
  case (Cons x xs)
  then show ?case by (cases "f x s") simp_all
qed simp

lemma foldR_cong: "(\<And>x s. x \<in> set xs \<Longrightarrow> f x s = g x s) \<Longrightarrow> foldR f xs s = foldR g xs s"
proof (induction xs arbitrary: s)
  case (Cons x xs)
  then show ?case by (cases "g x s") auto
qed simp

lemma foldR_map: "foldR f (map h xs) s = foldR (\<lambda>x. f (h x)) xs s"
proof (induction xs arbitrary: s)
  case (Cons x xs)
  then show ?case by (cases "f (h x) s") auto
qed simp

lemma foldR_invariant:
  assumes "P 0 s"
    and "\<And>i s. i < length xs \<Longrightarrow> P i s \<Longrightarrow> \<exists>s'. f (xs ! i) s = Inr s' \<and> P (Suc i) s'"
  shows "\<exists>s'. foldR f xs s = Inr s' \<and> P (length xs) s'"
  using assms
proof (induction xs arbitrary: s P)
  case (Cons x xs)
  obtain s1 where s1: "f x s = Inr s1" "P 1 s1"
    using Cons.prems(2)[of 0 s] Cons.prems(1) by auto
  have "\<exists>s'. foldR f xs s1 = Inr s' \<and> P (Suc (length xs)) s'"
    using Cons.IH[of "\<lambda>i. P (Suc i)" s1] s1(2) Cons.prems(2)[of "Suc i" for i] by auto
  then show ?case using s1(1) by simp
qed simp

section \<open>Memory accesses\<close>

lemma rd_Inr: "0 \<le> i \<Longrightarrow> i < int (length xs) \<Longrightarrow> rd xs i = Inr (xs ! nat i)"
  by (simp add: rd_def)

lemma rd_eq_Inr [simp]: "rd xs i = Inr x \<longleftrightarrow> 0 \<le> i \<and> i < int (length xs) \<and> x = xs ! nat i"
  by (auto simp: rd_def)

lemma isl_rd [simp]: "isl (rd xs i) \<longleftrightarrow> \<not> (0 \<le> i \<and> i < int (length xs))"
  by (simp add: rd_def)

lemma region_eq_Inr [simp]:
  "region xs p n = Inr r \<longleftrightarrow>
     0 \<le> p \<and> 0 \<le> n \<and> p + n \<le> int (length xs) \<and> r = take (nat n) (drop (nat p) xs)"
  by (auto simp: region_def)

lemma region_append: 
  "length a = nat p \<Longrightarrow> 0 \<le> p \<Longrightarrow> n = int (length b) \<Longrightarrow> region (a @ b @ c) p n = Inr b"
  by (simp add: region_def)

lemma length_store [simp]: "p + length d \<le> length xs \<Longrightarrow> length (store xs p d) = length xs"
  by (simp add: store_def)

lemma store_append: "length a = p \<Longrightarrow> length b = length d \<Longrightarrow> store (a @ b @ c) p d = a @ d @ c"
  by (simp add: store_def)

lemma store_Nil [simp]: "store xs p [] = xs"
  by (simp add: store_def)

lemma memcmp_zero: "length a = length b \<Longrightarrow> memcmp a b (length b) = 0 \<longleftrightarrow> a = b"
  by (induction a b rule: list_induct2) (auto simp: word_uint_eq_iff)

lemma memcmp_take: "n \<le> length a \<Longrightarrow> n \<le> length b \<Longrightarrow> memcmp a b n = 0 \<longleftrightarrow> take n a = take n b"
  by (induction a b n rule: memcmp.induct) (auto simp: word_uint_eq_iff)

section \<open>Signed 32-bit arithmetic\<close>

lemma s32_id [machine_int]: "- (2 ^ 31) \<le> x \<Longrightarrow> x < 2 ^ 31 \<Longrightarrow> s32 x = x"
  by (simp add: s32_def)

lemma s32_range: "- (2 ^ 31) \<le> s32 x \<and> s32 x < 2 ^ 31"
  by (simp add: s32_def)

lemma s32_cong: "x mod 2 ^ 32 = y mod 2 ^ 32 \<Longrightarrow> s32 x = s32 y"
  unfolding s32_def by (metis mod_add_left_eq)

lemma s32_mod: "s32 x mod 2 ^ 32 = x mod 2 ^ 32"
  unfolding s32_def by (simp add: mod_diff_left_eq)

lemma s32_add [machine_int]: "s32 (s32 a + b) = s32 (a + b)"
  by (rule s32_cong) (metis mod_add_left_eq s32_mod)

lemma s32_mult [machine_int]: "s32 (s32 a * b) = s32 (a * b)"
  by (rule s32_cong) (metis mod_mult_left_eq s32_mod)

lemma s32_minus [machine_int]: "s32 (- s32 a) = s32 (- a)"
  by (rule s32_cong) (metis mod_minus_eq s32_mod)

section \<open>Digits\<close>

lemma digit_val_other:
  "digit_val (CHR ''-'') = None" "digit_val (CHR ''+'') = None" "digit_val (CHR ''x'') = None"
  "digit_val (CHR ''X'') = None" "digit_val (CHR '' '') = None" "digit_val (CHR 0x09) = None"
  "digit_val (CHR 0x0A) = None" "digit_val (CHR 0x0B) = None" "digit_val (CHR 0x0C) = None"
  "digit_val (CHR 0x0D) = None" "digit_val (CHR '':'') = None"
  by code_simp+

lemma is_digit_other:
  assumes "is_digit r c"
  shows "\<not> is_space c" "c \<noteq> CHR ''-''" "c \<noteq> CHR ''+''" "c \<noteq> CHR ''x''" "c \<noteq> CHR ''X''" "c \<noteq> CHR 0x0A"
  using assms by (auto simp: is_digit_def is_space_def digit_val_other)

lemma digits_val_nonneg: "list_all (is_digit r) ds \<Longrightarrow> 0 \<le> r \<Longrightarrow> 0 \<le> digits_val r ds"
proof -
  have "list_all (is_digit r) ds \<Longrightarrow> 0 \<le> r \<Longrightarrow> 0 \<le> a \<Longrightarrow>
      0 \<le> foldl (\<lambda>a c. a * r + the (digit_val c)) a ds" for a
  proof (induction ds arbitrary: a)
    case (Cons c ds)
    have "0 \<le> the (digit_val c)"
      using Cons.prems(1) by (auto simp: is_digit_def digit_val_def Let_def split: if_splits)
    then show ?case using Cons by simp
  qed simp
  then show "list_all (is_digit r) ds \<Longrightarrow> 0 \<le> r \<Longrightarrow> 0 \<le> digits_val r ds"
    by (simp add: digits_val_def)
qed

section \<open>Seeking\<close>

lemma seek_stop: "stop i \<Longrightarrow> seek stop nxt i = Some i"
  by (subst seek.simps) simp

lemma seek_next: "\<not> stop i \<Longrightarrow> seek stop nxt i = seek stop nxt (nxt i)"
  by (subst seek.simps) simp

lemma seek_funpow:
  assumes "\<forall>m < k. \<not> stop ((nxt ^^ m) i)" and "stop ((nxt ^^ k) i)"
  shows "seek stop nxt i = Some ((nxt ^^ k) i)"
  using assms
proof (induction k arbitrary: i)
  case 0
  then show ?case by (simp add: seek_stop)
next
  case (Suc k)
  have "\<forall>m < k. \<not> stop ((nxt ^^ m) (nxt i))"
  proof (intro allI impI)
    fix m assume "m < k"
    then show "\<not> stop ((nxt ^^ m) (nxt i))"
      using Suc.prems(1)[rule_format, of "Suc m"] by (simp add: funpow_swap1)
  qed
  moreover have "stop ((nxt ^^ k) (nxt i))"
    using Suc.prems(2) by (simp add: funpow_swap1)
  moreover have "\<not> stop i"
    using Suc.prems(1)[rule_format, of 0] by simp
  ultimately show ?case
    using Suc.IH[of "nxt i"] by (simp add: seek_next funpow_swap1)
qed

lemma funpow_wrap:
  assumes "i < n"
  shows "((\<lambda>i. if Suc i = n then 0 else Suc i) ^^ k) i = (i + k) mod n"
proof (induction k)
  case 0
  then show ?case using assms by simp
next
  case (Suc k)
  have "(i + k) mod n < n" using assms by auto
  then show ?case using Suc by (auto simp: mod_Suc)
qed

lemma funpow_Suc_mod:
  assumes "i < (n::nat)"
  shows "((\<lambda>i. Suc i mod n) ^^ k) i = (i + k) mod n"
  using assms by (induction k) (auto simp: mod_Suc_eq)

section \<open>Words\<close>

lemma unat_and_pow2_minus_1:
  assumes "k \<le> LENGTH('a)"
  shows "unat ((x :: 'a::len word) AND of_nat (2 ^ k - 1)) = unat x mod 2 ^ k"
proof -
  have "of_nat (2 ^ k - 1) = (mask k :: 'a word)"
    by (simp add: mask_eq_exp_minus_1 of_nat_diff)
  then show ?thesis
    by (simp add: take_bit_eq_mask [symmetric] unsigned_take_bit_eq take_bit_nat_def)
qed

lemma unat_of_nat_small: "n < 2 ^ LENGTH('a) \<Longrightarrow> unat (of_nat n :: 'a::len word) = n"
  by (simp add: unsigned_of_nat take_bit_nat_eq_self)

lemma sint_small: "n < 2 ^ 31 \<Longrightarrow> sint (of_nat n :: u32) = int n"
  by (simp add: signed_of_nat signed_take_bit_int_eq_self)

lemma unat_sub_less: "c \<le> n \<Longrightarrow> c \<noteq> 0 \<Longrightarrow> unat (n - c) < unat (n :: u64)"
  using unat_sub[of c n] unat_gt_0[of c] by (auto simp: word_le_nat_alt)

lemma unat_ucast_up: "unat (ucast (v :: u32) :: u64) = unat v"
proof -
  have "unat v < 2 ^ 32" using unsigned_less[of v] by simp
  then show ?thesis by (simp add: unsigned_ucast_eq take_bit_nat_eq_self)
qed

lemma unat_ucast_down: "unat n < 2 ^ 32 \<Longrightarrow> unat (ucast (n :: u64) :: u32) = unat n"
  by (simp add: unsigned_ucast_eq take_bit_nat_eq_self)

lemma ucast_ucast_small: "unat n < 2 ^ 32 \<Longrightarrow> ucast (ucast (n :: u64) :: u32) = n"
  using unat_ucast_up[of "ucast n"] unat_ucast_down[of n] by (metis unsigned_word_eqI)

lemma or_push_bit_ucast:
  fixes a :: "'a::len word" and b :: u8
  assumes "unat a < 2 ^ k" "k + 8 \<le> LENGTH('a)"
  shows "unat (a OR push_bit k (ucast b)) = unat a + 2 ^ k * unat b"
proof -
  have nb: "\<not> bit a n" if "k \<le> n" for n
  proof -
    have "a = take_bit k a"
      using assms(1) by (simp add: word_unat_eq_iff unsigned_take_bit_eq take_bit_nat_eq_self)
    then show ?thesis using that by (metis bit_take_bit_iff not_le)
  qed
  have sum: "a OR push_bit k (ucast b) = a + push_bit k (ucast b)"
    using nb by (intro disjunctive_add [symmetric]) (auto simp: bit_push_bit_iff)
  have shift: "push_bit k (ucast b :: 'a word) = of_nat (2 ^ k * unat b)"
    by (simp add: push_bit_eq_mult mult.commute)
  have e: "a OR push_bit k (ucast b) = of_nat (unat a + 2 ^ k * unat b)"
    unfolding sum unfolding shift by simp
  have "unat b < 2 ^ 8" using unsigned_less[of b] by simp
  then have "unat a + 2 ^ k * unat b < 2 ^ k * 2 ^ 8"
  proof -
    have "unat b + 1 \<le> 2 ^ 8" using \<open>unat b < 2 ^ 8\<close> by simp
    then have "2 ^ k * (unat b + 1) \<le> 2 ^ k * 2 ^ 8" by (rule mult_le_mono2)
    moreover have "unat a + 2 ^ k * unat b < 2 ^ k * (unat b + 1)" using assms(1) by simp
    ultimately show ?thesis by (rule order_less_le_trans[rotated])
  qed
  also have "\<dots> \<le> 2 ^ LENGTH('a)"
    using power_increasing[OF assms(2), of "2::nat"] by (simp add: power_add)
  finally show ?thesis unfolding e by (rule unat_of_nat_small)
qed

section \<open>Lists\<close>

lemma filter_update_count:
  assumes "i < length xs"
  shows "length (filter P (xs[i := y])) + (if P (xs ! i) then 1 else 0)
       = length (filter P xs) + (if P y then 1 else 0)"
  using assms
proof (induction xs arbitrary: i)
  case (Cons x xs)
  then show ?case by (cases i) auto
qed simp

lemma mset_filter_update_new:
  assumes "i < length xs" and "\<not> P (xs ! i)" and "P y"
  shows "mset (filter P (xs[i := y])) = add_mset y (mset (filter P xs))"
  using assms
proof (induction xs arbitrary: i)
  case (Cons x xs)
  then show ?case by (cases i) auto
qed simp

lemma mset_filter_update_gone:
  assumes "i < length xs" and "P (xs ! i)" and "\<not> P y"
  shows "mset (filter P xs) = add_mset (xs ! i) (mset (filter P (xs[i := y])))"
  using assms
proof (induction xs arbitrary: i)
  case (Cons x xs)
  then show ?case by (cases i) auto
qed simp

lemma find_map: "List.find P (map f xs) = map_option f (List.find (\<lambda>x. P (f x)) xs)"
  by (induction xs) auto

lemma length_filter_eq_imp_all:
  assumes "length (filter P xs) = length xs" and "x \<in> set xs"
  shows "P x"
  using assms by (metis filter_True filter_id_conv length_filter_less nat_less_le)

end
