(* ===== verification/Minzip_Hash.thy ===== *)
theory Minzip_Hash
  imports Prelude
begin

text \<open>
  The open-addressing hash table of \<open>minzip/Hash.c\<close> and \<open>minzip/Hash.h\<close>: linear
  probing with tombstones over a table whose size is a power of two, resized when
  more than five eighths of the slots are in use. A \<open>void *\<close> stored in the table
  is a value of the type variable \<open>'a\<close>; the two special pointer values \<open>NULL\<close> and
  \<open>HASH_TOMBSTONE\<close> are constructors of their own, so that an item can be neither.
  Whether the allocator has room for an array of a given number of entries is the
  argument \<open>mem\<close>.
\<close>

unbundle bit_operations_syntax

section \<open>Data\<close>

datatype 'a hdata = HNull | HTombstone | HData 'a

record 'a HashEntry =
  hashValue :: u32
  edata :: "'a hdata"

record 'a HashTable =
  tableSize :: nat
  numEntries :: int
  numDeadEntries :: int
  pEntries :: "'a HashEntry list"
  freeFunc :: bool

definition LOAD_NUMER :: nat where "LOAD_NUMER = 5"
definition LOAD_DENOM :: nat where "LOAD_DENOM = 8"

definition empty_entry :: "'a HashEntry" where
  "empty_entry = \<lparr>hashValue = 0, edata = HNull\<rparr>"

declare empty_entry_def [code_unfold]

fun is_live :: "'a HashEntry \<Rightarrow> bool" where
  "is_live e = (case edata e of HData _ \<Rightarrow> True | _ \<Rightarrow> False)"

section \<open>Operations\<close>

text \<open>
  \<open>calloc(n, sizeof(HashTable))\<close> with the 32-bit \<open>size_t\<close> of the device, where the
  structure takes 20 bytes: the product must not overflow.
\<close>

definition calloc_entries :: "(nat \<Rightarrow> bool) \<Rightarrow> nat \<Rightarrow> bool" where
  "calloc_entries mem n \<longleftrightarrow> n * 20 < 2 ^ 32 \<and> mem n"

definition mzHashSize :: "nat \<Rightarrow> nat" where
  "mzHashSize n = (n * LOAD_DENOM) div LOAD_NUMER + 1"

definition roundUpPower2 :: "u32 \<Rightarrow> u32" where
  "roundUpPower2 val0 =
     (let val = val0 - 1;
          val = val OR drop_bit 1 val;
          val = val OR drop_bit 2 val;
          val = val OR drop_bit 4 val;
          val = val OR drop_bit 8 val;
          val = val OR drop_bit 16 val
      in val + 1)"

definition mzHashTableCreate :: "(nat \<Rightarrow> bool) \<Rightarrow> nat \<Rightarrow> bool \<Rightarrow> 'a HashTable option res" where
  "mzHashTableCreate mem initialSize freeF =
     (if initialSize = 0 then Inl AssertFail
      else let size = unat (roundUpPower2 (of_nat initialSize)) in
        if calloc_entries mem size
        then Inr (Some \<lparr>tableSize = size, numEntries = 0, numDeadEntries = 0,
                        pEntries = replicate size empty_entry, freeFunc = freeF\<rparr>)
        else Inr None)"

fun live_data :: "'a HashEntry list \<Rightarrow> 'a list" where
  "live_data [] = []"
| "live_data (e # es) = (case edata e of HData d \<Rightarrow> d # live_data es | _ \<Rightarrow> live_data es)"

text \<open>\<open>mzHashTableClear\<close> returns the items handed to the free function, in order.\<close>

definition mzHashTableClear :: "'a HashTable \<Rightarrow> 'a list \<times> 'a HashTable" where
  "mzHashTableClear t =
     ((if freeFunc t then live_data (pEntries t) else []),
      t\<lparr>pEntries := map (\<lambda>e. e\<lparr>edata := HNull\<rparr>) (pEntries t),
        numEntries := 0, numDeadEntries := 0\<rparr>)"

definition mzHashTableFree :: "'a HashTable option \<Rightarrow> 'a list" where
  "mzHashTableFree t = (case t of None \<Rightarrow> [] | Some t \<Rightarrow> fst (mzHashTableClear t))"

definition countTombStones :: "'a HashTable \<Rightarrow> nat" where
  "countTombStones t = length (filter (\<lambda>e. edata e = HTombstone) (pEntries t))"

text \<open>The inner loop of \<open>resizeHash\<close>: the first free slot of the new array.\<close>

definition resize_probe :: "'a HashEntry list \<Rightarrow> nat \<Rightarrow> u32 \<Rightarrow> nat option" where
  "resize_probe es newSize hv =
     seek (\<lambda>i. edata (es ! i) = HNull)
          (\<lambda>i. unat ((of_nat (i + 1) :: u32) AND of_nat (newSize - 1)))
          (unat (hv AND of_nat (newSize - 1)))"

definition resize_step :: "nat \<Rightarrow> 'a HashEntry \<Rightarrow> 'a HashEntry list \<Rightarrow> 'a HashEntry list res" where
  "resize_step newSize e es =
     (if is_live e
      then bindR (of_loop (resize_probe es newSize (hashValue e)))
             (\<lambda>newIdx. Inr (es[newIdx := \<lparr>hashValue = hashValue e, edata = edata e\<rparr>]))
      else Inr es)"

text \<open>\<open>Inr None\<close> is the return value \<open>false\<close> (no memory).\<close>

definition resizeHash :: "(nat \<Rightarrow> bool) \<Rightarrow> 'a HashTable \<Rightarrow> nat \<Rightarrow> 'a HashTable option res" where
  "resizeHash mem t newSize =
     (if int (countTombStones t) \<noteq> numDeadEntries t then Inl AssertFail
      else if \<not> calloc_entries mem newSize then Inr None
      else bindR (foldR (resize_step newSize) (pEntries t) (replicate newSize empty_entry))
        (\<lambda>es. let t' = t\<lparr>pEntries := es, tableSize := newSize, numDeadEntries := 0\<rparr> in
           if countTombStones t' \<noteq> 0 then Inl AssertFail else Inr (Some t')))"

text \<open>
  The probe loop shared by \<open>mzHashTableLookup\<close>, \<open>mzHashTableRemove\<close> and
  \<open>countProbes\<close>. The result is an index into the table, or \<open>tableSize\<close> itself when
  the loop is left at \<open>pEnd\<close> in a table with one slot.
\<close>

definition probe_next :: "nat \<Rightarrow> nat \<Rightarrow> nat" where
  "probe_next n i = (if i + 1 = n then (if n = 1 then n else 0) else i + 1)"

definition probe_start :: "'a HashTable \<Rightarrow> u32 \<Rightarrow> nat" where
  "probe_start t h = unat (h AND of_nat (tableSize t - 1))"

definition probe_loop :: "'a HashTable \<Rightarrow> ('a HashEntry \<Rightarrow> bool) \<Rightarrow> u32 \<Rightarrow> nat option" where
  "probe_loop t match h =
     seek (\<lambda>i. i = tableSize t \<or> edata (pEntries t ! i) = HNull \<or> match (pEntries t ! i))
          (probe_next (tableSize t)) (probe_start t h)"

definition lookup_match :: "('a \<Rightarrow> 'a \<Rightarrow> int) \<Rightarrow> u32 \<Rightarrow> 'a \<Rightarrow> 'a HashEntry \<Rightarrow> bool" where
  "lookup_match cmpFunc itemHash item e =
     (case edata e of
        HData d \<Rightarrow> hashValue e = itemHash \<and> cmpFunc d item = 0
      | _ \<Rightarrow> False)"

definition add_entry :: "(nat \<Rightarrow> bool) \<Rightarrow> 'a HashTable \<Rightarrow> u32 \<Rightarrow> 'a \<Rightarrow> nat \<Rightarrow> 'a HashTable res" where
  "add_entry mem t itemHash item i =
     (let t1 = t\<lparr>pEntries := (pEntries t)[i := \<lparr>hashValue = itemHash, edata = HData item\<rparr>],
                 numEntries := numEntries t + 1\<rparr> in
      if (numEntries t1 + numDeadEntries t1) * int LOAD_DENOM > int (tableSize t1 * LOAD_NUMER)
      then bindR (resizeHash mem t1 (tableSize t1 * 2))
             (\<lambda>r. case r of None \<Rightarrow> Inl Abort | Some t2 \<Rightarrow> Inr t2)
      else Inr t1)"

definition mzHashTableLookup ::
  "(nat \<Rightarrow> bool) \<Rightarrow> 'a HashTable \<Rightarrow> u32 \<Rightarrow> 'a \<Rightarrow> ('a \<Rightarrow> 'a \<Rightarrow> int) \<Rightarrow> bool
     \<Rightarrow> ('a option \<times> 'a HashTable) res" where
  "mzHashTableLookup mem t itemHash item cmpFunc doAdd =
     (if tableSize t = 0 then Inl AssertFail
      else bindR (of_loop (probe_loop t (lookup_match cmpFunc itemHash item) itemHash))
        (\<lambda>i. if i \<ge> tableSize t then Inl OutOfBounds
             else case edata (pEntries t ! i) of
               HNull \<Rightarrow>
                 (if doAdd
                  then bindR (add_entry mem t itemHash item i)
                         (\<lambda>t'. if numEntries t' < int (tableSize t')
                               then Inr (Some item, t') else Inl AssertFail)
                  else Inr (None, t))
             | HData d \<Rightarrow> Inr (Some d, t)
             | HTombstone \<Rightarrow> Inl AssertFail))"

definition mzHashTableRemove :: "'a HashTable \<Rightarrow> u32 \<Rightarrow> 'a \<Rightarrow> (bool \<times> 'a HashTable) res" where
  "mzHashTableRemove t itemHash item =
     (if tableSize t = 0 then Inl AssertFail
      else bindR (of_loop (probe_loop t (\<lambda>e. edata e = HData item) itemHash))
        (\<lambda>i. if i < tableSize t \<and> edata (pEntries t ! i) = HData item
             then Inr (True, t\<lparr>pEntries := (pEntries t)[i := (pEntries t ! i)\<lparr>edata := HTombstone\<rparr>],
                               numEntries := numEntries t - 1,
                               numDeadEntries := numDeadEntries t + 1\<rparr>)
             else Inr (False, t)))"

fun foreach_data :: "('a \<Rightarrow> 's \<Rightarrow> int \<times> 's) \<Rightarrow> 'a list \<Rightarrow> 's \<Rightarrow> int \<times> 's" where
  "foreach_data func [] s = (0, s)"
| "foreach_data func (d # ds) s =
     (let (val, s') = func d s in if val \<noteq> 0 then (val, s') else foreach_data func ds s')"

definition mzHashForeach :: "'a HashTable \<Rightarrow> ('a \<Rightarrow> 's \<Rightarrow> int \<times> 's) \<Rightarrow> 's \<Rightarrow> int \<times> 's" where
  "mzHashForeach t func arg = foreach_data func (live_data (pEntries t)) arg"

text \<open>\<open>countProbes\<close> runs the probe loop with a counter; \<open>-1\<close> is "not found".\<close>

definition countProbes ::
  "'a HashTable \<Rightarrow> u32 \<Rightarrow> 'a \<Rightarrow> ('a \<Rightarrow> 'a \<Rightarrow> int) \<Rightarrow> int res" where
  "countProbes t itemHash item cmpFunc =
     (if tableSize t = 0 then Inl AssertFail
      else bindR (of_loop (seek
             (\<lambda>(i, n). i = tableSize t \<or> edata (pEntries t ! i) = HNull
                       \<or> lookup_match cmpFunc itemHash item (pEntries t ! i))
             (\<lambda>(i, n). (probe_next (tableSize t) i, n + 1))
             (probe_start t itemHash, 0)))
        (\<lambda>(i, n). if i \<ge> tableSize t then Inl OutOfBounds
                  else if edata (pEntries t ! i) = HNull then Inr (- 1) else Inr n))"

section \<open>Iteration\<close>

record HashIter = idx :: int

fun iter_scan :: "'a HashEntry list \<Rightarrow> nat \<Rightarrow> nat" where
  "iter_scan [] i = i"
| "iter_scan (e # es) i = (if is_live e then i else iter_scan es (i + 1))"

definition mzHashIterNext :: "'a HashTable \<Rightarrow> HashIter \<Rightarrow> HashIter" where
  "mzHashIterNext t it =
     (let i = nat (idx it + 1) in
      it\<lparr>idx := int (iter_scan (drop i (take (tableSize t) (pEntries t))) i)\<rparr>)"

definition mzHashIterBegin :: "'a HashTable \<Rightarrow> HashIter" where
  "mzHashIterBegin t = mzHashIterNext t \<lparr>idx = - 1\<rparr>"

definition mzHashIterDone :: "'a HashTable \<Rightarrow> HashIter \<Rightarrow> bool" where
  "mzHashIterDone t it = (idx it \<ge> int (tableSize t))"

definition mzHashIterData :: "'a HashTable \<Rightarrow> HashIter \<Rightarrow> 'a hdata res" where
  "mzHashIterData t it =
     (if 0 \<le> idx it \<and> idx it < int (tableSize t)
      then Inr (edata (pEntries t ! nat (idx it))) else Inl AssertFail)"

section \<open>The table invariant\<close>

definition slot :: "nat \<Rightarrow> u32 \<Rightarrow> nat \<Rightarrow> nat" where
  "slot n h k = (unat h + k) mod n"

text \<open>A live entry is reachable: no free slot lies between its home slot and it.\<close>

definition chained :: "'a HashEntry list \<Rightarrow> bool" where
  "chained es = (\<forall>j < length es. is_live (es ! j) \<longrightarrow>
     (\<exists>k < length es. j = slot (length es) (hashValue (es ! j)) k
        \<and> (\<forall>k' < k. edata (es ! slot (length es) (hashValue (es ! j)) k') \<noteq> HNull)))"

definition hash_wf :: "'a HashTable \<Rightarrow> bool" where
  "hash_wf t \<longleftrightarrow>
     (\<exists>k \<le> 30. tableSize t = 2 ^ k) \<and> length (pEntries t) = tableSize t
   \<and> numEntries t = int (length (filter is_live (pEntries t)))
   \<and> numDeadEntries t = int (countTombStones t)
   \<and> (numEntries t + numDeadEntries t) * int LOAD_DENOM \<le> int (tableSize t * LOAD_NUMER)
   \<and> chained (pEntries t)"

text \<open>
  What the clients of the table rely on: the stored hash values are those of the
  keys, and no key is stored twice.
\<close>

definition hash_keyed :: "('k \<Rightarrow> u32) \<Rightarrow> ('a \<Rightarrow> 'k) \<Rightarrow> 'a HashTable \<Rightarrow> bool" where
  "hash_keyed hf key t \<longleftrightarrow>
     (\<forall>e \<in> set (pEntries t). \<forall>d. edata e = HData d \<longrightarrow> hashValue e = hf (key d))
   \<and> distinct (map key (live_data (pEntries t)))"

definition hash_inv :: "('k \<Rightarrow> u32) \<Rightarrow> ('a \<Rightarrow> 'k) \<Rightarrow> 'a HashTable \<Rightarrow> bool" where
  "hash_inv hf key t \<longleftrightarrow> hash_wf t \<and> hash_keyed hf key t"

text \<open>The finite map the table represents.\<close>

definition hash_view :: "('a \<Rightarrow> 'k) \<Rightarrow> 'a HashTable \<Rightarrow> 'k \<Rightarrow> 'a option" where
  "hash_view key t k = List.find (\<lambda>d. key d = k) (live_data (pEntries t))"

fun the_data :: "'a HashEntry \<Rightarrow> 'a" where
  "the_data e = (case edata e of HData d \<Rightarrow> d | _ \<Rightarrow> undefined)"

text \<open>What the new array holds after \<open>i\<close> entries of the old one are moved.\<close>

definition resized :: "'a HashEntry list \<Rightarrow> nat \<Rightarrow> nat \<Rightarrow> 'a HashEntry list \<Rightarrow> bool" where
  "resized old n i es \<longleftrightarrow> length es = n \<and> chained es
     \<and> filter (\<lambda>e. edata e = HTombstone) es = []
     \<and> mset (filter is_live es) = mset (filter is_live (take i old))"

text \<open>The items an iterator still has to deliver.\<close>

definition iter_rest :: "'a HashTable \<Rightarrow> HashIter \<Rightarrow> 'a list" where
  "iter_rest t it = live_data (drop (nat (idx it)) (pEntries t))"

text \<open>
  The loop of the header comment: \<open>mzHashIterBegin\<close>, then \<open>mzHashIterData\<close> and
  \<open>mzHashIterNext\<close> until \<open>mzHashIterDone\<close>.
\<close>

fun iterate :: "nat \<Rightarrow> 'a HashTable \<Rightarrow> HashIter \<Rightarrow> 'a hdata list res" where
  "iterate 0 t it = (if mzHashIterDone t it then Inr [] else Inl Diverges)"
| "iterate (Suc fuel) t it =
     (if mzHashIterDone t it then Inr []
      else bindR (mzHashIterData t it)
        (\<lambda>d. bindR (iterate fuel t (mzHashIterNext t it)) (\<lambda>ds. Inr (d # ds))))"

text \<open>How many more items fit before the table must be enlarged.\<close>

definition hash_room :: "'a HashTable \<Rightarrow> nat" where
  "hash_room t = nat (int (tableSize t * LOAD_NUMER) div int LOAD_DENOM
                      - numEntries t - numDeadEntries t)"

section \<open>Probing\<close>

lemma live_data_filter: "live_data es = map the_data (filter is_live es)"
  by (induction es) (auto split: hdata.splits)

lemma is_live_iff: "is_live e \<longleftrightarrow> (\<exists>d. edata e = HData d)"
  by (auto split: hdata.splits)

lemma in_live_data: "d \<in> set (live_data es) \<longleftrightarrow> (\<exists>e \<in> set es. edata e = HData d)"
  by (induction es) (auto split: hdata.splits)

lemma slot_less: "0 < n \<Longrightarrow> slot n h k < n"
  by (simp add: slot_def)

lemma slot_hits:
  assumes "j < n"
  shows "\<exists>k < n. slot n h k = j"
proof -
  let ?k = "(j + (n - unat h mod n)) mod n"
  have le: "unat h mod n \<le> n" using assms by (simp add: less_imp_le)
  have "slot n h ?k = (unat h mod n + (j + (n - unat h mod n))) mod n"
    unfolding slot_def by (metis mod_add_eq mod_mod_trivial)
  also have "unat h mod n + (j + (n - unat h mod n)) = j + n" using le by simp
  finally show ?thesis using assms by (intro exI[of _ ?k]) auto
qed

lemma used_or_null: "length (filter is_live es) + length (filter (\<lambda>e. edata e = HTombstone) es)
    + length (filter (\<lambda>e. edata e = HNull) es) = length es"
  by (induction es) (auto split: hdata.splits)

lemma null_slot_exists:
  assumes "length (filter is_live es) + length (filter (\<lambda>e. edata e = HTombstone) es) < length es"
  shows "\<exists>k < length es. edata (es ! slot (length es) h k) = HNull"
proof -
  have "filter (\<lambda>e. edata e = HNull) es \<noteq> []"
    using assms used_or_null[of es] by auto
  then obtain j where "j < length es" "edata (es ! j) = HNull"
    by (auto simp: filter_empty_conv in_set_conv_nth)
  then show ?thesis using slot_hits[of j "length es" h] by auto
qed

lemma hash_wf_null:
  assumes "hash_wf t"
  shows "\<exists>k < tableSize t. edata (pEntries t ! slot (tableSize t) h k) = HNull"
proof -
  have "0 < tableSize t" using assms by (auto simp: hash_wf_def)
  then have "length (filter is_live (pEntries t)) + countTombStones t < length (pEntries t)"
    using assms by (auto simp: hash_wf_def LOAD_NUMER_def LOAD_DENOM_def)
  then show ?thesis
    using null_slot_exists[of "pEntries t" h] assms by (auto simp: hash_wf_def countTombStones_def)
qed

lemma probe_start_slot: "hash_wf t \<Longrightarrow> probe_start t h = slot (tableSize t) h 0"
proof -
  assume "hash_wf t"
  then obtain k where "k \<le> 30" "tableSize t = 2 ^ k" by (auto simp: hash_wf_def)
  then show ?thesis
    using unat_and_pow2_minus_1[of k h] by (simp add: probe_start_def slot_def)
qed

lemma funpow_probe_next:
  assumes "i < n" and "n \<noteq> 1"
  shows "(probe_next n ^^ k) i = (i + k) mod n"
proof -
  have "probe_next n = (\<lambda>i. if Suc i = n then 0 else Suc i)"
    using assms(2) by (auto simp: probe_next_def fun_eq_iff)
  then show ?thesis using funpow_wrap[OF assms(1)] by simp
qed

lemma probe_iter:
  assumes wf: "hash_wf t" and k: "k < tableSize t"
  shows "(probe_next (tableSize t) ^^ k) (probe_start t h) = slot (tableSize t) h k"
proof (cases "tableSize t = 1")
  case True
  then show ?thesis using k probe_start_slot[OF wf, of h] by simp
next
  case False
  have start: "probe_start t h = unat h mod tableSize t"
    using probe_start_slot[OF wf, of h] by (simp add: slot_def)
  then have "(probe_next (tableSize t) ^^ k) (probe_start t h) = (unat h mod tableSize t + k) mod tableSize t"
    using funpow_probe_next[OF _ False, of "probe_start t h" k] k by simp
  then show ?thesis by (simp add: slot_def mod_add_left_eq)
qed

text \<open>
  The probe loop always ends, at the first slot of the probe sequence that is
  free or matches.
\<close>

lemma probe_loop_spec:
  fixes t :: "'a HashTable" and h :: u32
  assumes wf: "hash_wf t"
  defines "at \<equiv> \<lambda>k. pEntries t ! slot (tableSize t) h k"
  obtains K where "K < tableSize t"
    and "probe_loop t match h = Some (slot (tableSize t) h K)"
    and "edata (at K) = HNull \<or> match (at K)"
    and "\<And>k. k < K \<Longrightarrow> edata (at k) \<noteq> HNull \<and> \<not> match (at k)"
proof -
  let ?n = "tableSize t"
  let ?stop = "\<lambda>k. edata (at k) = HNull \<or> match (at k)"
  obtain k0 where k0: "k0 < ?n" "edata (at k0) = HNull"
    using hash_wf_null[OF wf, of h] by (auto simp: at_def)
  define K where "K = (LEAST k. ?stop k)"
  have stopK: "?stop K" unfolding K_def using k0(2) by (metis (mono_tags, lifting) LeastI)
  have before: "\<not> ?stop k" if "k < K" for k using not_less_Least that unfolding K_def by blast
  have "K \<le> k0" unfolding K_def using k0(2) by (simp add: Least_le)
  with k0(1) have Kn: "K < ?n" by simp
  have it: "(probe_next ?n ^^ k) (probe_start t h) = slot ?n h k" if "k \<le> K" for k
    using probe_iter[OF wf, of k h] that Kn by simp
  have "probe_loop t match h = Some ((probe_next ?n ^^ K) (probe_start t h))"
    unfolding probe_loop_def
  proof (rule seek_funpow)
    show "\<forall>m<K. \<not> ((probe_next ?n ^^ m) (probe_start t h) = ?n
        \<or> edata (pEntries t ! (probe_next ?n ^^ m) (probe_start t h)) = HNull
        \<or> match (pEntries t ! (probe_next ?n ^^ m) (probe_start t h)))"
    proof (intro allI impI)
      fix m assume m: "m < K"
      have "slot ?n h m < ?n" using Kn by (auto intro: slot_less)
      then show "\<not> ((probe_next ?n ^^ m) (probe_start t h) = ?n
        \<or> edata (pEntries t ! (probe_next ?n ^^ m) (probe_start t h)) = HNull
        \<or> match (pEntries t ! (probe_next ?n ^^ m) (probe_start t h)))"
        using before[OF m] it[of m] m by (auto simp: at_def)
    qed
    show "(probe_next ?n ^^ K) (probe_start t h) = ?n
        \<or> edata (pEntries t ! (probe_next ?n ^^ K) (probe_start t h)) = HNull
        \<or> match (pEntries t ! (probe_next ?n ^^ K) (probe_start t h))"
      using stopK it[of K] by (auto simp: at_def)
  qed
  then have "probe_loop t match h = Some (slot ?n h K)" using it[of K] by simp
  then show thesis using that[OF Kn _ stopK] before by blast
qed

section \<open>Lookup\<close>

lemma lookup_match_iff:
  "lookup_match cmp h item e \<longleftrightarrow> (\<exists>d. edata e = HData d \<and> hashValue e = h \<and> cmp d item = 0)"
  by (auto simp: lookup_match_def split: hdata.splits)

lemma hash_view_Some:
  assumes "hash_keyed hf key t"
  shows "hash_view key t k = Some d \<longleftrightarrow> d \<in> set (live_data (pEntries t)) \<and> key d = k"
proof -
  have "distinct (map key xs) \<Longrightarrow>
      List.find (\<lambda>d. key d = k) xs = Some d \<longleftrightarrow> d \<in> set xs \<and> key d = k" for xs
    by (induction xs) auto
  then show ?thesis using assms by (simp add: hash_keyed_def hash_view_def)
qed

lemma hash_view_None:
  "hash_view key t k = None \<longleftrightarrow> (\<forall>d \<in> set (live_data (pEntries t)). key d \<noteq> k)"
  by (auto simp: hash_view_def find_None_iff)

text \<open>Where the lookup loop stops when the key is stored, and when it is not.\<close>

lemma lookup_stops_at_match:
  assumes inv: "hash_inv hf key t" and cmp: "\<And>x y. cmp x y = 0 \<longleftrightarrow> key x = key y"
    and d: "hash_view key t (key item) = Some d"
  obtains i where "i < tableSize t" "edata (pEntries t ! i) = HData d"
    "probe_loop t (lookup_match cmp (hf (key item)) item) (hf (key item)) = Some i"
proof -
  let ?n = "tableSize t" and ?h = "hf (key item)"
  let ?m = "lookup_match cmp ?h item"
  have wf: "hash_wf t" and ky: "hash_keyed hf key t" using inv by (auto simp: hash_inv_def)
  have len: "length (pEntries t) = ?n" using wf by (simp add: hash_wf_def)
  have "d \<in> set (live_data (pEntries t))" and kd: "key d = key item"
    using d unfolding hash_view_Some[OF ky] by auto
  then obtain j where j: "j < ?n" "edata (pEntries t ! j) = HData d"
    unfolding in_live_data using len by (metis in_set_conv_nth)
  have hj: "hashValue (pEntries t ! j) = ?h"
    using ky j len kd by (auto simp: hash_keyed_def dest: nth_mem)
  have "is_live (pEntries t ! j)" using j(2) by (simp add: is_live_iff)
  then obtain kj where kj: "kj < ?n" "j = slot ?n ?h kj"
    and nn: "\<And>k'. k' < kj \<Longrightarrow> edata (pEntries t ! slot ?n ?h k') \<noteq> HNull"
    using wf j(1) hj len unfolding hash_wf_def chained_def by metis
  obtain K where K: "K < ?n" "probe_loop t ?m ?h = Some (slot ?n ?h K)"
    "edata (pEntries t ! slot ?n ?h K) = HNull \<or> ?m (pEntries t ! slot ?n ?h K)"
    and before: "\<And>k. k < K \<Longrightarrow> edata (pEntries t ! slot ?n ?h k) \<noteq> HNull
        \<and> \<not> ?m (pEntries t ! slot ?n ?h k)"
    using probe_loop_spec[OF wf, where match = ?m and h = ?h] by metis
  have "?m (pEntries t ! j)" using j(2) hj kd cmp by (auto simp: lookup_match_iff)
  with before kj(2) have "K \<le> kj" by (metis not_le)
  then have "edata (pEntries t ! slot ?n ?h K) \<noteq> HNull"
    using nn j(2) kj(2) by (cases "K = kj") auto
  with K(3) obtain d' where d': "edata (pEntries t ! slot ?n ?h K) = HData d'" "key d' = key item"
    using cmp by (auto simp: lookup_match_iff)
  have sl: "slot ?n ?h K < ?n" using K(1) by (auto intro: slot_less)
  then have "d' \<in> set (live_data (pEntries t))"
    using d'(1) len by (auto simp: in_live_data intro!: bexI[of _ "pEntries t ! slot ?n ?h K"])
  with d'(2) have "hash_view key t (key item) = Some d'" unfolding hash_view_Some[OF ky] by simp
  with d have "d' = d" by simp
  then show thesis using that[OF sl] d'(1) K(2) by simp
qed

lemma lookup_stops_at_null:
  assumes inv: "hash_inv hf key t" and cmp: "\<And>x y. cmp x y = 0 \<longleftrightarrow> key x = key y"
    and none: "hash_view key t (key item) = None"
  obtains K where "K < tableSize t"
    "edata (pEntries t ! slot (tableSize t) (hf (key item)) K) = HNull"
    "\<And>k. k < K \<Longrightarrow> edata (pEntries t ! slot (tableSize t) (hf (key item)) k) \<noteq> HNull"
    "probe_loop t (lookup_match cmp (hf (key item)) item) (hf (key item))
       = Some (slot (tableSize t) (hf (key item)) K)"
proof -
  let ?n = "tableSize t" and ?h = "hf (key item)"
  let ?m = "lookup_match cmp ?h item"
  have wf: "hash_wf t" using inv by (auto simp: hash_inv_def)
  have len: "length (pEntries t) = ?n" using wf by (simp add: hash_wf_def)
  obtain K where K: "K < ?n" "probe_loop t ?m ?h = Some (slot ?n ?h K)"
    "edata (pEntries t ! slot ?n ?h K) = HNull \<or> ?m (pEntries t ! slot ?n ?h K)"
    and before: "\<And>k. k < K \<Longrightarrow> edata (pEntries t ! slot ?n ?h k) \<noteq> HNull
        \<and> \<not> ?m (pEntries t ! slot ?n ?h k)"
    using probe_loop_spec[OF wf, where match = ?m and h = ?h] by metis
  have "slot ?n ?h K < ?n" using K(1) by (auto intro: slot_less)
  then have "\<not> ?m (pEntries t ! slot ?n ?h K)"
    using none len cmp unfolding hash_view_None by (auto simp: lookup_match_iff in_live_data)
  then show thesis using that[OF K(1)] K(2,3) before by blast
qed

section \<open>Adding and resizing\<close>

lemma chained_insert:
  assumes ch: "chained es" and K: "K < length es" and null: "edata (es ! slot (length es) h K) = HNull"
    and before: "\<And>k. k < K \<Longrightarrow> edata (es ! slot (length es) h k) \<noteq> HNull"
    and e: "hashValue e = h" "edata e = HData d"
  shows "chained (es[slot (length es) h K := e])"
proof -
  let ?n = "length es" and ?s = "slot (length es) h K"
  let ?es = "es[?s := e]"
  have s: "?s < ?n" using K by (auto intro: slot_less)
  have keep: "edata (es ! i) \<noteq> HNull \<Longrightarrow> edata (?es ! i) \<noteq> HNull" for i
    using e(2) s by (cases "i = ?s") auto
  show ?thesis unfolding chained_def
  proof (intro allI impI)
    fix j assume j: "j < length ?es" and live: "is_live (?es ! j)"
    show "\<exists>k<length ?es. j = slot (length ?es) (hashValue (?es ! j)) k
        \<and> (\<forall>k'<k. edata (?es ! slot (length ?es) (hashValue (?es ! j)) k') \<noteq> HNull)"
    proof (cases "j = ?s")
      case True
      then show ?thesis using K before keep e(1) s by (intro exI[of _ K]) auto
    next
      case False
      then have ej: "?es ! j = es ! j" by simp
      then obtain k where "k < ?n" "j = slot ?n (hashValue (es ! j)) k"
        "\<forall>k'<k. edata (es ! slot ?n (hashValue (es ! j)) k') \<noteq> HNull"
        using ch j live unfolding chained_def by auto
      then show ?thesis using keep ej by (intro exI[of _ k]) auto
    qed
  qed
qed

lemma is_live_HNull [simp]: "edata e = HNull \<Longrightarrow> \<not> is_live e"
  and is_live_HTombstone [simp]: "edata e = HTombstone \<Longrightarrow> \<not> is_live e"
  and is_live_HData [simp]: "edata e = HData d \<Longrightarrow> is_live e"
  by auto

declare is_live.simps [simp del]

lemma entry_eta: "\<lparr>hashValue = hashValue e, edata = edata e\<rparr> = e"
  by (cases e) simp

lemma resize_probe_spec:
  assumes n: "length es = n" "n = 2 ^ k" "k \<le> 31"
    and room: "length (filter is_live es) + length (filter (\<lambda>e. edata e = HTombstone) es) < n"
  obtains K where "K < n" "resize_probe es n h = Some (slot n h K)"
    "edata (es ! slot n h K) = HNull"
    "\<And>k. k < K \<Longrightarrow> edata (es ! slot n h k) \<noteq> HNull"
proof -
  let ?null = "\<lambda>k. edata (es ! slot n h k) = HNull"
  let ?nxt = "\<lambda>i. unat ((of_nat (i + 1) :: u32) AND of_nat (n - 1))"
  obtain k0 where k0: "k0 < n" "?null k0"
    using null_slot_exists[of es h] room n(1) by auto
  define K where "K = (LEAST k. ?null k)"
  have nullK: "?null K" unfolding K_def using k0(2) by (metis (mono_tags, lifting) LeastI)
  have before: "\<not> ?null k" if "k < K" for k using not_less_Least that unfolding K_def by blast
  have "K \<le> k0" unfolding K_def using k0(2) by (simp add: Least_le)
  with k0(1) have Kn: "K < n" by simp
  have le32: "k \<le> LENGTH(32)" using n(3) by simp
  have np: "n \<le> 2 ^ 31" using n(2,3) by (metis power_increasing one_le_numeral)
  have nxt: "?nxt i = Suc i mod n" if "i < n" for i
    using unat_and_pow2_minus_1[OF le32, of "of_nat (i + 1)"] n(2) np that
    by (simp add: unat_of_nat_small del: of_nat_Suc of_nat_add)
  have start: "unat (h AND of_nat (n - 1)) = slot n h 0"
    using unat_and_pow2_minus_1[OF le32, of h] n(2) by (simp add: slot_def)
  have it: "(?nxt ^^ k) (slot n h 0) = slot n h k" for k
  proof (induction k)
    case (Suc k)
    have "slot n h k < n" using Kn by (auto intro: slot_less)
    then show ?case using Suc nxt by (simp add: slot_def mod_Suc_eq)
  qed simp
  have "resize_probe es n h = Some ((?nxt ^^ K) (slot n h 0))"
    unfolding resize_probe_def start
  proof (rule seek_funpow)
    show "\<forall>m<K. edata (es ! (?nxt ^^ m) (slot n h 0)) \<noteq> HNull" using before it by simp
    show "edata (es ! (?nxt ^^ K) (slot n h 0)) = HNull" using nullK it by simp
  qed
  then show thesis using that[OF Kn] nullK before it by simp
qed

lemma resized_start: "resized old n 0 (replicate n empty_entry)"
  by (simp add: resized_def chained_def empty_entry_def is_live_iff)

lemma resized_step:
  assumes P: "resized old n i es" and i: "i < length old" and n: "n = 2 ^ k" "k \<le> 31"
    and big: "length old < n"
  shows "\<exists>es'. resize_step n (old ! i) es = Inr es' \<and> resized old n (Suc i) es'"
proof (cases "is_live (old ! i)")
  case False
  then show ?thesis using P i by (auto simp: resize_step_def resized_def take_Suc_conv_app_nth)
next
  case True
  let ?e = "old ! i"
  let ?h = "hashValue ?e"
  have len: "length es = n" and ts: "filter (\<lambda>e. edata e = HTombstone) es = []"
    using P by (auto simp: resized_def)
  have "length (filter is_live es) = length (filter is_live (take i old))"
    using P by (metis resized_def size_mset)
  also have "\<dots> \<le> i" using i by (metis length_filter_le length_take less_imp_le min.absorb2)
  finally have room: "length (filter is_live es) + length (filter (\<lambda>e. edata e = HTombstone) es) < n"
    using ts i big by simp
  obtain K where K: "K < n" "resize_probe es n ?h = Some (slot n ?h K)"
    "edata (es ! slot n ?h K) = HNull" "\<And>k. k < K \<Longrightarrow> edata (es ! slot n ?h k) \<noteq> HNull"
    using resize_probe_spec[OF len n room] by blast
  obtain d where d: "edata ?e = HData d" using True by (auto simp: is_live_iff)
  let ?es = "es[slot n ?h K := ?e]"
  have s: "slot n ?h K < length es" using K(1) len by (auto intro: slot_less)
  have "chained ?es"
    using chained_insert[of es K ?h ?e d] P K d len by (auto simp: resized_def)
  moreover have "mset (filter is_live ?es) = mset (filter is_live (take (Suc i) old))"
    using mset_filter_update_new[OF s, of is_live ?e] K(3) True P i
    by (simp add: resized_def take_Suc_conv_app_nth)
  moreover have "filter (\<lambda>e. edata e = HTombstone) ?es = []"
    using ts d set_update_subset_insert[of es "slot n ?h K" ?e] by (auto simp: filter_empty_conv)
  moreover have "resize_step n ?e es = Inr ?es"
    using True K(2) by (simp add: resize_step_def entry_eta)
  ultimately show ?thesis using len by (simp add: resized_def)
qed

lemma resizeHash_spec:
  assumes len: "length (pEntries t) = tableSize t"
    and dead: "numDeadEntries t = int (countTombStones t)"
    and mem: "calloc_entries mem newSize" and n: "newSize = 2 ^ k" "k \<le> 31" and big: "tableSize t < newSize"
  shows "\<exists>es. resizeHash mem t newSize
        = Inr (Some (t\<lparr>pEntries := es, tableSize := newSize, numDeadEntries := 0\<rparr>))
      \<and> resized (pEntries t) newSize (tableSize t) es"
proof -
  obtain es where es: "foldR (resize_step newSize) (pEntries t) (replicate newSize empty_entry) = Inr es"
    "resized (pEntries t) newSize (length (pEntries t)) es"
    using foldR_invariant[of "resized (pEntries t) newSize", OF resized_start]
      resized_step[OF _ _ n] big len by metis
  then show ?thesis
    using assms by (auto simp: resizeHash_def countTombStones_def Let_def resized_def)
qed

lemma hash_inv_mset:
  assumes wf: "hash_wf t'" and ky: "hash_keyed hf key t"
    and eq: "mset (filter is_live (pEntries t')) = mset (filter is_live (pEntries t))"
  shows "hash_inv hf key t'" and "hash_view key t' = hash_view key t"
proof -
  have ld: "mset (live_data (pEntries t')) = mset (live_data (pEntries t))"
    unfolding live_data_filter using eq by (simp del: mset_filter)
  then have st: "set (live_data (pEntries t')) = set (live_data (pEntries t))"
    by (rule mset_eq_setD)
  have live: "e \<in> set (pEntries t') \<and> is_live e \<longleftrightarrow> e \<in> set (pEntries t) \<and> is_live e" for e
    using mset_eq_setD[OF eq] by auto
  have "distinct (map key (live_data (pEntries t')))"
    using ky ld by (metis hash_keyed_def mset_eq_imp_distinct_iff mset_map)
  then have ky': "hash_keyed hf key t'"
    using ky live unfolding hash_keyed_def by (metis is_live_HData)
  then show "hash_inv hf key t'" using wf by (simp add: hash_inv_def)
  show "hash_view key t' = hash_view key t"
  proof
    fix k
    show "hash_view key t' k = hash_view key t k"
    proof (cases "hash_view key t k")
      case None
      then show ?thesis using st by (metis hash_view_None)
    next
      case (Some d)
      then show ?thesis using st hash_view_Some[OF ky'] hash_view_Some[OF ky] by metis
    qed
  qed
qed

text \<open>Storing a new item in the free slot the lookup stopped at.\<close>

lemma insert_at_null:
  assumes inv: "hash_inv hf key t" and none: "hash_view key t (key item) = None"
    and K: "K < tableSize t" "edata (pEntries t ! slot (tableSize t) (hf (key item)) K) = HNull"
    "\<And>k. k < K \<Longrightarrow> edata (pEntries t ! slot (tableSize t) (hf (key item)) k) \<noteq> HNull"
  defines "s \<equiv> slot (tableSize t) (hf (key item)) K"
  defines "t1 \<equiv> t\<lparr>pEntries := (pEntries t)[s := \<lparr>hashValue = hf (key item), edata = HData item\<rparr>],
                  numEntries := numEntries t + 1\<rparr>"
  shows "chained (pEntries t1)" and "hash_keyed hf key t1"
    and "hash_view key t1 = (hash_view key t)(key item \<mapsto> item)"
    and "numEntries t1 = int (length (filter is_live (pEntries t1)))"
    and "countTombStones t1 = countTombStones t"
proof -
  let ?e = "\<lparr>hashValue = hf (key item), edata = HData item\<rparr>"
  have wf: "hash_wf t" and ky: "hash_keyed hf key t" using inv by (auto simp: hash_inv_def)
  have len: "length (pEntries t) = tableSize t" using wf by (simp add: hash_wf_def)
  have s: "s < length (pEntries t)" using K(1) len by (auto simp: s_def intro: slot_less)
  have dead: "\<not> is_live (pEntries t ! s)" using K(2) by (simp add: s_def)
  show "chained (pEntries t1)"
    using chained_insert[of "pEntries t" K "hf (key item)" ?e item] wf K len
    by (simp add: t1_def s_def hash_wf_def)
  have live: "mset (filter is_live (pEntries t1)) = add_mset ?e (mset (filter is_live (pEntries t)))"
    using mset_filter_update_new[OF s, of is_live ?e, OF dead] by (simp add: t1_def)
  then have ld: "mset (live_data (pEntries t1)) = add_mset item (mset (live_data (pEntries t)))"
    unfolding live_data_filter mset_map by simp
  then have st: "set (live_data (pEntries t1)) = insert item (set (live_data (pEntries t)))"
    by (metis set_mset_add_mset_insert set_mset_mset)
  have "distinct (map key (item # live_data (pEntries t)))"
    using ky none by (auto simp: hash_keyed_def hash_view_None)
  then have dist: "distinct (map key (live_data (pEntries t1)))"
    using ld by (metis mset_eq_imp_distinct_iff mset_map mset.simps(2))
  have "\<forall>e \<in> set (pEntries t1). \<forall>d. edata e = HData d \<longrightarrow> hashValue e = hf (key d)"
    using ky set_update_subset_insert[of "pEntries t" s ?e]
    by (fastforce simp: t1_def hash_keyed_def)
  with dist show ky1: "hash_keyed hf key t1" by (simp add: hash_keyed_def)
  show "hash_view key t1 = (hash_view key t)(key item \<mapsto> item)"
  proof
    fix k
    show "hash_view key t1 k = ((hash_view key t)(key item \<mapsto> item)) k"
    proof (cases "hash_view key t1 k")
      case None
      then have "k \<noteq> key item" "hash_view key t k = None"
        using st unfolding hash_view_None by auto
      with None show ?thesis by simp
    next
      case (Some d)
      then show ?thesis
        using st hash_view_Some[OF ky1, of k d] hash_view_Some[OF ky, of k d] none
        by (auto simp: hash_view_None)
    qed
  qed
  show "numEntries t1 = int (length (filter is_live (pEntries t1)))"
    using arg_cong[OF live, of size] wf by (simp add: hash_wf_def t1_def del: mset_filter)
  show "countTombStones t1 = countTombStones t"
    using filter_update_count[OF s, of "\<lambda>e. edata e = HTombstone" ?e] K(2)
    by (simp add: countTombStones_def t1_def s_def)
qed

lemma wf_of_load:
  assumes "tableSize t = 2 ^ k" "k \<le> 30" "length (pEntries t) = tableSize t"
    "numEntries t = int (length (filter is_live (pEntries t)))"
    "numDeadEntries t = int (countTombStones t)"
    "(numEntries t + numDeadEntries t) * int LOAD_DENOM \<le> int (tableSize t * LOAD_NUMER)"
    "chained (pEntries t)"
  shows "hash_wf t"
  using assms unfolding hash_wf_def by blast

lemma load_after_resize:
  assumes "(0::int) \<le> e" "e * 8 \<le> n * 5" "1 \<le> n"
  shows "e * 8 + 8 \<le> 10 * n \<and> e + 1 < 2 * n"
proof (cases "n = 1")
  case True
  then have "e = 0" using assms by simp
  then show ?thesis using True by simp
next
  case False
  then show ?thesis using assms by simp
qed

text \<open>
  A new key: either the table has no room and the enlarged one cannot be
  allocated, or the new table represents the updated map.
\<close>

lemma add_new:
  assumes inv: "hash_inv hf key t" and cmp: "\<And>x y. cmp x y = 0 \<longleftrightarrow> key x = key y"
    and none: "hash_view key t (key item) = None"
  shows "mzHashTableLookup mem t (hf (key item)) item cmp True = Inl Abort
           \<and> \<not> calloc_entries mem (tableSize t * 2) \<and> hash_room t = 0
       \<or> (\<exists>t'. mzHashTableLookup mem t (hf (key item)) item cmp True = Inr (Some item, t')
            \<and> hash_inv hf key t'
            \<and> hash_view key t' = (hash_view key t)(key item \<mapsto> item)
            \<and> numEntries t' = numEntries t + 1
            \<and> hash_room t \<le> Suc (hash_room t'))"
proof -
  let ?h = "hf (key item)" and ?n = "tableSize t"
  obtain K where K: "K < ?n" "edata (pEntries t ! slot ?n ?h K) = HNull"
    "\<And>k. k < K \<Longrightarrow> edata (pEntries t ! slot ?n ?h k) \<noteq> HNull"
    "probe_loop t (lookup_match cmp ?h item) ?h = Some (slot ?n ?h K)"
    using lookup_stops_at_null[of hf key t cmp, OF inv cmp none] by blast
  define t1 where "t1 = t\<lparr>pEntries := (pEntries t)[slot ?n ?h K := \<lparr>hashValue = ?h, edata = HData item\<rparr>],
                  numEntries := numEntries t + 1\<rparr>"
  note ins = insert_at_null[OF inv none K(1-3), folded t1_def]
  have sl: "slot ?n ?h K < ?n" using K(1) by (auto intro: slot_less)
  have wf: "hash_wf t" using inv by (simp add: hash_inv_def)
  then obtain k where k: "?n = 2 ^ k" "k \<le> 30" by (auto simp: hash_wf_def)
  have t1: "tableSize t1 = ?n" "length (pEntries t1) = ?n" "numDeadEntries t1 = int (countTombStones t1)"
    "numEntries t1 = numEntries t + 1"
    using wf ins(5) by (auto simp: t1_def hash_wf_def)
  have run: "mzHashTableLookup mem t ?h item cmp True =
      bindR (add_entry mem t ?h item (slot ?n ?h K))
        (\<lambda>t'. if numEntries t' < int (tableSize t') then Inr (Some item, t') else Inl AssertFail)"
    using K sl by (auto simp: mzHashTableLookup_def)
  show ?thesis
  proof (cases "(numEntries t1 + numDeadEntries t1) * int LOAD_DENOM > int (tableSize t1 * LOAD_NUMER)")
    case False
    then have "hash_wf t1"
      using wf_of_load[of t1 k] k t1 ins(1,4) by simp
    moreover have "numEntries t1 < int (tableSize t1)"
      using False t1(1,3) K(1) by (auto simp: LOAD_DENOM_def LOAD_NUMER_def)
    moreover have "add_entry mem t ?h item (slot ?n ?h K) = Inr t1"
      using False by (simp add: add_entry_def t1_def [symmetric] Let_def)
    moreover have "hash_room t \<le> Suc (hash_room t1)"
      by (simp add: hash_room_def t1_def)
    ultimately show ?thesis using run ins(2,3) t1(4) by (simp add: hash_inv_def)
  next
    case True
    then have room: "hash_room t = 0"
      using t1(1,4) by (simp add: hash_room_def t1_def LOAD_DENOM_def LOAD_NUMER_def)
    have add: "add_entry mem t ?h item (slot ?n ?h K) =
        bindR (resizeHash mem t1 (?n * 2)) (\<lambda>r. case r of None \<Rightarrow> Inl Abort | Some t2 \<Rightarrow> Inr t2)"
      using True t1(1) by (simp add: add_entry_def t1_def [symmetric] Let_def)
    show ?thesis
    proof (cases "calloc_entries mem (?n * 2)")
      case False
      then have "resizeHash mem t1 (?n * 2) = Inr None"
        using t1(3) by (simp add: resizeHash_def)
      then show ?thesis using run add False room by simp
    next
      case mem: True
      have "?n * 2 \<le> 2 ^ 30" using mem by (simp add: calloc_entries_def)
      then have "(2::nat) ^ Suc k \<le> 2 ^ 30" using k by simp
      then have k30: "Suc k \<le> 30" by (rule power_le_imp_le_exp[rotated]) simp
      obtain es where es: "resizeHash mem t1 (?n * 2)
            = Inr (Some (t1\<lparr>pEntries := es, tableSize := ?n * 2, numDeadEntries := 0\<rparr>))"
          "resized (pEntries t1) (?n * 2) ?n es"
        using resizeHash_spec[of t1 mem "?n * 2" "Suc k"] t1 mem k k30 by auto
      define t2 where "t2 = t1\<lparr>pEntries := es, tableSize := ?n * 2, numDeadEntries := 0\<rparr>"
      have live: "mset (filter is_live (pEntries t2)) = mset (filter is_live (pEntries t1))"
        using es(2) t1(2) by (simp add: resized_def t2_def)
      have num: "numEntries t2 = int (length (filter is_live (pEntries t2)))"
        using ins(4) arg_cong[OF live, of size] by (simp add: t2_def del: mset_filter)
      have "numEntries t \<ge> 0" "numEntries t * 8 \<le> int ?n * 5" "int ?n \<ge> 1"
        using wf K(1) by (auto simp: hash_wf_def LOAD_DENOM_def LOAD_NUMER_def)
      then have "numEntries t * 8 + 8 \<le> 10 * int ?n" "numEntries t + 1 < 2 * int ?n"
        using load_after_resize[of "numEntries t" "int ?n"] by auto
      then have load: "(numEntries t2 + numDeadEntries t2) * int LOAD_DENOM \<le> int (tableSize t2 * LOAD_NUMER)"
          "numEntries t2 < int (tableSize t2)"
        using t1(4) by (auto simp: t2_def LOAD_DENOM_def LOAD_NUMER_def)
      have "hash_wf t2"
        using wf_of_load[of t2 "Suc k"] k k30 load num es(2)
        by (simp add: t2_def resized_def countTombStones_def)
      then have "hash_inv hf key t2" "hash_view key t2 = hash_view key t1"
        using hash_inv_mset[OF _ ins(2) live] by auto
      moreover have "mzHashTableLookup mem t ?h item cmp True = Inr (Some item, t2)"
        using run add es(1) load(2) by (simp add: t2_def)
      ultimately show ?thesis using ins(3) t1(4) room by (auto simp: t2_def)
    qed
  qed
qed

lemma add_old:
  assumes inv: "hash_inv hf key t" and cmp: "\<And>x y. cmp x y = 0 \<longleftrightarrow> key x = key y"
    and some: "hash_view key t (key item) = Some d"
  shows "mzHashTableLookup mem t (hf (key item)) item cmp doAdd = Inr (Some d, t)"
proof -
  obtain i where "i < tableSize t" "edata (pEntries t ! i) = HData d"
    "probe_loop t (lookup_match cmp (hf (key item)) item) (hf (key item)) = Some i"
    using lookup_stops_at_match[of hf key t cmp, OF inv cmp some] by blast
  then show ?thesis by (auto simp: mzHashTableLookup_def)
qed

lemma find_spec:
  assumes inv: "hash_inv hf key t" and cmp: "\<And>x y. cmp x y = 0 \<longleftrightarrow> key x = key y"
  shows "mzHashTableLookup mem t (hf (key item)) item cmp False = Inr (hash_view key t (key item), t)"
proof (cases "hash_view key t (key item)")
  case None
  obtain K where "K < tableSize t" "edata (pEntries t ! slot (tableSize t) (hf (key item)) K) = HNull"
    "probe_loop t (lookup_match cmp (hf (key item)) item) (hf (key item))
       = Some (slot (tableSize t) (hf (key item)) K)"
    using lookup_stops_at_null[of hf key t cmp, OF inv cmp None] by blast
  then show ?thesis
    using None slot_less[of "tableSize t" "hf (key item)" K] by (auto simp: mzHashTableLookup_def)
next
  case (Some d)
  then show ?thesis using add_old[of hf key t cmp, OF inv cmp Some] by simp
qed

lemma seek_counting:
  assumes "\<forall>m < K. \<not> stop ((nxt ^^ m) i)" and "stop ((nxt ^^ K) i)"
  shows "seek (\<lambda>(i, n). stop i) (\<lambda>(i, n). (nxt i, n + 1)) (i, 0::int) = Some ((nxt ^^ K) i, int K)"
proof -
  have it: "((\<lambda>(i, n). (nxt i, n + 1)) ^^ m) (i, 0::int) = ((nxt ^^ m) i, int m)" for m
    by (induction m) auto
  show ?thesis
    using seek_funpow[of K "\<lambda>(i, n). stop i" "\<lambda>(i, n). (nxt i, n + 1)" "(i, 0::int)"] assms
    by (simp add: it)
qed

text \<open>\<open>countProbes\<close> finds what the lookup finds, and its count is the probe distance.\<close>

lemma countProbes_spec:
  assumes inv: "hash_inv hf key t" and cmp: "\<And>x y. cmp x y = 0 \<longleftrightarrow> key x = key y"
  shows "case hash_view key t (key item) of
      None \<Rightarrow> countProbes t (hf (key item)) item cmp = Inr (- 1)
    | Some d \<Rightarrow> \<exists>K < tableSize t. countProbes t (hf (key item)) item cmp = Inr (int K)
        \<and> edata (pEntries t ! slot (tableSize t) (hf (key item)) K) = HData d"
proof -
  let ?n = "tableSize t" and ?h = "hf (key item)"
  let ?m = "lookup_match cmp ?h item"
  let ?stop = "\<lambda>i. i = ?n \<or> edata (pEntries t ! i) = HNull \<or> ?m (pEntries t ! i)"
  have wf: "hash_wf t" using inv by (simp add: hash_inv_def)
  obtain K where K: "K < ?n" "probe_loop t ?m ?h = Some (slot ?n ?h K)"
    "edata (pEntries t ! slot ?n ?h K) = HNull \<or> ?m (pEntries t ! slot ?n ?h K)"
    and before: "\<And>k. k < K \<Longrightarrow> edata (pEntries t ! slot ?n ?h k) \<noteq> HNull
        \<and> \<not> ?m (pEntries t ! slot ?n ?h k)"
    using probe_loop_spec[OF wf, where match = ?m and h = ?h] by metis
  have sl: "slot ?n ?h k < ?n" for k using K(1) by (auto intro: slot_less)
  have "\<not> ?stop ((probe_next ?n ^^ m) (probe_start t ?h))" if "m < K" for m
    using before[OF that] probe_iter[OF wf, of m ?h] sl[of m] that K(1) by simp
  then have "seek (\<lambda>(i, n). ?stop i) (\<lambda>(i, n). (probe_next ?n i, n + 1)) (probe_start t ?h, 0)
      = Some (slot ?n ?h K, int K)"
    using seek_counting[of K ?stop "probe_next ?n" "probe_start t ?h"] K(3)
      probe_iter[OF wf K(1), of ?h] by simp
  then have run: "countProbes t ?h item cmp =
      (if edata (pEntries t ! slot ?n ?h K) = HNull then Inr (- 1) else Inr (int K))"
    using K(1) sl[of K] by (simp add: countProbes_def)
  show ?thesis
  proof (cases "hash_view key t (key item)")
    case None
    then show ?thesis
      using lookup_stops_at_null[of hf key t cmp, OF inv cmp None] K(2) run by force
  next
    case (Some d)
    then obtain i where "edata (pEntries t ! i) = HData d" "probe_loop t ?m ?h = Some i"
      using lookup_stops_at_match[of hf key t cmp, OF inv cmp Some] by blast
    then show ?thesis using K(1,2) run Some by auto
  qed
qed

section \<open>Removal\<close>

lemma chained_tombstone:
  assumes ch: "chained es" and i: "i < length es" and live: "edata (es ! i) \<noteq> HNull"
  shows "chained (es[i := (es ! i)\<lparr>edata := HTombstone\<rparr>])"
proof -
  let ?es = "es[i := (es ! i)\<lparr>edata := HTombstone\<rparr>]"
  have keep: "edata (es ! j) \<noteq> HNull \<Longrightarrow> edata (?es ! j) \<noteq> HNull" for j
    using i by (cases "j = i") auto
  show ?thesis unfolding chained_def
  proof (intro allI impI)
    fix j assume j: "j < length ?es" "is_live (?es ! j)"
    then have "j \<noteq> i" using i by auto
    then have "?es ! j = es ! j" by simp
    moreover obtain k where "k < length es" "j = slot (length es) (hashValue (es ! j)) k"
      "\<forall>k'<k. edata (es ! slot (length es) (hashValue (es ! j)) k') \<noteq> HNull"
      using ch j \<open>j \<noteq> i\<close> unfolding chained_def by auto
    ultimately show "\<exists>k<length ?es. j = slot (length ?es) (hashValue (?es ! j)) k
        \<and> (\<forall>k'<k. edata (?es ! slot (length ?es) (hashValue (?es ! j)) k') \<noteq> HNull)"
      using keep by (intro exI[of _ k]) auto
  qed
qed

lemma remove_at:
  assumes inv: "hash_inv hf key t" and i: "i < tableSize t" "edata (pEntries t ! i) = HData item"
  defines "t' \<equiv> t\<lparr>pEntries := (pEntries t)[i := (pEntries t ! i)\<lparr>edata := HTombstone\<rparr>],
                  numEntries := numEntries t - 1, numDeadEntries := numDeadEntries t + 1\<rparr>"
  shows "hash_inv hf key t'" and "hash_view key t' = (hash_view key t)(key item := None)"
proof -
  let ?e = "(pEntries t ! i)\<lparr>edata := HTombstone\<rparr>"
  have wf: "hash_wf t" and ky: "hash_keyed hf key t" using inv by (auto simp: hash_inv_def)
  have i': "i < length (pEntries t)" using wf i by (simp add: hash_wf_def)
  have live: "mset (filter is_live (pEntries t))
      = add_mset (pEntries t ! i) (mset (filter is_live (pEntries t')))"
    using mset_filter_update_gone[OF i', of is_live ?e] i(2) by (simp add: t'_def)
  have ld: "mset (live_data (pEntries t)) = add_mset item (mset (live_data (pEntries t')))"
    unfolding live_data_filter mset_map live using i(2) by simp
  then have st: "set (live_data (pEntries t)) = insert item (set (live_data (pEntries t')))"
    by (metis set_mset_add_mset_insert set_mset_mset)
  have "distinct (map key (item # live_data (pEntries t')))"
    using ky ld by (metis hash_keyed_def mset_eq_imp_distinct_iff mset_map mset.simps(2))
  then have dist: "distinct (map key (live_data (pEntries t')))"
    and fresh: "key item \<notin> key ` set (live_data (pEntries t'))" by auto
  have "\<forall>e \<in> set (pEntries t'). \<forall>d. edata e = HData d \<longrightarrow> hashValue e = hf (key d)"
    using ky set_update_subset_insert[of "pEntries t" i ?e]
    by (fastforce simp: t'_def hash_keyed_def)
  with dist have ky': "hash_keyed hf key t'" by (simp add: hash_keyed_def)
  have "countTombStones t' = countTombStones t + 1"
    using filter_update_count[OF i', of "\<lambda>e. edata e = HTombstone" ?e] i(2)
    by (simp add: countTombStones_def t'_def)
  moreover have "length (filter is_live (pEntries t)) = Suc (length (filter is_live (pEntries t')))"
    using arg_cong[OF live, of size] by (simp del: mset_filter)
  ultimately have num: "numEntries t' = int (length (filter is_live (pEntries t')))"
      "numDeadEntries t' = int (countTombStones t')"
    using wf by (auto simp: hash_wf_def t'_def)
  have "numEntries t' + numDeadEntries t' = numEntries t + numDeadEntries t"
    "tableSize t' = tableSize t" "length (pEntries t') = length (pEntries t)" "chained (pEntries t')"
    using wf chained_tombstone[of "pEntries t" i] i' i(2) by (simp_all add: t'_def hash_wf_def)
  then have "hash_wf t'" using wf num unfolding hash_wf_def by auto
  then show "hash_inv hf key t'" using ky' by (simp add: hash_inv_def)
  show "hash_view key t' = (hash_view key t)(key item := None)"
  proof
    fix k
    show "hash_view key t' k = ((hash_view key t)(key item := None)) k"
    proof (cases "hash_view key t' k")
      case None
      then have "k = key item \<or> hash_view key t k = None"
        using st unfolding hash_view_None by auto
      with None show ?thesis by auto
    next
      case (Some d)
      then have "d \<in> set (live_data (pEntries t'))" "key d = k"
        unfolding hash_view_Some[OF ky'] by auto
      moreover from this have "k \<noteq> key item" using fresh imageI by metis
      ultimately show ?thesis using Some st hash_view_Some[OF ky, of k d] by simp
    qed
  qed
qed

lemma remove_spec:
  assumes inv: "hash_inv hf key t" and stored: "hash_view key t (key item) = Some item"
  shows "\<exists>t'. mzHashTableRemove t (hf (key item)) item = Inr (True, t') \<and> hash_inv hf key t'
           \<and> hash_view key t' = (hash_view key t)(key item := None)"
proof -
  let ?n = "tableSize t" and ?h = "hf (key item)"
  let ?m = "\<lambda>e. edata e = HData item"
  have wf: "hash_wf t" and ky: "hash_keyed hf key t" using inv by (auto simp: hash_inv_def)
  have len: "length (pEntries t) = ?n" using wf by (simp add: hash_wf_def)
  have "item \<in> set (live_data (pEntries t))" using stored unfolding hash_view_Some[OF ky] by auto
  then obtain j where j: "j < ?n" "edata (pEntries t ! j) = HData item"
    unfolding in_live_data using len by (metis in_set_conv_nth)
  have hj: "hashValue (pEntries t ! j) = ?h"
    using ky j len by (auto simp: hash_keyed_def dest: nth_mem)
  have "is_live (pEntries t ! j)" using j(2) by simp
  then obtain kj where kj: "kj < ?n" "j = slot ?n ?h kj"
    and nn: "\<And>k'. k' < kj \<Longrightarrow> edata (pEntries t ! slot ?n ?h k') \<noteq> HNull"
    using wf j(1) hj len unfolding hash_wf_def chained_def by metis
  obtain K where K: "K < ?n" "probe_loop t ?m ?h = Some (slot ?n ?h K)"
    "edata (pEntries t ! slot ?n ?h K) = HNull \<or> ?m (pEntries t ! slot ?n ?h K)"
    and before: "\<And>k. k < K \<Longrightarrow> edata (pEntries t ! slot ?n ?h k) \<noteq> HNull
        \<and> \<not> ?m (pEntries t ! slot ?n ?h k)"
    using probe_loop_spec[OF wf, where match = ?m and h = ?h] by metis
  from before kj(2) j(2) have "K \<le> kj" by (metis not_le)
  then have "edata (pEntries t ! slot ?n ?h K) \<noteq> HNull"
    using nn j(2) kj(2) by (cases "K = kj") auto
  with K(3) have d: "edata (pEntries t ! slot ?n ?h K) = HData item" by simp
  have sl: "slot ?n ?h K < ?n" using K(1) by (auto intro: slot_less)
  then have "mzHashTableRemove t ?h item = Inr (True,
      t\<lparr>pEntries := (pEntries t)[slot ?n ?h K := (pEntries t ! slot ?n ?h K)\<lparr>edata := HTombstone\<rparr>],
        numEntries := numEntries t - 1, numDeadEntries := numDeadEntries t + 1\<rparr>)"
    using K(2) d by (simp add: mzHashTableRemove_def)
  then show ?thesis using remove_at[OF inv sl d] by (intro exI conjI)
qed

section \<open>Creation\<close>

lemma bit_smear_step:
  assumes "\<And>n. bit (x::u32) n \<longleftrightarrow> (\<exists>m. n \<le> m \<and> m < n + w \<and> bit v m)"
  shows "bit (x OR drop_bit w x) n \<longleftrightarrow> (\<exists>m. n \<le> m \<and> m < n + 2 * w \<and> bit v m)"
proof -
  have "(n \<le> m \<and> m < n + 2 * w) \<longleftrightarrow> (n \<le> m \<and> m < n + w) \<or> (w + n \<le> m \<and> m < w + n + w)" for m
    by auto
  then show ?thesis using assms by (auto simp: bit_or_iff bit_drop_bit_eq)
qed

text \<open>The shifts of \<open>roundUpPower2\<close> fill every bit below the highest one.\<close>

lemma smear:
  fixes v :: u32
  defines "a \<equiv> v OR drop_bit 1 v"
  defines "b \<equiv> a OR drop_bit 2 a"
  defines "c \<equiv> b OR drop_bit 4 b"
  defines "d \<equiv> c OR drop_bit 8 c"
  shows "bit (d OR drop_bit 16 d) n \<longleftrightarrow> (\<exists>m\<ge>n. bit v m)"
proof -
  have v: "bit v n \<longleftrightarrow> (\<exists>m. n \<le> m \<and> m < n + 1 \<and> bit v m)" for n by (auto simp: le_Suc_eq less_Suc_eq_le)
  have a: "bit a n \<longleftrightarrow> (\<exists>m. n \<le> m \<and> m < n + 2 \<and> bit v m)" for n
    unfolding a_def using bit_smear_step[OF v] by simp
  have b: "bit b n \<longleftrightarrow> (\<exists>m. n \<le> m \<and> m < n + 4 \<and> bit v m)" for n
    unfolding b_def using bit_smear_step[OF a] by simp
  have c: "bit c n \<longleftrightarrow> (\<exists>m. n \<le> m \<and> m < n + 8 \<and> bit v m)" for n
    unfolding c_def using bit_smear_step[OF b] by simp
  have d: "bit d n \<longleftrightarrow> (\<exists>m. n \<le> m \<and> m < n + 16 \<and> bit v m)" for n
    unfolding d_def using bit_smear_step[OF c] by simp
  have "bit (d OR drop_bit 16 d) n \<longleftrightarrow> (\<exists>m. n \<le> m \<and> m < n + 32 \<and> bit v m)"
    using bit_smear_step[OF d] by simp
  then show ?thesis using bit_imp_le_length[of v] by fastforce
qed

lemma roundUpPower2_spec:
  assumes "0 < n" "n \<le> 2 ^ 31"
  shows "\<exists>k \<le> 31. unat (roundUpPower2 (of_nat n)) = 2 ^ k \<and> n \<le> 2 ^ k \<and> 2 ^ k < 2 * n"
proof -
  define v :: u32 where "v = of_nat n - 1"
  define S where "S = roundUpPower2 (of_nat n) - 1"
  have v: "v = of_nat (n - 1)" using assms unfolding v_def by (simp add: of_nat_diff)
  have bv: "bit v m \<longleftrightarrow> m < 32 \<and> bit (n - 1) m" for m
    unfolding v by (simp add: bit_of_nat_iff)
  have bS: "bit S i \<longleftrightarrow> (\<exists>m\<ge>i. bit v m)" for i
    using smear[of v i] by (simp add: S_def roundUpPower2_def v_def Let_def)
  have S: "roundUpPower2 (of_nat n) = S + 1" by (simp add: S_def)
  show ?thesis
  proof (cases "n = 1")
    case True
    then have "S = 0" using bS bv by (auto intro!: bit_eqI)
    then show ?thesis using S True by (intro exI[of _ 0]) simp
  next
    case False
    then have "1 \<le> n - 1" using assms(1) by simp
    then obtain k where k: "2 ^ k \<le> n - 1" "n - 1 < 2 ^ (k + 1)"
      using ex_power_ivl1[of 2 "n - 1"] by auto
    have "(2::nat) ^ k < 2 ^ 31" using k(1) assms by linarith
    then have k31: "k < 31" by (rule power_less_imp_less_exp[rotated]) simp
    have "(n - 1) div 2 ^ k = 1" using k by (intro div_nat_eqI) simp_all
    then have top: "bit (n - 1) k" by (simp add: bit_iff_odd)
    have above: "\<not> bit (n - 1) m" if "k < m" for m
    proof -
      have "(2::nat) ^ (k + 1) \<le> 2 ^ m" using that by (intro power_increasing) auto
      with k(2) have "n - 1 < 2 ^ m" by simp
      then show ?thesis by (simp add: bit_iff_odd)
    qed
    have "S = mask (k + 1)"
    proof (rule bit_eqI)
      fix i assume "possible_bit TYPE(u32) i"
      have "m \<le> k" if "bit (n - 1) m" for m using above that by (metis not_le)
      then have "bit S i \<longleftrightarrow> i \<le> k"
        unfolding bS bv using top k31 by (auto intro: exI[of _ k] le_trans)
      then show "bit S i \<longleftrightarrow> bit (mask (k + 1) :: u32) i"
        using k31 by (auto simp: bit_mask_iff possible_bit_def)
    qed
    then have "roundUpPower2 (of_nat n) = (2 ^ (k + 1) :: u32)"
      unfolding S by (simp add: mask_eq_exp_minus_1)
    moreover have "unat (2 ^ (k + 1) :: u32) = 2 ^ (k + 1)"
      using k31 unat_of_nat_small[of "2 ^ (k + 1)", where 'a = 32]
        power_strict_increasing[of "k + 1" 32 "2::nat"] by simp
    ultimately show ?thesis
      using k k31 False assms by (intro exI[of _ "k + 1"]) auto
  qed
qed

lemma live_data_replicate_empty [simp]: "live_data (replicate n empty_entry) = []"
  by (induction n) (auto simp: empty_entry_def)

lemma create_spec:
  fixes key :: "'a \<Rightarrow> 'k"
  assumes "0 < n" "n \<le> 2 ^ 31"
    and "calloc_entries mem (unat (roundUpPower2 (of_nat n)))"
  shows "\<exists>t. mzHashTableCreate mem n ff = Inr (Some t) \<and> hash_inv hf key t
      \<and> hash_view key t = Map.empty \<and> n * LOAD_NUMER div LOAD_DENOM \<le> hash_room t"
proof -
  obtain k where k: "unat (roundUpPower2 (of_nat n)) = 2 ^ k" "n \<le> 2 ^ k"
    using roundUpPower2_spec[OF assms(1,2)] by blast
  have "(2::nat) ^ k \<le> 2 ^ 30" using assms(3) k(1) by (simp add: calloc_entries_def)
  then have k30: "k \<le> 30" by (rule power_le_imp_le_exp[rotated]) simp
  define t :: "'a HashTable" where "t = \<lparr>tableSize = 2 ^ k, numEntries = 0, numDeadEntries = 0,
      pEntries = replicate (2 ^ k) empty_entry, freeFunc = ff\<rparr>"
  have "hash_wf t"
    using k30 by (auto simp: hash_wf_def t_def countTombStones_def chained_def empty_entry_def)
  moreover have "hash_keyed hf key t" "hash_view key t = Map.empty"
    by (auto simp: hash_keyed_def t_def empty_entry_def [symmetric] hash_view_def)
      (simp add: empty_entry_def)
  moreover have "mzHashTableCreate mem n ff = Inr (Some t)"
    using assms k by (simp add: mzHashTableCreate_def t_def Let_def)
  moreover have "n * LOAD_NUMER div LOAD_DENOM \<le> hash_room t"
  proof -
    have "n * LOAD_NUMER div LOAD_DENOM \<le> 2 ^ k * LOAD_NUMER div LOAD_DENOM"
      using k(2) by (intro div_le_mono mult_le_mono1)
    also have "\<dots> = hash_room t"
      unfolding hash_room_def t_def by (simp only: HashTable.simps diff_zero zdiv_int [symmetric] nat_int)
    finally show ?thesis .
  qed
  ultimately show ?thesis by (auto simp: hash_inv_def)
qed

text \<open>A table created for \<open>mzHashSize n\<close> entries has room for \<open>n\<close> items.\<close>

lemma mzHashSize_room: "n \<le> mzHashSize n * LOAD_NUMER div LOAD_DENOM"
  unfolding mzHashSize_def LOAD_NUMER_def LOAD_DENOM_def by presburger

section \<open>Iteration\<close>

lemma clear_spec:
  fixes key :: "'a \<Rightarrow> 'k"
  assumes "hash_inv hf key t"
  shows "hash_inv hf key (snd (mzHashTableClear t))"
    and "hash_view key (snd (mzHashTableClear t)) = Map.empty"
    and "freeFunc t \<Longrightarrow> set (fst (mzHashTableClear t)) = {d. \<exists>k. hash_view key t k = Some d}"
proof -
  have none: "live_data (map (\<lambda>e. e\<lparr>edata := HNull\<rparr>) es) = []" for es :: "'a HashEntry list"
    by (induction es) auto
  let ?t = "snd (mzHashTableClear t)"
  have pe: "pEntries ?t = map (\<lambda>e. e\<lparr>edata := HNull\<rparr>) (pEntries t)"
    by (simp add: mzHashTableClear_def)
  have "hash_wf ?t"
    using assms unfolding hash_inv_def hash_wf_def
    by (auto simp: mzHashTableClear_def countTombStones_def chained_def filter_map o_def)
  moreover show "hash_view key ?t = Map.empty" by (rule ext) (simp add: hash_view_def pe none)
  moreover have "hash_keyed hf key ?t" by (auto simp: hash_keyed_def pe none)
  ultimately show "hash_inv hf key ?t" by (simp add: hash_inv_def)
  show "set (fst (mzHashTableClear t)) = {d. \<exists>k. hash_view key t k = Some d}" if "freeFunc t"
    using that hash_view_Some[of hf key t] assms by (auto simp: mzHashTableClear_def hash_inv_def)
qed

lemma iter_scan_spec:
  "i \<le> iter_scan es i \<and> iter_scan es i \<le> i + length es
   \<and> live_data es = live_data (drop (iter_scan es i - i) es)
   \<and> (iter_scan es i < i + length es \<longrightarrow> is_live (es ! (iter_scan es i - i)))"
proof (induction es arbitrary: i)
  case (Cons e es)
  show ?case
  proof (cases "is_live e")
    case False
    then have "live_data (e # es) = live_data es" by (auto simp: is_live_iff split: hdata.splits)
    moreover have "iter_scan es (i + 1) - i = Suc (iter_scan es (i + 1) - (i + 1))"
      using Cons.IH[of "i + 1"] by auto
    ultimately show ?thesis using Cons.IH[of "i + 1"] False by simp
  qed simp
qed simp

lemma iter_next_spec:
  assumes len: "length (pEntries t) = tableSize t" and "- 1 \<le> idx it"
  shows "iter_rest t (mzHashIterNext t it) = live_data (drop (nat (idx it + 1)) (pEntries t))"
    and "0 \<le> idx (mzHashIterNext t it)"
    and "\<not> mzHashIterDone t (mzHashIterNext t it) \<Longrightarrow>
           is_live (pEntries t ! nat (idx (mzHashIterNext t it)))"
proof -
  let ?i = "nat (idx it + 1)"
  let ?es = "drop ?i (pEntries t)"
  have ix: "nat (idx (mzHashIterNext t it)) = iter_scan ?es ?i"
    and ge: "0 \<le> idx (mzHashIterNext t it)"
    by (auto simp: mzHashIterNext_def Let_def len [symmetric])
  note sp = iter_scan_spec[of ?i ?es]
  have "drop (iter_scan ?es ?i) (pEntries t) = drop (iter_scan ?es ?i - ?i) ?es"
    using sp by simp
  then show "iter_rest t (mzHashIterNext t it) = live_data ?es"
    unfolding iter_rest_def ix using sp by simp
  show "0 \<le> idx (mzHashIterNext t it)" by (rule ge)
  show "is_live (pEntries t ! nat (idx (mzHashIterNext t it)))"
    if "\<not> mzHashIterDone t (mzHashIterNext t it)"
  proof -
    have "iter_scan ?es ?i < length (pEntries t)"
      using that ix ge by (simp add: mzHashIterDone_def len)
    then have "is_live (?es ! (iter_scan ?es ?i - ?i))" using sp by auto
    then show ?thesis unfolding ix using sp \<open>iter_scan ?es ?i < _\<close> by simp
  qed
qed

lemma iterate_rest:
  assumes len: "length (pEntries t) = tableSize t" and "0 \<le> idx it"
    and "mzHashIterDone t it \<or> is_live (pEntries t ! nat (idx it))"
    and "length (iter_rest t it) \<le> fuel"
  shows "iterate fuel t it = Inr (map HData (iter_rest t it))"
  using assms(2-4)
proof (induction fuel arbitrary: it)
  case 0
  have "mzHashIterDone t it"
  proof (rule ccontr)
    assume nd: "\<not> mzHashIterDone t it"
    then have "nat (idx it) < length (pEntries t)" using 0(1) len by (simp add: mzHashIterDone_def)
    with nd 0 show False
      using Cons_nth_drop_Suc[of "nat (idx it)" "pEntries t", symmetric]
      by (auto simp: iter_rest_def is_live_iff)
  qed
  then show ?case using len by (simp add: iter_rest_def mzHashIterDone_def)
next
  case (Suc fuel)
  show ?case
  proof (cases "mzHashIterDone t it")
    case True
    then show ?thesis using len by (simp add: iter_rest_def mzHashIterDone_def)
  next
    case False
    let ?i = "nat (idx it)"
    have i: "?i < length (pEntries t)" using False Suc.prems(1) len by (simp add: mzHashIterDone_def)
    obtain d where d: "edata (pEntries t ! ?i) = HData d"
      using Suc.prems(2) False by (auto simp: is_live_iff)
    have nx: "nat (idx it + 1) = Suc ?i" using Suc.prems(1) by simp
    have rest: "iter_rest t it = d # iter_rest t (mzHashIterNext t it)"
      using iter_next_spec(1)[OF len, of it] i d Suc.prems(1) nx
        Cons_nth_drop_Suc[OF i, symmetric]
      by (simp add: iter_rest_def)
    have "mzHashIterData t it = Inr (HData d)"
      using d i Suc.prems(1) len by (simp add: mzHashIterData_def)
    moreover have "iterate fuel t (mzHashIterNext t it) = Inr (map HData (iter_rest t (mzHashIterNext t it)))"
      using Suc.IH[of "mzHashIterNext t it"] iter_next_spec[OF len, of it] Suc.prems(1,3) rest by auto
    ultimately show ?thesis using False rest by simp
  qed
qed

lemma iterate_all:
  assumes len: "length (pEntries t) = tableSize t"
  shows "iterate (tableSize t) t (mzHashIterBegin t) = Inr (map HData (live_data (pEntries t)))"
proof -
  have "iter_rest t (mzHashIterBegin t) = live_data (pEntries t)"
    using iter_next_spec(1)[OF len, of "\<lparr>idx = - 1\<rparr>"] by (simp add: mzHashIterBegin_def)
  moreover have "length (live_data (pEntries t)) \<le> tableSize t"
    using len by (simp add: live_data_filter) (metis length_filter_le)
  moreover have "0 \<le> idx (mzHashIterBegin t)"
    "mzHashIterDone t (mzHashIterBegin t) \<or> is_live (pEntries t ! nat (idx (mzHashIterBegin t)))"
    using iter_next_spec(2,3)[OF len, of "\<lparr>idx = - 1\<rparr>"] by (auto simp: mzHashIterBegin_def)
  ultimately show ?thesis using iterate_rest[OF len, of "mzHashIterBegin t"] by simp
qed

section \<open>The interface\<close>

text \<open>
  What a client of the table relies on: a keyed index, where adding an item under
  a new key extends the map, adding one under an old key changes nothing and
  returns the stored item, and finding reads the map.
\<close>

locale keyed_index =
  fixes ok :: "'t \<Rightarrow> bool"
    and view :: "'t \<Rightarrow> 'k \<Rightarrow> 'a option"
    and key :: "'a \<Rightarrow> 'k"
    and add :: "'t \<Rightarrow> 'a \<Rightarrow> ('a option \<times> 't) res"
    and find :: "'t \<Rightarrow> 'a \<Rightarrow> ('a option \<times> 't) res"
  assumes add_fresh: "ok t \<Longrightarrow> view t (key x) = None \<Longrightarrow> add t x = Inr (r, t') \<Longrightarrow>
      r = Some x \<and> ok t' \<and> view t' = (view t)(key x \<mapsto> x)"
    and add_present: "ok t \<Longrightarrow> view t (key x) = Some y \<Longrightarrow> add t x = Inr (Some y, t)"
    and find_view: "ok t \<Longrightarrow> find t x = Inr (view t (key x), t)"
begin

definition add_each :: "'a list \<Rightarrow> 't \<Rightarrow> 't res" where
  "add_each = foldR (\<lambda>x t. bindR (add t x) (\<lambda>(r, t'). Inr t'))"

text \<open>After adding a list of items, the index holds for each key the first item with it.\<close>

lemma add_each_view:
  assumes "ok t" and "add_each xs t = Inr t'"
  shows "ok t' \<and> view t' k = (case view t k of Some y \<Rightarrow> Some y | None \<Rightarrow> List.find (\<lambda>x. key x = k) xs)"
  using assms
proof (induction xs arbitrary: t)
  case Nil
  then show ?case by (auto simp: add_each_def split: option.splits)
next
  case (Cons x xs)
  from Cons.prems(2) obtain r t1 where t1: "add t x = Inr (r, t1)" "add_each xs t1 = Inr t'"
    by (auto simp: add_each_def)
  show ?case
  proof (cases "view t (key x)")
    case None
    then have "ok t1" "view t1 = (view t)(key x \<mapsto> x)" using add_fresh[OF Cons.prems(1) None t1(1)] by auto
    then show ?thesis using Cons.IH[OF _ t1(2)] None by (auto split: option.splits)
  next
    case (Some y)
    then have "t1 = t" using add_present[OF Cons.prems(1) Some] t1(1) by simp
    then show ?thesis using Cons.IH[OF _ t1(2)] Cons.prems(1) Some by (auto split: option.splits)
  qed
qed

lemma find_after_add_each:
  assumes "ok t" and "view t = Map.empty" and "add_each xs t = Inr t'"
  shows "find t' x = Inr (List.find (\<lambda>y. key y = key x) xs, t')"
  using add_each_view[OF assms(1,3)] find_view[of t' x] assms(2) by simp

end

text \<open>
  A keyed index of known capacity: as long as there is room, adding succeeds.
\<close>

locale sized_index = keyed_index ok view key add find
  for ok :: "'t \<Rightarrow> bool"
    and view :: "'t \<Rightarrow> 'k \<Rightarrow> 'a option"
    and key :: "'a \<Rightarrow> 'k"
    and add :: "'t \<Rightarrow> 'a \<Rightarrow> ('a option \<times> 't) res"
    and find :: "'t \<Rightarrow> 'a \<Rightarrow> ('a option \<times> 't) res" +
  fixes room :: "'t \<Rightarrow> nat"
  assumes add_room: "ok t \<Longrightarrow> room t = Suc n \<Longrightarrow> \<exists>r t'. add t x = Inr (r, t') \<and> n \<le> room t'"
begin

lemma add_each_total:
  assumes "ok t" and "length xs \<le> room t"
  shows "\<exists>t'. add_each xs t = Inr t'"
  using assms
proof (induction xs arbitrary: t)
  case (Cons x xs)
  then obtain n where n: "room t = Suc n" "length xs \<le> n" by (cases "room t") auto
  obtain r t1 where t1: "add t x = Inr (r, t1)" "n \<le> room t1" using add_room[OF Cons.prems(1) n(1)] by blast
  have "ok t1"
  proof (cases "view t (key x)")
    case None
    then show ?thesis using add_fresh[OF Cons.prems(1) None t1(1)] by simp
  next
    case (Some y)
    then show ?thesis using add_present[OF Cons.prems(1) Some] t1(1) Cons.prems(1) by simp
  qed
  then obtain t' where "add_each xs t1 = Inr t'" using Cons.IH t1(2) n(2) le_trans by blast
  then show ?case using t1(1) by (simp add: add_each_def)
qed (simp add: add_each_def)

end

text \<open>
  What the table relies on: the comparison function decides equality of keys, and
  items are stored under the hash of their key.
\<close>

locale keyed_items =
  fixes key :: "'a \<Rightarrow> 'k" and hf :: "'k \<Rightarrow> u32"
    and addcmp :: "'a \<Rightarrow> 'a \<Rightarrow> int" and findcmp :: "'a \<Rightarrow> 'a \<Rightarrow> int"
    and mem :: "nat \<Rightarrow> bool"
  assumes addcmp_zero: "addcmp x y = 0 \<longleftrightarrow> key x = key y"
    and findcmp_zero: "findcmp x y = 0 \<longleftrightarrow> key x = key y"

sublocale keyed_items \<subseteq> tbl: sized_index "hash_inv hf key" "hash_view key" key
  "\<lambda>t x. mzHashTableLookup mem t (hf (key x)) x addcmp True"
  "\<lambda>t x. mzHashTableLookup mem t (hf (key x)) x findcmp False"
  hash_room
proof
  show "r = Some x \<and> hash_inv hf key t' \<and> hash_view key t' = (hash_view key t)(key x \<mapsto> x)"
    if "hash_inv hf key t" "hash_view key t (key x) = None"
      "mzHashTableLookup mem t (hf (key x)) x addcmp True = Inr (r, t')" for t x r t'
    using add_new[of hf key t addcmp x mem, OF that(1) addcmp_zero that(2)] that(3) by auto
  show "mzHashTableLookup mem t (hf (key x)) x addcmp True = Inr (Some y, t)"
    if "hash_inv hf key t" "hash_view key t (key x) = Some y" for t x y
    using add_old[of hf key t addcmp, OF that(1) addcmp_zero that(2)] by simp
  show "mzHashTableLookup mem t (hf (key x)) x findcmp False = Inr (hash_view key t (key x), t)"
    if "hash_inv hf key t" for t x
    using find_spec[of hf key t findcmp, OF that findcmp_zero] by simp
  show "\<exists>r t'. mzHashTableLookup mem t (hf (key x)) x addcmp True = Inr (r, t') \<and> n \<le> hash_room t'"
    if "hash_inv hf key t" "hash_room t = Suc n" for t x n
  proof (cases "hash_view key t (key x)")
    case None
    then show ?thesis
      using add_new[of hf key t addcmp x mem, OF that(1) addcmp_zero None] that(2) by auto
  next
    case (Some y)
    then show ?thesis
      using add_old[of hf key t addcmp, OF that(1) addcmp_zero Some] that(2) by auto
  qed
qed

section \<open>Properties\<close>

text \<open>A table of four free slots, keyed by the items themselves.\<close>

definition sample_table :: "nat HashTable" where
  "sample_table = \<lparr>tableSize = 4, numEntries = 0, numDeadEntries = 0,
     pEntries = replicate 4 empty_entry, freeFunc = False\<rparr>"

definition sample_cmp :: "nat \<Rightarrow> nat \<Rightarrow> int" where
  "sample_cmp x y = int x - int y"

lemma sample_table_inv: "hash_inv of_nat (\<lambda>x. x) sample_table"
  and sample_table_view: "hash_view (\<lambda>x. x) sample_table = Map.empty"
proof -
  have r: "unat (roundUpPower2 (of_nat 4)) = 4" by (simp add: roundUpPower2_def)
  then have "mzHashTableCreate (\<lambda>_. True) 4 False = Inr (Some sample_table)"
    by (simp add: mzHashTableCreate_def calloc_entries_def sample_table_def)
  then show "hash_inv of_nat (\<lambda>x. x) sample_table" "hash_view (\<lambda>x. x) sample_table = Map.empty"
    using create_spec[of 4 "\<lambda>_. True" False of_nat "\<lambda>x. x"] r by (auto simp: calloc_entries_def)
qed



text \<open>
  C23: A lookup that does not add ends, returns what the map holds under the key and
  leaves the table unchanged.
\<close>

theorem hash_find_reads_map:
  assumes "hash_inv hf key t" and "\<forall>x y. cmp x y = 0 \<longleftrightarrow> key x = key y"
  shows "mzHashTableLookup mem t (hf (key item)) item cmp False
       = Inr (hash_view key t (key item), t)"
  using find_spec[where cmp = cmp and key = key] assms by blast

theorem hash_find_reads_map_witness:
  "mzHashTableLookup (\<lambda>_. False) sample_table (of_nat 7) 7 sample_cmp False = Inr (None, sample_table)"
  using hash_find_reads_map[of of_nat "\<lambda>x. x" sample_table sample_cmp "\<lambda>_. False" 7]
    sample_table_inv sample_table_view
  by (simp add: sample_cmp_def)

text \<open>
  C22: Removing a stored item succeeds, keeps the invariant (the tombstone it leaves
  keeps every other item reachable) and removes exactly its key from the map.
\<close>

theorem hash_remove_refines_map:
  assumes "hash_inv hf key t" and "hash_view key t (key item) = Some item"
  shows "\<exists>t'. mzHashTableRemove t (hf (key item)) item = Inr (True, t') \<and> hash_inv hf key t'
           \<and> hash_view key t' = (hash_view key t)(key item := None)"
  using remove_spec[OF assms] .

theorem hash_remove_refines_map_witness:
  "\<exists>t t'. mzHashTableLookup (\<lambda>_. True) sample_table (of_nat 7) 7 sample_cmp True = Inr (Some 7, t)
     \<and> mzHashTableRemove t (of_nat 7) 7 = Inr (True, t') \<and> hash_view (\<lambda>x. x) t' 7 = None"
proof -
  obtain t where t: "mzHashTableLookup (\<lambda>_. True) sample_table (of_nat 7) 7 sample_cmp True = Inr (Some 7, t)"
    "hash_inv of_nat (\<lambda>x. x) t" "hash_view (\<lambda>x. x) t 7 = Some 7"
    using add_new[of of_nat "\<lambda>x. x" sample_table sample_cmp 7 "\<lambda>_. True"]
      sample_table_inv sample_table_view
    by (auto simp: sample_cmp_def calloc_entries_def sample_table_def)
  then show ?thesis
    using hash_remove_refines_map[of of_nat "\<lambda>x. x" t 7] by auto
qed

text \<open>
  C40: \<open>roundUpPower2\<close> returns the smallest power of two that is at least its
  argument, for every argument from 1 to \<open>2 ^ 31\<close>.
\<close>

theorem roundUpPower2_correct:
  assumes "0 < n" and "n \<le> 2 ^ 31"
  shows "\<exists>k \<le> 31. unat (roundUpPower2 (of_nat n)) = 2 ^ k \<and> n \<le> 2 ^ k \<and> 2 ^ k < 2 * n"
  using roundUpPower2_spec[OF assms] .

theorem roundUpPower2_correct_witness:
  "\<exists>k \<le> 31. unat (roundUpPower2 (of_nat 5)) = 2 ^ k \<and> 5 \<le> (2::nat) ^ k \<and> (2::nat) ^ k < 2 * 5"
  using roundUpPower2_correct[of 5] by simp

text \<open>
  C24: The iterator loop of the header comment ends after at most \<open>tableSize\<close> steps and
  delivers every stored item exactly once.
\<close>

theorem hash_iteration_complete:
  assumes "hash_inv hf key t"
  shows "\<exists>ds. iterate (tableSize t) t (mzHashIterBegin t) = Inr (map HData ds)
      \<and> distinct (map key ds) \<and> (\<forall>k d. hash_view key t k = Some d \<longleftrightarrow> d \<in> set ds \<and> key d = k)"
proof -
  have ky: "hash_keyed hf key t" and len: "length (pEntries t) = tableSize t"
    using assms by (auto simp: hash_inv_def hash_wf_def)
  then show ?thesis
    using iterate_all[OF len] hash_view_Some[OF ky] by (auto simp: hash_keyed_def)
qed

theorem hash_iteration_complete_witness:
  "\<exists>ds. iterate (tableSize sample_table) sample_table (mzHashIterBegin sample_table) = Inr (map HData ds)
      \<and> distinct ds \<and> (\<forall>k d. hash_view (\<lambda>x. x) sample_table k = Some d \<longleftrightarrow> d \<in> set ds \<and> d = k)"
  using hash_iteration_complete[OF sample_table_inv] by simp

end
