(* ===== verification/Minzip_Zip.thy ===== *)
theory Minzip_Zip
  imports Minzip_Hash "HOL-Library.List_Lexorder"
begin

text \<open>
  The Zip reader of \<open>minzip/Zip.c\<close>: parsing of the central directory into a sorted
  array of entries and a hash index by name, lookup of an entry, streaming of an
  entry's data, and extraction of a directory. A file mapped into memory is the
  list of its bytes together with the address it is mapped at; a pointer into the
  mapping is an offset into that list. The signed 32-bit \<open>long\<close> of the device is
  an \<open>int\<close> that is read from a machine word with \<open>sint\<close>.
\<close>

unbundle bit_operations_syntax

section \<open>Reading the mapping\<close>

definition get2LE :: "bytes \<Rightarrow> nat \<Rightarrow> u16 res" where
  "get2LE m p =
     (if p + 2 \<le> length m
      then Inr (ucast (m ! p) OR push_bit 8 (ucast (m ! (p + 1))))
      else Inl OutOfBounds)"

definition get4LE :: "bytes \<Rightarrow> nat \<Rightarrow> u32 res" where
  "get4LE m p =
     (if p + 4 \<le> length m
      then Inr (ucast (m ! p) OR push_bit 8 (ucast (m ! (p + 1)))
                OR push_bit 16 (ucast (m ! (p + 2))) OR push_bit 24 (ucast (m ! (p + 3))))
      else Inl OutOfBounds)"

definition ENDSIG :: u32 where "ENDSIG = 0x06054b50"
definition LOCSIG :: u32 where "LOCSIG = 0x04034b50"
definition CENSIG :: u32 where "CENSIG = 0x02014b50"
definition ENDHDR :: nat where "ENDHDR = 22"
definition LOCHDR :: nat where "LOCHDR = 30"
definition CENHDR :: nat where "CENHDR = 46"
definition STORED :: u16 where "STORED = 0"
definition DEFLATED :: u16 where "DEFLATED = 8"
definition CENVEM_UNIX :: u16 where "CENVEM_UNIX = 0x300"
definition PATH_MAX :: nat where "PATH_MAX = 4096"

section \<open>Entries\<close>

record ZipEntry =
  fileName :: bytes
  offset :: int
  compLen :: int
  uncompLen :: int
  compression :: u16
  modTime :: u32
  crc32v :: u32
  versionMadeBy :: u16
  externalFileAttributes :: u32

text \<open>
  A \<open>void *\<close> handed to the hash table points to an entry of the archive's array or
  to a name; an entry is identified by its position in the array.
\<close>

datatype zptr = PEntry nat | PName bytes

fun zname :: "ZipEntry list \<Rightarrow> zptr \<Rightarrow> bytes" where
  "zname ents (PEntry i) = fileName (ents ! i)"
| "zname ents (PName s) = s"

definition hashcmpZipEntry :: "ZipEntry list \<Rightarrow> zptr \<Rightarrow> zptr \<Rightarrow> int" where
  "hashcmpZipEntry ents p q =
     (let n1 = zname ents p; n2 = zname ents q in
      if length n1 \<noteq> length n2 then int (length n1) - int (length n2)
      else memcmp n1 n2 (length n1))"

definition hashcmpZipName :: "ZipEntry list \<Rightarrow> zptr \<Rightarrow> zptr \<Rightarrow> int" where
  "hashcmpZipName ents p q =
     (let n1 = zname ents p; name = zname ents q; nameLen = length name in
      if length n1 \<noteq> nameLen then int (length n1) - int nameLen
      else memcmp n1 name nameLen)"

text \<open>\<open>char\<close> is unsigned on the device.\<close>

definition computeHash :: "bytes \<Rightarrow> u32" where
  "computeHash name = foldl (\<lambda>hash c. hash * 31 + ucast c) 2 name"

definition addEntryToHashTable ::
  "(nat \<Rightarrow> bool) \<Rightarrow> ZipEntry list \<Rightarrow> nat \<Rightarrow> zptr HashTable \<Rightarrow> zptr HashTable res" where
  "addEntryToHashTable mem ents i t =
     bindR (mzHashTableLookup mem t (computeHash (fileName (ents ! i))) (PEntry i)
              (hashcmpZipEntry ents) True)
       (\<lambda>(found, t'). Inr t')"

definition validFilename :: "bytes \<Rightarrow> bool" where
  "validFilename name \<longleftrightarrow> length name < PATH_MAX \<and> (\<forall>c \<in> set name. 32 \<le> c \<and> c < 127)"

section \<open>Sorted insertion\<close>

fun strncmp :: "bytes \<Rightarrow> bytes \<Rightarrow> nat \<Rightarrow> int" where
  "strncmp (a # as) (b # bs) (Suc n) =
     (if a = b then (if a = 0 then 0 else strncmp as bs n) else int (unat a) - int (unat b))"
| "strncmp _ _ _ = 0"

text \<open>The comparison in the binary search.\<close>

definition entry_diff :: "bytes \<Rightarrow> bytes \<Rightarrow> int" where
  "entry_diff a name =
     (let diffLen = (if length a < length name then length a else length name);
          diff = strncmp a name diffLen
      in if diff = 0 then int (length a) - int (length name) else diff)"

text \<open>The search returns the final value of \<open>high\<close>.\<close>

function bsearch_entry :: "ZipEntry list \<Rightarrow> bytes \<Rightarrow> int \<Rightarrow> int \<Rightarrow> int" where
  "bsearch_entry ents name low high =
     (if low \<le> high
      then let mid = low + (high - low) div 2;
               diff = entry_diff (fileName (ents ! nat mid)) name
           in if diff < 0 then bsearch_entry ents name (mid + 1) high
              else if diff > 0 then bsearch_entry ents name low (mid - 1)
              else mid
      else high)"
  by pat_completeness auto
termination
  by (relation "measure (\<lambda>(_, _, low, high). nat (high - low + 1))") auto

declare bsearch_entry.simps [simp del]

text \<open>Where the next entry goes among the \<open>i\<close> entries read so far.\<close>

definition insert_target :: "ZipEntry list \<Rightarrow> bytes \<Rightarrow> nat" where
  "insert_target ents name =
     (if ents = [] then 0
      else nat (bsearch_entry ents name 0 (int (length ents) - 1) + 1))"

definition insert_entry :: "ZipEntry list \<Rightarrow> ZipEntry \<Rightarrow> ZipEntry list" where
  "insert_entry ents e =
     (let target = insert_target ents (fileName e)
      in take target ents @ [e] @ drop target ents)"

section \<open>Parsing\<close>

text \<open>
  The overflow-checked additions come from the \<open>safe_iop\<close> library: \<open>safe_add_u\<close> on
  addresses and \<open>safe_add_l\<close> on \<open>long\<close> values. \<open>zmem\<close> is the allocator.
\<close>

record zenv =
  zmem :: "nat \<Rightarrow> bool"
  safe_add_u :: "u32 \<Rightarrow> u32 \<Rightarrow> u32 option"
  safe_add_l :: "int \<Rightarrow> int \<Rightarrow> bool"

definition safe_iop :: "zenv \<Rightarrow> bool" where
  "safe_iop env \<longleftrightarrow>
     (\<forall>a b. safe_add_u env a b = (if unat a + unat b < 2 ^ 32 then Some (a + b) else None))
   \<and> (\<forall>a b. safe_add_l env a b \<longleftrightarrow> - (2 ^ 31) \<le> a + b \<and> a + b < 2 ^ 31)"

record ZipArchive =
  numEntries :: nat
  pEntries :: "ZipEntry list"
  pHash :: "zptr HashTable"

fun find_eocd :: "bytes \<Rightarrow> nat \<Rightarrow> nat option" where
  "find_eocd m p =
     (if m ! p = 0x50 \<and> get4LE m p = Inr ENDSIG then Some p
      else case p of 0 \<Rightarrow> None | Suc q \<Rightarrow> find_eocd m q)"

declare find_eocd.simps [simp del]

text \<open>
  One iteration of the loop over the central directory: \<open>Inr None\<close> is the jump to
  \<open>bail\<close>, otherwise the entry read and the position of the next header.
\<close>

definition check_local_header :: "zenv \<Rightarrow> u32 \<Rightarrow> bytes \<Rightarrow> u32 \<Rightarrow> bool res" where
  "check_local_header env addr m localHdrOffset =
     (case safe_add_u env addr localHdrOffset of
        None \<Rightarrow> Inr False
      | Some localHdr \<Rightarrow>
          if localHdr + of_nat LOCHDR > addr + of_nat (length m) then Inr False
          else bindR (get4LE m (unat localHdrOffset)) (\<lambda>sig. Inr (sig = LOCSIG)))"

definition entry_offset :: "bytes \<Rightarrow> u32 \<Rightarrow> int res" where
  "entry_offset m localHdrOffset =
     bindR (get2LE m (unat localHdrOffset + 26)) (\<lambda>nam.
     bindR (get2LE m (unat localHdrOffset + 28)) (\<lambda>ext.
     Inr (sint (localHdrOffset + of_nat LOCHDR + ucast nam + ucast ext))))"

definition data_fits :: "zenv \<Rightarrow> bytes \<Rightarrow> int \<Rightarrow> int \<Rightarrow> bool" where
  "data_fits env m off len \<longleftrightarrow>
     safe_add_l env off len \<and> unat (of_int off + of_int len :: u32) \<le> length m"

definition bad_version :: "u16 \<Rightarrow> bool" where
  "bad_version v \<longleftrightarrow> v AND 0xff00 \<noteq> 0 \<and> v AND 0xff00 \<noteq> CENVEM_UNIX"

definition read_header :: "bytes \<Rightarrow> nat \<Rightarrow> bytes \<Rightarrow> (u32 \<times> ZipEntry) res" where
  "read_header m p name =
     bindR (get4LE m (p + 42)) (\<lambda>localHdrOffset.
     bindR (get4LE m (p + 20)) (\<lambda>siz.
     bindR (get4LE m (p + 24)) (\<lambda>len.
     bindR (get2LE m (p + 10)) (\<lambda>how.
     bindR (get4LE m (p + 12)) (\<lambda>tim.
     bindR (get4LE m (p + 16)) (\<lambda>crc.
     bindR (get2LE m (p + 4)) (\<lambda>vem.
     bindR (get4LE m (p + 38)) (\<lambda>atx.
     Inr (localHdrOffset,
       \<lparr>fileName = name, offset = 0, compLen = sint siz, uncompLen = sint len,
        compression = how, modTime = tim, crc32v = crc, versionMadeBy = vem,
        externalFileAttributes = atx\<rparr>)))))))))"

definition finish_entry :: "zenv \<Rightarrow> u32 \<Rightarrow> bytes \<Rightarrow> u32 \<Rightarrow> ZipEntry \<Rightarrow> ZipEntry option res" where
  "finish_entry env addr m localHdrOffset e =
     (if bad_version (versionMadeBy e) then Inr None
      else bindR (check_local_header env addr m localHdrOffset) (\<lambda>ok.
        if \<not> ok then Inr None
        else bindR (entry_offset m localHdrOffset) (\<lambda>off.
          if data_fits env m off (compLen e) then Inr (Some (e\<lparr>offset := off\<rparr>))
          else Inr None)))"

definition parse_entry :: "zenv \<Rightarrow> u32 \<Rightarrow> bytes \<Rightarrow> nat \<Rightarrow> (ZipEntry \<times> nat) option res" where
  "parse_entry env addr m p =
     (if p + CENHDR > length m then Inr None
      else bindR (get4LE m p) (\<lambda>sig. if sig \<noteq> CENSIG then Inr None
      else bindR (get2LE m (p + 28)) (\<lambda>fileNameLen.
           bindR (get2LE m (p + 30)) (\<lambda>extraLen.
           bindR (get2LE m (p + 32)) (\<lambda>commentLen.
             if p + CENHDR + unat fileNameLen > length m then Inr None
             else let name = take (unat fileNameLen) (drop (p + CENHDR) m) in
               if \<not> validFilename name then Inr None
               else bindR (read_header m p name) (\<lambda>(localHdrOffset, e).
                    bindR (finish_entry env addr m localHdrOffset e) (\<lambda>r.
                      case r of None \<Rightarrow> Inr None
                      | Some e' \<Rightarrow> Inr (Some (e', p + CENHDR + unat fileNameLen
                                              + unat extraLen + unat commentLen)))))))))"

fun parse_entries ::
  "zenv \<Rightarrow> u32 \<Rightarrow> bytes \<Rightarrow> nat \<Rightarrow> nat \<Rightarrow> ZipEntry list \<Rightarrow> ZipEntry list option res" where
  "parse_entries env addr m 0 p ents = Inr (Some ents)"
| "parse_entries env addr m (Suc n) p ents =
     bindR (parse_entry env addr m p) (\<lambda>r.
       case r of None \<Rightarrow> Inr None
       | Some (e, p') \<Rightarrow> parse_entries env addr m n p' (insert_entry ents e))"

text \<open>\<open>Inr None\<close> is the return value \<open>false\<close>.\<close>

definition parseZipArchive :: "zenv \<Rightarrow> u32 \<Rightarrow> bytes \<Rightarrow> ZipArchive option res" where
  "parseZipArchive env addr m =
     bindR (get4LE m 0) (\<lambda>val.
     if val = ENDSIG then Inr None else if val \<noteq> LOCSIG then Inr None
     else case find_eocd m (length m - ENDHDR) of
       None \<Rightarrow> Inr None
     | Some ptr \<Rightarrow>
         bindR (get2LE m (ptr + 8)) (\<lambda>num.
         bindR (get4LE m (ptr + 16)) (\<lambda>cdOffset.
         if num = 0 \<or> unat cdOffset \<ge> length m then Inr None
         else if \<not> zmem env (unat num) then Inr None
         else bindR (mzHashTableCreate (zmem env) (mzHashSize (unat num)) False) (\<lambda>h.
           case h of None \<Rightarrow> Inr None
           | Some t \<Rightarrow>
               bindR (parse_entries env addr m (unat num) (unat cdOffset) []) (\<lambda>r.
               case r of None \<Rightarrow> Inr None
               | Some ents \<Rightarrow>
                   bindR (foldR (addEntryToHashTable (zmem env) ents) [0 ..< unat num] t) (\<lambda>t'.
                   Inr (Some \<lparr>numEntries = unat num, pEntries = ents, pHash = t'\<rparr>)))))))"

definition mzOpenZipArchive :: "zenv \<Rightarrow> u32 \<Rightarrow> bytes option \<Rightarrow> ZipArchive option res" where
  "mzOpenZipArchive env addr file =
     (case file of None \<Rightarrow> Inr None
      | Some m \<Rightarrow> if length m < ENDHDR then Inr None else parseZipArchive env addr m)"

definition mzFindZipEntry :: "zenv \<Rightarrow> ZipArchive \<Rightarrow> bytes \<Rightarrow> nat option res" where
  "mzFindZipEntry env za entryName =
     bindR (mzHashTableLookup (zmem env) (pHash za) (computeHash entryName) (PName entryName)
              (hashcmpZipName (pEntries za)) False)
       (\<lambda>(r, t). Inr (case r of Some (PEntry i) \<Rightarrow> Some i | _ \<Rightarrow> None))"

definition mzIsZipEntrySymlink :: "ZipEntry \<Rightarrow> bool" where
  "mzIsZipEntrySymlink e \<longleftrightarrow>
     versionMadeBy e AND 0xff00 = CENVEM_UNIX
   \<and> drop_bit 16 (externalFileAttributes e) AND 0xf000 = 0xa000"

section \<open>Streaming the data of an entry\<close>

text \<open>
  A process function with its cookie is a function on the cookie's state that also
  says whether to go on. The archive's file descriptor reads the bytes of the file.
\<close>

type_synonym 's process = "bytes \<Rightarrow> 's \<Rightarrow> bool \<times> 's"

definition BUF_SIZE :: nat where "BUF_SIZE = 32 * 1024"

function stored_loop :: "bytes \<Rightarrow> nat \<Rightarrow> nat \<Rightarrow> 's process \<Rightarrow> 's \<Rightarrow> bool \<times> 's" where
  "stored_loop file pos bytesLeft pf s =
     (if bytesLeft = 0 then (True, s)
      else let count = (if bytesLeft > BUF_SIZE then BUF_SIZE else bytesLeft);
               buf = take count (drop pos file)
           in if length buf \<noteq> count then (False, s)
              else let (ret, s') = pf buf s
                   in if \<not> ret then (False, s')
                      else stored_loop file (pos + count) (bytesLeft - count) pf s')"
  by pat_completeness auto
termination
  by (relation "measure (\<lambda>(_, _, left, _, _). left)") (auto simp: BUF_SIZE_def split: if_splits)

declare stored_loop.simps [simp del]

definition processStoredEntry :: "bytes \<Rightarrow> nat \<Rightarrow> ZipEntry \<Rightarrow> 's process \<Rightarrow> 's \<Rightarrow> bool \<times> 's" where
  "processStoredEntry file pos e pf s =
     stored_loop file pos (unat (of_int (compLen e) :: u32)) pf s"

text \<open>
  zlib is used through \<open>inflateInit2\<close> and \<open>inflate\<close>: given a decompressor state, the
  bytes at \<open>next_in\<close> and the space at \<open>next_out\<close>, a call returns a code, the number of
  bytes consumed, the bytes produced and the new state.
\<close>

datatype zret = Z_OK | Z_STREAM_END | Z_ERROR

record 'z zlib =
  inflateInit2 :: "'z option"
  inflate :: "'z \<Rightarrow> bytes \<Rightarrow> nat \<Rightarrow> zret \<times> nat \<times> bytes \<times> 'z"

text \<open>
  The read at the top of the loop. \<open>read\<close> with a count above \<open>SSIZE_MAX\<close> fails with
  \<open>-1\<close>, so a negative \<open>getSize\<close> is caught by the comparison unless it is \<open>-1\<close> itself;
  \<open>avail_in\<close> then exceeds the read buffer.
\<close>

definition refill :: "bytes \<Rightarrow> nat \<Rightarrow> int \<Rightarrow> bytes \<Rightarrow> (nat \<times> int \<times> bytes) option res" where
  "refill file pos compRemaining inb =
     (if inb \<noteq> [] then Inr (Some (pos, compRemaining, inb))
      else let getSize = (if compRemaining > int BUF_SIZE then int BUF_SIZE else compRemaining) in
        if getSize = - 1 then Inl OutOfBounds
        else if getSize < 0 then Inr None
        else let buf = take (nat getSize) (drop pos file) in
          if length buf \<noteq> nat getSize then Inr None
          else Inr (Some (pos + nat getSize, compRemaining - getSize, buf)))"

partial_function (option) deflate_loop ::
  "'z zlib \<Rightarrow> bytes \<Rightarrow> 's process \<Rightarrow> 'z \<Rightarrow> nat \<Rightarrow> int \<Rightarrow> bytes \<Rightarrow> bytes \<Rightarrow> nat \<Rightarrow> 's
     \<Rightarrow> (int \<times> 's) res option" where
  "deflate_loop zl file pf zs pos rem inb procBuf total_out s =
     (case refill file pos rem inb of
        Inl f \<Rightarrow> Some (Inl f)
      | Inr None \<Rightarrow> Some (Inr (- 1, s))
      | Inr (Some (pos', rem', inb')) \<Rightarrow>
          (case inflate zl zs inb' (BUF_SIZE - length procBuf) of (zerr, used, produced, zs') \<Rightarrow>
             if zerr = Z_ERROR then Some (Inr (- 1, s))
             else if length (procBuf @ produced) = BUF_SIZE
                     \<or> zerr = Z_STREAM_END \<and> procBuf @ produced \<noteq> []
             then (case pf (procBuf @ produced) s of (ret, s') \<Rightarrow>
                     if \<not> ret then Some (Inr (- 1, s'))
                     else if zerr = Z_OK
                     then deflate_loop zl file pf zs' pos' rem' (drop used inb') []
                            (total_out + length produced) s'
                     else Some (Inr (int (total_out + length produced), s')))
             else if zerr = Z_OK
             then deflate_loop zl file pf zs' pos' rem' (drop used inb') (procBuf @ produced)
                    (total_out + length produced) s
             else Some (Inr (int (total_out + length produced), s))))"

declare deflate_loop.simps [code]

definition processDeflatedEntry ::
  "'z zlib \<Rightarrow> bytes \<Rightarrow> nat \<Rightarrow> ZipEntry \<Rightarrow> 's process \<Rightarrow> 's \<Rightarrow> (bool \<times> 's) res" where
  "processDeflatedEntry zl file pos e pf s =
     bindR (case inflateInit2 zl of
              None \<Rightarrow> Inr (- 1, s)
            | Some zs \<Rightarrow>
                bindR (of_loop (deflate_loop zl file pf zs pos (compLen e) [] [] 0 s)) (\<lambda>r. r))
       (\<lambda>(result, s'). Inr (result = uncompLen e, s'))"

definition mzProcessZipEntryContents ::
  "'z zlib \<Rightarrow> bytes \<Rightarrow> nat \<Rightarrow> ZipEntry \<Rightarrow> 's process \<Rightarrow> 's \<Rightarrow> (bool \<times> 's) res" where
  "mzProcessZipEntryContents zl file oldOff e pf s =
     (let pos = (if 0 \<le> offset e then nat (offset e) else oldOff) in
      if compression e = STORED then Inr (processStoredEntry file pos e pf s)
      else if compression e = DEFLATED then processDeflatedEntry zl file pos e pf s
      else Inr (False, s))"

text \<open>\<open>crc32\<close> is zlib's; the cookie is the running value.\<close>

definition crcProcessFunction :: "(u32 \<Rightarrow> bytes \<Rightarrow> u32) \<Rightarrow> u32 process" where
  "crcProcessFunction crc32 data crc = (True, crc32 crc data)"

definition mzIsZipEntryIntact ::
  "'z zlib \<Rightarrow> (u32 \<Rightarrow> bytes \<Rightarrow> u32) \<Rightarrow> bytes \<Rightarrow> nat \<Rightarrow> ZipEntry \<Rightarrow> bool res" where
  "mzIsZipEntryIntact zl crc32 file oldOff e =
     bindR (mzProcessZipEntryContents zl file oldOff e (crcProcessFunction crc32) (crc32 0 []))
       (\<lambda>(ret, crc). Inr (ret \<and> crc = crc32v e))"

text \<open>The cookie of the copy: what is written, and the space left.\<close>

definition copyProcessFunction :: "(bytes \<times> int) process" where
  "copyProcessFunction data args =
     (case args of (buf, bufLen) \<Rightarrow>
        if int (length data) \<le> bufLen then (True, (buf @ data, bufLen - int (length data)))
        else (False, (buf, bufLen)))"

definition mzReadZipEntry ::
  "'z zlib \<Rightarrow> bytes \<Rightarrow> nat \<Rightarrow> ZipEntry \<Rightarrow> int \<Rightarrow> (bool \<times> bytes) res" where
  "mzReadZipEntry zl file oldOff e bufLen =
     bindR (mzProcessZipEntryContents zl file oldOff e copyProcessFunction ([], bufLen))
       (\<lambda>(ret, (buf, _)). Inr (ret, buf))"

text \<open>
  \<open>writeProcessFunction\<close>: the results of the successive \<open>write\<close> calls are given as a
  list (the count, and whether \<open>errno\<close> is \<open>EINTR\<close>); past its end, writes are complete.
\<close>

fun write_loop :: "bytes \<Rightarrow> bytes \<Rightarrow> (int \<times> bool) list \<Rightarrow> bool \<times> bytes \<times> (int \<times> bool) list" where
  "write_loop data out [] = (data \<noteq> [], out @ data, [])"
| "write_loop data out ((n, eintr) # ws) =
     (if n \<le> 0 then (if eintr then write_loop data out ws else (False, out, ws))
      else if nat n = length data then (True, out @ data, ws)
      else if nat n > length data then (False, out @ data, ws)
      else write_loop (drop (nat n) data) (out @ take (nat n) data) ws)"

definition writeProcessFunction :: "(bytes \<times> (int \<times> bool) list) process" where
  "writeProcessFunction data fd = write_loop data (fst fd) (snd fd)"

definition mzExtractZipEntryToFile ::
  "'z zlib \<Rightarrow> bytes \<Rightarrow> nat \<Rightarrow> ZipEntry \<Rightarrow> (int \<times> bool) list \<Rightarrow> (bool \<times> bytes) res" where
  "mzExtractZipEntryToFile zl file oldOff e ws =
     bindR (mzProcessZipEntryContents zl file oldOff e writeProcessFunction ([], ws))
       (\<lambda>(ret, (out, _)). Inr (ret, out))"

text \<open>The cookie of the buffer extraction: what is written, and \<open>len\<close>.\<close>

definition bufferProcessFunction :: "(bytes \<times> int) process" where
  "bufferProcessFunction data bec = (True, (fst bec @ data, snd bec - int (length data)))"

definition mzExtractZipEntryToBuffer ::
  "'z zlib \<Rightarrow> bytes \<Rightarrow> nat \<Rightarrow> ZipEntry \<Rightarrow> (bool \<times> bytes) res" where
  "mzExtractZipEntryToBuffer zl file oldOff e =
     bindR (mzProcessZipEntryContents zl file oldOff e bufferProcessFunction ([], uncompLen e))
       (\<lambda>(ret, (buffer, len)). Inr (ret \<and> len = 0, buffer))"

section \<open>Extracting a directory\<close>

text \<open>
  The file system operations an extraction performs, in order, and how they turn
  out. \<open>fs_writes\<close> gives the results of the writes to a file.
\<close>

datatype fsop =
    MkDirs bytes
  | Created bytes
  | Wrote bytes bytes
  | Linked bytes bytes
  | Touched bytes
  | Called bytes

record fsenv =
  fs_mkdirs :: "bytes \<Rightarrow> bool \<Rightarrow> bool"
  fs_creat :: "bytes \<Rightarrow> bool"
  fs_symlink :: "bytes \<Rightarrow> bytes \<Rightarrow> bool"
  fs_utime :: "bytes \<Rightarrow> bool"
  fs_alloc :: "int \<Rightarrow> bool"
  fs_writes :: "bytes \<Rightarrow> (int \<times> bool) list"

definition SLASH :: u8 where "SLASH = 47"

record MzPathHelper =
  targetDir :: bytes
  targetDirLen :: nat
  zipDirLen :: nat
  hbuf :: "bytes option"
  bufLen :: int

text \<open>
  \<open>hbuf\<close> holds the fixed first part of the buffer once it exists. A write past
  \<open>bufLen\<close> is out of bounds.
\<close>

definition targetEntryPath :: "fsenv \<Rightarrow> MzPathHelper \<Rightarrow> bytes \<Rightarrow> (bytes \<times> MzPathHelper) option res" where
  "targetEntryPath fs h name =
     (let needLen = int (targetDirLen h) + 1 + int (length name) - int (zipDirLen h) + 1;
          grow = needLen > bufLen h;
          h1 = (if grow then h\<lparr>bufLen := needLen * 2\<rparr> else h)
      in if grow \<and> \<not> fs_alloc fs (needLen * 2) then Inr None
         else let (prefix, h2) =
                (case hbuf h of
                   Some b \<Rightarrow> (b, h1)
                 | None \<Rightarrow>
                     let d = targetDir h in
                     if d = [] \<or> last d \<noteq> SLASH
                     then (d @ [SLASH], h1\<lparr>targetDirLen := targetDirLen h + 1, hbuf := Some (d @ [SLASH])\<rparr>)
                     else (d, h1\<lparr>hbuf := Some d\<rparr>));
              path = prefix @ drop (zipDirLen h) name
          in if int (length path) + 1 > bufLen h2 then Inl OutOfBounds
             else Inr (Some (path, h2)))"

record extract_opts =
  files_only :: bool
  dry_run :: bool
  timestamp :: bool
  callback :: bool

text \<open>
  What an iteration does once the entry matches: go on, or \<open>break\<close> with the value of
  the outer variable \<open>ok\<close>. The regular-file branch declares an \<open>ok\<close> of its own, so
  its failures leave the outer one as it is.
\<close>

datatype step = Go "fsop list" | Break bool "fsop list"

definition notify :: "extract_opts \<Rightarrow> bytes \<Rightarrow> fsop list" where
  "notify opts path = (if callback opts then [Called path] else [])"

definition extract_symlink ::
  "'z zlib \<Rightarrow> bytes \<Rightarrow> nat \<Rightarrow> fsenv \<Rightarrow> extract_opts \<Rightarrow> ZipEntry \<Rightarrow> bytes \<Rightarrow> step res" where
  "extract_symlink zl file oldOff fs opts e path =
     (if uncompLen e = 0 then Inr (Break False [MkDirs path])
      else if \<not> fs_alloc fs (uncompLen e + 1) then Inr (Break False [MkDirs path])
      else bindR (mzReadZipEntry zl file oldOff e (uncompLen e)) (\<lambda>(ok, link).
        if \<not> ok then Inr (Break False [MkDirs path])
        else if \<not> fs_symlink fs link path then Inr (Break False [MkDirs path])
        else Inr (Go ([MkDirs path, Linked link path] @ notify opts path))))"

definition extract_file ::
  "'z zlib \<Rightarrow> bytes \<Rightarrow> nat \<Rightarrow> fsenv \<Rightarrow> extract_opts \<Rightarrow> ZipEntry \<Rightarrow> bytes \<Rightarrow> bool \<Rightarrow> step res" where
  "extract_file zl file oldOff fs opts e path outer_ok =
     (if \<not> fs_creat fs path then Inr (Break False [MkDirs path])
      else bindR (mzExtractZipEntryToFile zl file oldOff e (fs_writes fs path)) (\<lambda>(ok, out).
        if \<not> ok then Inr (Break outer_ok [MkDirs path, Created path, Wrote path out])
        else if timestamp opts \<and> \<not> fs_utime fs path
        then Inr (Break outer_ok [MkDirs path, Created path, Wrote path out])
        else Inr (Go ([MkDirs path, Created path, Wrote path out]
                      @ (if timestamp opts then [Touched path] else []) @ notify opts path))))"

definition extract_entry ::
  "'z zlib \<Rightarrow> bytes \<Rightarrow> nat \<Rightarrow> fsenv \<Rightarrow> extract_opts \<Rightarrow> ZipEntry \<Rightarrow> bytes \<Rightarrow> bool \<Rightarrow> step res" where
  "extract_entry zl file oldOff fs opts e path ok =
     (if dry_run opts then Inr (Go (notify opts path))
      else if fileName e = [] then Inl OutOfBounds
      else if last (fileName e) = SLASH
      then (if files_only opts then Inr (Go (notify opts path))
            else if fs_mkdirs fs path False then Inr (Go (MkDirs path # notify opts path))
            else Inr (Break False []))
      else if \<not> fs_mkdirs fs path True then Inr (Break False [])
      else if \<not> files_only opts \<and> mzIsZipEntrySymlink e
      then extract_symlink zl file oldOff fs opts e path
      else extract_file zl file oldOff fs opts e path ok)"

text \<open>\<open>ok\<close> is still \<open>true\<close> at the start of every iteration: each change of it breaks.\<close>

fun extract_loop ::
  "'z zlib \<Rightarrow> bytes \<Rightarrow> nat \<Rightarrow> fsenv \<Rightarrow> extract_opts \<Rightarrow> bytes \<Rightarrow> ZipEntry list \<Rightarrow> MzPathHelper \<Rightarrow> bool
     \<Rightarrow> (bool \<times> fsop list) res" where
  "extract_loop zl file oldOff fs opts zpath [] h seenMatch = Inr (True, [])"
| "extract_loop zl file oldOff fs opts zpath (e # es) h seenMatch =
     (if length (fileName e) < length zpath
         \<or> strncmp (fileName e) zpath (length zpath) \<noteq> 0
      then (if seenMatch then Inr (True, [])
            else extract_loop zl file oldOff fs opts zpath es h seenMatch)
      else bindR (targetEntryPath fs h (fileName e)) (\<lambda>r.
        case r of None \<Rightarrow> Inr (False, [])
        | Some (path, h') \<Rightarrow>
            bindR (extract_entry zl file oldOff fs opts e path True) (\<lambda>st.
              case st of
                Break ok ops \<Rightarrow> Inr (ok, ops)
              | Go ops \<Rightarrow> bindR (extract_loop zl file oldOff fs opts zpath es h' True)
                            (\<lambda>(ok, ops'). Inr (ok, ops @ ops')))))"

definition zip_path :: "bytes \<Rightarrow> bytes" where
  "zip_path zipDir = (if zipDir \<noteq> [] \<and> last zipDir \<noteq> SLASH then zipDir @ [SLASH] else zipDir)"

definition mzExtractRecursive ::
  "'z zlib \<Rightarrow> bytes \<Rightarrow> nat \<Rightarrow> fsenv \<Rightarrow> extract_opts \<Rightarrow> ZipArchive \<Rightarrow> bytes \<Rightarrow> bytes
     \<Rightarrow> (bool \<times> fsop list) res" where
  "mzExtractRecursive zl file oldOff fs opts za zipDir target =
     (if zipDir \<noteq> [] \<and> hd zipDir = SLASH then Inr (False, [])
      else if target = [] \<or> hd target \<noteq> SLASH then Inr (False, [])
      else if \<not> fs_alloc fs (int (length zipDir) + 2) then Inr (False, [])
      else extract_loop zl file oldOff fs opts (zip_path zipDir) (pEntries za)
             \<lparr>targetDir = target, targetDirLen = length target, zipDirLen = length (zip_path zipDir),
              hbuf = None, bufLen = 0\<rparr> False)"

section \<open>Invariants\<close>

definition sorted_names :: "ZipEntry list \<Rightarrow> bool" where
  "sorted_names ents \<longleftrightarrow> sorted (map fileName ents)"

definition names_ok :: "ZipEntry list \<Rightarrow> bool" where
  "names_ok ents \<longleftrightarrow> (\<forall>e \<in> set ents. 0 \<notin> set (fileName e))"

text \<open>What a successfully parsed archive satisfies.\<close>

definition zip_ok :: "zenv \<Rightarrow> bytes \<Rightarrow> ZipArchive \<Rightarrow> bool" where
  "zip_ok env m za \<longleftrightarrow>
     numEntries za = length (pEntries za) \<and> sorted_names (pEntries za)
   \<and> (\<forall>e \<in> set (pEntries za). validFilename (fileName e) \<and> \<not> bad_version (versionMadeBy e)
        \<and> data_fits env m (offset e) (compLen e))
   \<and> hash_inv computeHash (zname (pEntries za)) (pHash za)
   \<and> hash_view (zname (pEntries za)) (pHash za) =
       (\<lambda>name. map_option PEntry
          (List.find (\<lambda>i. fileName (pEntries za ! i) = name) [0 ..< numEntries za]))"

text \<open>
  The one address computation the code does not guard is \<open>localHdr + LOCHDR\<close>,
  which can wrap around. No 32-bit field of the file leads there if the following
  holds.
\<close>

definition no_wrap :: "u32 \<Rightarrow> bytes \<Rightarrow> bool" where
  "no_wrap addr m \<longleftrightarrow> unat addr + length m < 2 ^ 32
     \<and> (\<forall>p v. get4LE m p = Inr v \<longrightarrow> unat addr + unat v < 2 ^ 32 \<longrightarrow> unat addr + unat v + LOCHDR < 2 ^ 32)"

text \<open>The reference behaviour: every matching entry is extracted, none is skipped.\<close>

definition under :: "bytes \<Rightarrow> ZipEntry \<Rightarrow> bool" where
  "under zpath e \<longleftrightarrow> take (length zpath) (fileName e) = zpath"

fun extract_each ::
  "'z zlib \<Rightarrow> bytes \<Rightarrow> nat \<Rightarrow> fsenv \<Rightarrow> extract_opts \<Rightarrow> ZipEntry list \<Rightarrow> MzPathHelper
     \<Rightarrow> (bool \<times> fsop list) res" where
  "extract_each zl fb oldOff fs opts [] h = Inr (True, [])"
| "extract_each zl fb oldOff fs opts (e # es) h =
     bindR (targetEntryPath fs h (fileName e)) (\<lambda>r.
       case r of None \<Rightarrow> Inr (False, [])
       | Some (path, h') \<Rightarrow>
           bindR (extract_entry zl fb oldOff fs opts e path True) (\<lambda>st.
             case st of
               Break ok ops \<Rightarrow> Inr (ok, ops)
             | Go ops \<Rightarrow> bindR (extract_each zl fb oldOff fs opts es h')
                           (\<lambda>(ok, ops'). Inr (ok, ops @ ops'))))"

text \<open>The path buffer is always large enough.\<close>

definition helper_ok :: "MzPathHelper \<Rightarrow> bool" where
  "helper_ok h \<longleftrightarrow> (case hbuf h of None \<Rightarrow> targetDirLen h = length (targetDir h)
                   | Some b \<Rightarrow> targetDirLen h = length b \<and> b = zip_path (targetDir h))"

section \<open>Name order\<close>

lemma entry_diff_Cons:
  assumes "x \<noteq> 0"
  shows "entry_diff (x # a) (y # b) = (if x = y then entry_diff a b else int (unat x) - int (unat y))"
  using assms by (auto simp: entry_diff_def Let_def word_uint_eq_iff)

lemma entry_diff_order:
  assumes "0 \<notin> set a" and "0 \<notin> set b"
  shows "(entry_diff a b < 0 \<longleftrightarrow> a < b) \<and> (entry_diff a b = 0 \<longleftrightarrow> a = b)"
  using assms
proof (induction a arbitrary: b)
  case Nil
  then show ?case by (cases b) (auto simp: entry_diff_def)
next
  case (Cons x a)
  show ?case
  proof (cases b)
    case Nil
    then show ?thesis by (simp add: entry_diff_def)
  next
    case (Cons y b')
    then show ?thesis
      using Cons.IH[of b'] Cons.prems
      by (auto simp: entry_diff_Cons word_less_def word_uint_eq_iff)
  qed
qed

lemma bsearch_entry_spec:
  assumes "sorted_names ents" "names_ok ents" "0 \<notin> set name"
    and "0 \<le> low" "high < int (length ents)" "low \<le> high + 1"
    and "\<And>j. j < nat low \<Longrightarrow> fileName (ents ! j) \<le> name"
    and "\<And>j. high < int j \<Longrightarrow> j < length ents \<Longrightarrow> name \<le> fileName (ents ! j)"
  shows "let h = bsearch_entry ents name low high in
      - 1 \<le> h \<and> h < int (length ents)
    \<and> (\<forall>j < nat (h + 1). fileName (ents ! j) \<le> name)
    \<and> (\<forall>j. h < int j \<longrightarrow> j < length ents \<longrightarrow> name \<le> fileName (ents ! j))"
  using assms(4-)
proof (induction "nat (high - low + 1)" arbitrary: low high rule: less_induct)
  case less
  show ?case
  proof (cases "low \<le> high")
    case False
    then have "low = high + 1" using less.prems(3) by simp
    then show ?thesis
      using False less.prems by (auto simp: bsearch_entry.simps[of ents name low high] Let_def)
  next
    case True
    define mid where "mid = low + (high - low) div 2"
    have mid: "low \<le> mid" "mid \<le> high" "nat mid < length ents" "int (nat mid) = mid"
      using True less.prems(1,2) by (auto simp: mid_def)
    define d where "d = entry_diff (fileName (ents ! nat mid)) name"
    have ord: "d < 0 \<longleftrightarrow> fileName (ents ! nat mid) < name" "d = 0 \<longleftrightarrow> fileName (ents ! nat mid) = name"
      using entry_diff_order[of "fileName (ents ! nat mid)" name] assms(2,3) mid(3)
      by (auto simp: d_def names_ok_def)
    have mono: "fileName (ents ! i) \<le> fileName (ents ! j)" if "i \<le> j" "j < length ents" for i j
      using sorted_nth_mono[of "map fileName ents" i j] assms(1) that by (simp add: sorted_names_def)
    have unf: "bsearch_entry ents name low high =
        (if d < 0 then bsearch_entry ents name (mid + 1) high
         else if d > 0 then bsearch_entry ents name low (mid - 1) else mid)"
      using True by (subst bsearch_entry.simps) (simp add: mid_def d_def Let_def)
    consider "d < 0" | "d > 0" | "d = 0" by linarith
    then show ?thesis
    proof cases
      case 1
      have "fileName (ents ! j) \<le> name" if "j < nat (mid + 1)" for j
      proof -
        have "j \<le> nat mid" using that mid by linarith
        then show ?thesis using mono[OF _ mid(3)] ord(1) 1 by (meson less_imp_le order_trans)
      qed
      then show ?thesis
        using less.hyps[of high "mid + 1"] less.prems(1,2,5) mid 1 unf by simp
    next
      case 2
      have gt: "name \<le> fileName (ents ! nat mid)" using ord 2 by simp
      have "name \<le> fileName (ents ! j)" if "mid - 1 < int j" "j < length ents" for j
      proof -
        have "nat mid \<le> j" using that mid by linarith
        then show ?thesis using mono[OF _ that(2)] gt by (meson order_trans)
      qed
      then show ?thesis
        using less.hyps[of "mid - 1" low] less.prems(1,4) mid 2 unf by simp
    next
      case 3
      then have eq: "fileName (ents ! nat mid) = name" using ord by simp
      have "fileName (ents ! j) \<le> name" if "j < nat (mid + 1)" for j
        using mono[of j "nat mid"] mid(3,4) eq that by simp
      moreover have "name \<le> fileName (ents ! j)" if "mid < int j" "j < length ents" for j
        using mono[of "nat mid" j] mid(4) eq that by simp
      ultimately show ?thesis using 3 unf mid less.prems(1,2) by (simp add: Let_def)
    qed
  qed
qed

lemma insert_target_spec:
  assumes "sorted_names ents" "names_ok ents" "0 \<notin> set name"
  defines "k \<equiv> insert_target ents name"
  shows "k \<le> length ents" "\<And>j. j < k \<Longrightarrow> fileName (ents ! j) \<le> name"
    "\<And>j. k \<le> j \<Longrightarrow> j < length ents \<Longrightarrow> name \<le> fileName (ents ! j)"
proof -
  let ?h = "bsearch_entry ents name 0 (int (length ents) - 1)"
  have sp: "- 1 \<le> ?h \<and> ?h < int (length ents)
    \<and> (\<forall>j < nat (?h + 1). fileName (ents ! j) \<le> name)
    \<and> (\<forall>j. ?h < int j \<longrightarrow> j < length ents \<longrightarrow> name \<le> fileName (ents ! j))" if "ents \<noteq> []"
    using bsearch_entry_spec[OF assms(1-3), of 0 "int (length ents) - 1"] by (simp add: Let_def)
  show "k \<le> length ents" using sp by (cases "ents = []") (auto simp: k_def insert_target_def)
  show "\<And>j. j < k \<Longrightarrow> fileName (ents ! j) \<le> name"
    using sp by (cases "ents = []") (auto simp: k_def insert_target_def)
  show "name \<le> fileName (ents ! j)" if "k \<le> j" "j < length ents" for j
  proof -
    have "ents \<noteq> []" using that by auto
    then show ?thesis using sp that by (auto simp: k_def insert_target_def)
  qed
qed

text \<open>The insertion keeps the array sorted and adds exactly the new entry.\<close>

lemma insert_entry_sorted:
  assumes "sorted_names ents" "names_ok ents" "0 \<notin> set (fileName e)"
  shows "sorted_names (insert_entry ents e)" and "names_ok (insert_entry ents e)"
    and "mset (insert_entry ents e) = add_mset e (mset ents)"
proof -
  let ?k = "insert_target ents (fileName e)"
  note k = insert_target_spec[OF assms]
  have ins: "insert_entry ents e = take ?k ents @ [e] @ drop ?k ents"
    by (simp add: insert_entry_def Let_def)
  have so: "sorted (map fileName (take ?k ents))" "sorted (map fileName (drop ?k ents))"
    using assms(1) by (auto simp: sorted_names_def take_map [symmetric] drop_map [symmetric]
        sorted_wrt_take sorted_wrt_drop)
  have lo: "fileName x \<le> fileName e" if "x \<in> set (take ?k ents)" for x
    using that k(1,2) by (auto simp: in_set_conv_nth)
  have hi: "fileName e \<le> fileName x" if x: "x \<in> set (drop ?k ents)" for x
  proof -
    obtain i where "i < length (drop ?k ents)" "x = drop ?k ents ! i"
      using x by (metis in_set_conv_nth)
    then show ?thesis using k(3)[of "?k + i"] by auto
  qed
  show "sorted_names (insert_entry ents e)"
    using so lo hi unfolding ins sorted_names_def
    by (auto simp: sorted_append intro: order_trans)
  show ms: "mset (insert_entry ents e) = add_mset e (mset ents)"
    unfolding ins by simp (metis append_take_drop_id mset_append)
  have "set (insert_entry ents e) = insert e (set ents)"
    using ms by (metis set_mset_add_mset_insert set_mset_mset)
  then show "names_ok (insert_entry ents e)" using assms(2,3) by (auto simp: names_ok_def)
qed

section \<open>The index by name\<close>

interpretation zidx: keyed_items "zname ents" computeHash "hashcmpZipEntry ents" "hashcmpZipName ents" mem
  for ents :: "ZipEntry list" and mem :: "nat \<Rightarrow> bool"
  by unfold_locales (auto simp: hashcmpZipEntry_def hashcmpZipName_def Let_def memcmp_zero)

lemma add_entries_each:
  "foldR (addEntryToHashTable mem ents) ks t = zidx.tbl.add_each mem ents (map PEntry ks) t"
  unfolding zidx.tbl.add_each_def foldR_map
  by (rule foldR_cong) (simp add: addEntryToHashTable_def)

lemma validFilename_no_nul: "validFilename name \<Longrightarrow> 0 \<notin> set name"
  by (auto simp: validFilename_def)

lemma parse_entry_ok:
  assumes "parse_entry env addr m p = Inr (Some (e, p'))"
  shows "validFilename (fileName e) \<and> \<not> bad_version (versionMadeBy e)
    \<and> data_fits env m (offset e) (compLen e)"
  using assms
  by (auto simp: parse_entry_def read_header_def finish_entry_def Let_def
      split: if_splits option.splits)

lemma parse_entries_ok:
  assumes "parse_entries env addr m n p ents = Inr (Some ents')"
    and "sorted_names ents" "names_ok ents"
    and "\<forall>e \<in> set ents. P e"
    and "\<And>p e p'. parse_entry env addr m p = Inr (Some (e, p')) \<Longrightarrow> P e"
  shows "length ents' = length ents + n \<and> sorted_names ents' \<and> (\<forall>e \<in> set ents'. P e)"
  using assms(1-4)
proof (induction n arbitrary: p ents)
  case (Suc n)
  from Suc.prems(1) obtain e p' where e: "parse_entry env addr m p = Inr (Some (e, p'))"
    "parse_entries env addr m n p' (insert_entry ents e) = Inr (Some ents')"
    by (auto split: option.splits)
  have nn: "0 \<notin> set (fileName e)" using parse_entry_ok[OF e(1)] validFilename_no_nul by blast
  note ins = insert_entry_sorted[OF Suc.prems(2,3) nn]
  have "set (insert_entry ents e) = insert e (set ents)" "length (insert_entry ents e) = Suc (length ents)"
    using ins(3) by (metis set_mset_add_mset_insert set_mset_mset) (metis ins(3) size_add_mset size_mset)
  then show ?case
    using Suc.IH[OF e(2) ins(1,2)] Suc.prems(4) assms(5)[OF e(1)] by auto
qed simp

lemma hash_created:
  assumes "mzHashTableCreate mem (mzHashSize n) ff = Inr (Some t)" "n < 2 ^ 16"
  shows "hash_inv hf key t" "hash_view key t = Map.empty" "n \<le> hash_room t"
proof -
  have le: "mzHashSize n \<le> 2 ^ 31" and pos: "0 < mzHashSize n"
    using assms(2) by (auto simp: mzHashSize_def LOAD_DENOM_def LOAD_NUMER_def)
  have "calloc_entries mem (unat (roundUpPower2 (of_nat (mzHashSize n))))"
    using assms(1) by (auto simp: mzHashTableCreate_def Let_def split: if_splits)
  then show "hash_inv hf key t" "hash_view key t = Map.empty" "n \<le> hash_room t"
    using create_spec[OF pos le, of mem ff hf key] assms(1) mzHashSize_room[of n] le_trans
    by (auto dest: Inr_inject)
qed

lemma parseZipArchive_ok:
  assumes "parseZipArchive env addr m = Inr (Some za)"
  shows "zip_ok env m za"
proof -
  obtain num :: u16 and t p ents t' where t: "mzHashTableCreate (zmem env) (mzHashSize (unat num)) False = Inr (Some t)"
    and pe: "parse_entries env addr m (unat num) p [] = Inr (Some ents)"
    and ft: "foldR (addEntryToHashTable (zmem env) ents) [0 ..< unat num] t = Inr t'"
    and za: "za = \<lparr>numEntries = unat num, pEntries = ents, pHash = t'\<rparr>"
    using assms unfolding parseZipArchive_def
    by (auto split: if_splits option.splits)
  have n: "unat num < 2 ^ 16" using unsigned_less[of num] by simp
  have ents: "length ents = unat num" "sorted_names ents"
      "\<forall>e \<in> set ents. validFilename (fileName e) \<and> \<not> bad_version (versionMadeBy e)
        \<and> data_fits env m (offset e) (compLen e)"
    using parse_entries_ok[OF pe, of "\<lambda>e. validFilename (fileName e) \<and> \<not> bad_version (versionMadeBy e)
        \<and> data_fits env m (offset e) (compLen e)"] parse_entry_ok
    by (auto simp: sorted_names_def names_ok_def)
  have cr: "hash_inv computeHash (zname ents) t" "hash_view (zname ents) t = Map.empty"
    by (rule hash_created[OF t n])+
  have "hash_inv computeHash (zname ents) t'"
    and "hash_view (zname ents) t' k = List.find (\<lambda>x. zname ents x = k) (map PEntry [0 ..< unat num])" for k
    using zidx.tbl.add_each_view[of ents t "zmem env" "map PEntry [0 ..< unat num]" t' k] cr ft
    by (simp_all add: add_entries_each)
  then show ?thesis
    using ents by (auto simp: zip_ok_def za find_map fun_eq_iff)
qed

lemma mzFindZipEntry_ok:
  assumes "zip_ok env m za"
  shows "mzFindZipEntry env za name =
    Inr (List.find (\<lambda>i. fileName (pEntries za ! i) = name) [0 ..< numEntries za])"
proof -
  have inv: "hash_inv computeHash (zname (pEntries za)) (pHash za)"
    and view: "hash_view (zname (pEntries za)) (pHash za) name = map_option PEntry
          (List.find (\<lambda>i. fileName (pEntries za ! i) = name) [0 ..< numEntries za])"
    using assms by (simp_all add: zip_ok_def)
  have "mzHashTableLookup (zmem env) (pHash za) (computeHash name) (PName name)
      (hashcmpZipName (pEntries za)) False
    = Inr (hash_view (zname (pEntries za)) (pHash za) name, pHash za)"
    using zidx.tbl.find_view[OF inv, of "zmem env" "PName name"] by simp
  then show ?thesis
    by (auto simp: mzFindZipEntry_def view split: option.splits)
qed

section \<open>Staying inside the mapping\<close>

lemma get2LE_in: "isl (get2LE m p) \<longleftrightarrow> length m < p + 2"
  by (simp add: get2LE_def)

lemma get4LE_in: "isl (get4LE m p) \<longleftrightarrow> length m < p + 4"
  by (simp add: get4LE_def)

lemma get4LE_unat:
  assumes "get4LE m p = Inr v"
  shows "p + 4 \<le> length m \<and> unat v = unat (m ! p) + 2 ^ 8 * unat (m ! (p + 1))
    + 2 ^ 16 * unat (m ! (p + 2)) + 2 ^ 24 * unat (m ! (p + 3))"
proof -
  let ?a = "ucast (m ! p) :: u32"
  let ?b = "?a OR push_bit 8 (ucast (m ! (p + 1)))"
  let ?c = "?b OR push_bit 16 (ucast (m ! (p + 2)))"
  have l: "unat (m ! i) < 256" for i using unsigned_less[of "m ! i"] by simp
  have a: "unat ?a = unat (m ! p)" using l[of p] by (simp add: unsigned_ucast_eq take_bit_nat_eq_self)
  have b: "unat ?b = unat (m ! p) + 2 ^ 8 * unat (m ! (p + 1))"
    using or_push_bit_ucast[of ?a 8 "m ! (p + 1)"] a l[of p] by simp
  have c: "unat ?c = unat (m ! p) + 2 ^ 8 * unat (m ! (p + 1)) + 2 ^ 16 * unat (m ! (p + 2))"
    using or_push_bit_ucast[of ?b 16 "m ! (p + 2)"] b l[of p] l[of "p + 1"] by simp
  have "unat (?c OR push_bit 24 (ucast (m ! (p + 3)))) = unat ?c + 2 ^ 24 * unat (m ! (p + 3))"
    using or_push_bit_ucast[of ?c 24 "m ! (p + 3)"] c l[of p] l[of "p + 1"] l[of "p + 2"] by simp
  then show ?thesis
    using assms c by (auto simp: get4LE_def or.assoc split: if_splits)
qed

lemma check_local_header_total:
  assumes env: "safe_iop env" and wrap: "no_wrap addr m" and v: "get4LE m p = Inr v"
  shows "\<not> isl (check_local_header env addr m v)"
    and "check_local_header env addr m v = Inr True \<Longrightarrow> unat v + LOCHDR \<le> length m"
proof -
  have *: "\<not> isl (check_local_header env addr m v)
    \<and> (check_local_header env addr m v = Inr True \<longrightarrow> unat v + LOCHDR \<le> length m)"
  proof (cases "unat addr + unat v < 2 ^ 32")
    case False
    then show ?thesis using env by (auto simp: check_local_header_def safe_iop_def)
  next
    case True
    then have b: "unat addr + unat v + LOCHDR < 2 ^ 32" "unat addr + length m < 2 ^ 32"
      using wrap v by (auto simp: no_wrap_def)
    have s: "safe_add_u env addr v = Some (addr + v)" using env True by (simp add: safe_iop_def)
    have "unat (addr + v + of_nat LOCHDR) = unat addr + unat v + LOCHDR"
      using b(1) by (simp add: unat_word_ariths unat_of_nat_small LOCHDR_def)
    moreover have "unat (addr + of_nat (length m)) = unat addr + length m"
      using b(2) by (simp add: unat_word_ariths unat_of_nat_small)
    ultimately have cmp: "addr + v + of_nat LOCHDR > addr + of_nat (length m) \<longleftrightarrow> unat v + LOCHDR > length m"
      by (simp add: word_less_nat_alt)
    show ?thesis
      using s cmp get4LE_in[of m "unat v"] by (auto simp: check_local_header_def LOCHDR_def)
  qed
  then show "\<not> isl (check_local_header env addr m v)"
    and "check_local_header env addr m v = Inr True \<Longrightarrow> unat v + LOCHDR \<le> length m" by auto
qed

lemma entry_offset_total: "unat v + LOCHDR \<le> length m \<Longrightarrow> \<not> isl (entry_offset m v)"
  by (auto simp: entry_offset_def LOCHDR_def get2LE_in)

lemma finish_entry_total:
  assumes "safe_iop env" "no_wrap addr m" "get4LE m p = Inr v"
  shows "\<not> isl (finish_entry env addr m v e)"
  using check_local_header_total[OF assms] entry_offset_total[of v m]
  by (auto simp: finish_entry_def)

lemma parse_entry_total:
  assumes "safe_iop env" "no_wrap addr m"
  shows "\<not> isl (parse_entry env addr m p)"
  using finish_entry_total[OF assms]
  by (auto simp: parse_entry_def read_header_def Let_def get2LE_in get4LE_in CENHDR_def split: option.splits)

lemma parse_entries_total:
  assumes "safe_iop env" "no_wrap addr m"
  shows "\<not> isl (parse_entries env addr m n p ents)"
  using parse_entry_total[OF assms]
  by (induction n arbitrary: p ents) (auto split: option.splits)

lemma find_eocd_le: "find_eocd m p = Some q \<Longrightarrow> q \<le> p"
  by (induction p arbitrary: q) (auto simp: find_eocd.simps[of m] split: if_splits dest: le_SucI)

lemma create_no_fault: "\<not> isl (mzHashTableCreate mm (mzHashSize n) ff)"
  by (simp add: mzHashTableCreate_def mzHashSize_def Let_def)

lemma parseZipArchive_total:
  assumes "safe_iop env" "no_wrap addr m" "ENDHDR \<le> length m"
  shows "\<not> isl (parseZipArchive env addr m)"
proof -
  have total: "\<not> isl (foldR (addEntryToHashTable (zmem env) ents) [0 ..< unat num] t)"
    if "mzHashTableCreate (zmem env) (mzHashSize (unat num)) False = Inr (Some t)"
    for num :: u16 and ents t
  proof -
    have "unat num < 2 ^ 16" using unsigned_less[of num] by simp
    then have cr: "hash_inv computeHash (zname ents) t" "unat num \<le> hash_room t"
      using hash_created[OF that] by auto
    show ?thesis
      unfolding add_entries_each not_isl_Inr
      using zidx.tbl.add_each_total[of ents t "map PEntry [0 ..< unat num]" "zmem env"] cr by simp
  qed
  show ?thesis
    using assms(3) total parse_entries_total[OF assms(1,2)]
    by (auto simp: create_no_fault parseZipArchive_def get2LE_in get4LE_in ENDHDR_def dest!: find_eocd_le
        split: option.splits)
qed

section \<open>Entry data\<close>

lemma data_fits_bounds:
  assumes "safe_iop env" "data_fits env m off len" "0 \<le> off" "0 \<le> len"
  shows "nat off + nat len \<le> length m"
proof -
  have "off + len < 2 ^ 31" and le: "unat (of_int off + of_int len :: u32) \<le> length m"
    using assms(1,2) by (auto simp: data_fits_def safe_iop_def)
  moreover have "of_int off + of_int len = (of_int (off + len) :: u32)" by simp
  ultimately have "unat (of_int off + of_int len :: u32) = nat (off + len)"
    using assms(3,4) by (simp add: unat_eq_nat_uint unsigned_of_int take_bit_int_eq_self del: of_int_add)
  then show ?thesis using le assms(3,4) by simp
qed

section \<open>Sinks\<close>

text \<open>
  What the streaming code relies on: a process function that reports success has
  recorded its chunk after the chunks it got before.
\<close>

locale faithful_sink =
  fixes pf :: "'s process" and recorded :: "'s \<Rightarrow> bytes"
  assumes pf_records: "pf d s = (True, s') \<Longrightarrow> recorded s' = recorded s @ d"
begin

lemma stored_exact:
  assumes "stored_loop fb pos n pf s = (True, s')"
  shows "recorded s' = recorded s @ take n (drop pos fb) \<and> length (take n (drop pos fb)) = n"
  using assms
proof (induction n arbitrary: pos s rule: less_induct)
  case (less n)
  show ?case
  proof (cases "n = 0")
    case True
    then show ?thesis using less.prems by (subst (asm) stored_loop.simps) simp
  next
    case False
    define c where "c = (if n > BUF_SIZE then BUF_SIZE else n)"
    define chunk where "chunk = take c (drop pos fb)"
    have c: "0 < c" "c \<le> n" using False by (auto simp: c_def BUF_SIZE_def)
    obtain s1 where s1: "pf chunk s = (True, s1)" "length chunk = c"
      "stored_loop fb (pos + c) (n - c) pf s1 = (True, s')"
      using less.prems False stored_loop.simps[of fb pos n pf s]
      by (auto simp: c_def [symmetric] chunk_def Let_def split: if_splits prod.splits)
    have IH: "recorded s' = recorded s1 @ take (n - c) (drop (pos + c) fb)"
      "length (take (n - c) (drop (pos + c) fb)) = n - c"
      using less.IH[OF _ s1(3)] c by auto
    have split: "take n (drop pos fb) = chunk @ take (n - c) (drop (pos + c) fb)"
      using take_add[of c "n - c" "drop pos fb"] c(2) by (simp add: chunk_def add.commute)
    show ?thesis unfolding split using IH s1(2) c(2) pf_records[OF s1(1)] by simp
  qed
qed

text \<open>When the inflate loop succeeds, the sink got as many bytes as \<open>total_out\<close> says.\<close>

lemma deflate_exact_aux:
  assumes "deflate_loop zl fb pf' zs pos rem inb procBuf tot s = Some y"
  shows "pf' = pf \<longrightarrow> (\<forall>r s'. y = Inr (r, s') \<longrightarrow> r \<noteq> - 1 \<longrightarrow>
    (\<exists>ds. recorded s' = recorded s @ procBuf @ ds \<and> r = int (tot + length ds)))"
  using assms
proof (induction zl fb pf' zs pos rem inb procBuf tot s y
    rule: deflate_loop.raw_induct[rotated 1, consumes 1, case_names step])
  case (step loop zl fb pf' zs pos rem inb procBuf tot s y)
  show ?case
  proof (intro impI allI)
    fix r s' assume pf': "pf' = pf" and y: "y = Inr (r, s')" and r: "r \<noteq> - 1"
    note body = step(2)[unfolded y pf']
    obtain pos' rem' inb' where rf: "refill fb pos rem inb = Inr (Some (pos', rem', inb'))"
      using body r by (auto split: sum.splits option.splits)
    obtain zerr used prod zs' where zi: "inflate zl zs inb' (BUF_SIZE - length procBuf) = (zerr, used, prod, zs')"
      by (metis prod_cases4)
    let ?out = "procBuf @ prod"
    have step': "(if zerr = Z_ERROR then Some (Inr (- 1, s))
         else if length ?out = BUF_SIZE \<or> zerr = Z_STREAM_END \<and> ?out \<noteq> []
         then (case pf ?out s of (ret, s'') \<Rightarrow>
            if \<not> ret then Some (Inr (- 1, s''))
            else if zerr = Z_OK then loop zl fb pf zs' pos' rem' (drop used inb') [] (tot + length prod) s''
            else Some (Inr (int (tot + length prod), s'')))
         else if zerr = Z_OK then loop zl fb pf zs' pos' rem' (drop used inb') ?out (tot + length prod) s
         else Some (Inr (int (tot + length prod), s))) = Some (Inr (r, s'))"
      using body by (simp add: rf zi)
    show "\<exists>ds. recorded s' = recorded s @ procBuf @ ds \<and> r = int (tot + length ds)"
    proof (cases "length ?out = BUF_SIZE \<or> zerr = Z_STREAM_END \<and> ?out \<noteq> []")
      case True
      then obtain s1 where s1: "pf ?out s = (True, s1)"
        using step' r by (auto split: if_splits prod.splits)
      note rec = pf_records[OF s1]
      show ?thesis
      proof (cases "zerr = Z_OK")
        case ok: True
        then have "loop zl fb pf zs' pos' rem' (drop used inb') [] (tot + length prod) s1 = Some (Inr (r, s'))"
          using step' True s1 by simp
        from step(1)[OF this] obtain ds where "recorded s' = recorded s1 @ ds" "r = int (tot + length prod + length ds)"
          using r by auto
        then show ?thesis using rec by (intro exI[of _ "prod @ ds"]) simp
      next
        case False
        then show ?thesis using step' True s1 rec r by (intro exI[of _ prod]) (auto split: if_splits)
      qed
    next
      case False
      show ?thesis
      proof (cases "zerr = Z_OK")
        case ok: True
        then have "loop zl fb pf zs' pos' rem' (drop used inb') ?out (tot + length prod) s = Some (Inr (r, s'))"
          using step' False by auto
        from step(1)[OF this] obtain ds where "recorded s' = recorded s @ ?out @ ds" "r = int (tot + length prod + length ds)"
          using r by auto
        then show ?thesis by (intro exI[of _ "prod @ ds"]) simp
      next
        case nok: False
        then have "zerr = Z_STREAM_END" "?out = []" using step' False r by (cases zerr; auto)+
        then show ?thesis using step' nok False r by (intro exI[of _ "[]"]) auto
      qed
    qed
  qed
qed

lemma process_exact:
  assumes "mzProcessZipEntryContents zl fb off e pf s = Inr (True, s')" and "uncompLen e \<noteq> - 1"
  obtains ds where "recorded s' = recorded s @ ds"
    "compression e = STORED \<and> length ds = unat (of_int (compLen e) :: u32)
       \<and> ds = take (length ds) (drop (if 0 \<le> offset e then nat (offset e) else off) fb)
     \<or> compression e = DEFLATED \<and> int (length ds) = uncompLen e"
proof -
  let ?pos = "if 0 \<le> offset e then nat (offset e) else off"
  consider "compression e = STORED" "processStoredEntry fb ?pos e pf s = (True, s')"
    | "compression e = DEFLATED" "processDeflatedEntry zl fb ?pos e pf s = Inr (True, s')"
    using assms(1) by (auto simp: mzProcessZipEntryContents_def Let_def split: if_splits)
  then show thesis
  proof cases
    case 1
    from stored_exact[OF 1(2)[unfolded processStoredEntry_def]] 1(1) show thesis
      by (intro that[of "take (unat (of_int (compLen e) :: u32)) (drop ?pos fb)"]) auto
  next
    case 2
    then obtain zs where "deflate_loop zl fb pf zs ?pos (compLen e) [] [] 0 s = Some (Inr (uncompLen e, s'))"
      using assms(2) by (auto simp: processDeflatedEntry_def split: option.splits)
    then obtain ds where "recorded s' = recorded s @ ds" "uncompLen e = int (length ds)"
      using deflate_exact_aux assms(2) by fastforce
    then show thesis using that[of ds] 2(1) by simp
  qed
qed

end

text \<open>A sink that never refuses a chunk.\<close>

locale total_sink = faithful_sink pf recorded for pf :: "'s process" and recorded :: "'s \<Rightarrow> bytes" +
  assumes pf_takes: "fst (pf d s)"
begin

lemma stored_total:
  assumes "pos + n \<le> length fb"
  shows "fst (stored_loop fb pos n pf s)"
  using assms
proof (induction n arbitrary: pos s rule: less_induct)
  case (less n)
  have "fst (stored_loop fb (pos + BUF_SIZE) (n - BUF_SIZE) pf s1)" if "n > BUF_SIZE" for s1
    using less.IH[of "n - BUF_SIZE" "pos + BUF_SIZE"] less.prems that by (simp add: BUF_SIZE_def)
  moreover have "fst (stored_loop fb p 0 pf s1)" for p s1 by (subst stored_loop.simps) simp
  ultimately show ?case
    using less.prems pf_takes[of "take n (drop pos fb)" s] pf_takes[of "take BUF_SIZE (drop pos fb)" s]
    by (subst stored_loop.simps) (auto simp: Let_def split: prod.splits)
qed

end

interpretation bufsink: total_sink bufferProcessFunction fst
  by unfold_locales (auto simp: bufferProcessFunction_def)

interpretation copysink: faithful_sink copyProcessFunction fst
  by unfold_locales (auto simp: copyProcessFunction_def split: prod.splits if_splits)

lemma write_loop_exact:
  "write_loop d out ws = (True, out', ws') \<Longrightarrow> out' = out @ d"
  by (induction d out ws rule: write_loop.induct) (auto split: if_splits)

interpretation filesink: faithful_sink writeProcessFunction fst
  by unfold_locales (auto simp: writeProcessFunction_def dest: write_loop_exact)

text \<open>What every call of the process function keeps, the streaming keeps.\<close>

lemma stored_invariant:
  assumes pf: "\<And>d s. Q s \<Longrightarrow> Q (snd (pf d s))" and "Q s"
  shows "Q (snd (stored_loop fb pos n pf s))"
  using assms(2)
proof (induction n arbitrary: pos s rule: less_induct)
  case (less n)
  show ?case
  proof (cases "n = 0")
    case True
    then show ?thesis using less.prems stored_loop.simps[of fb pos n pf s] by simp
  next
    case False
    define c where "c = (if n > BUF_SIZE then BUF_SIZE else n)"
    have "n - c < n" using False by (auto simp: c_def BUF_SIZE_def)
    then have "Q (snd (stored_loop fb (pos + c) (n - c) pf (snd (pf (take c (drop pos fb)) s))))"
      using less.IH pf[OF less.prems] by blast
    then show ?thesis
      using less.prems pf[OF less.prems, of "take c (drop pos fb)"] False stored_loop.simps[of fb pos n pf s]
      by (auto simp: c_def [symmetric] Let_def split: prod.splits)
  qed
qed

lemma deflate_invariant:
  assumes "deflate_loop zl fb pf' zs pos rem inb procBuf tot s = Some y"
    and "\<And>d s. Q s \<Longrightarrow> Q (snd (pf' d s))" and "Q s"
  shows "\<forall>r s'. y = Inr (r, s') \<longrightarrow> Q s'"
  using assms
proof (induction zl fb pf' zs pos rem inb procBuf tot s y
    rule: deflate_loop.raw_induct[rotated 1, consumes 1, case_names step])
  case (step loop zl fb pf zs pos rem inb procBuf tot s y)
  show ?case
  proof (cases "refill fb pos rem inb")
    case (Inl f)
    then show ?thesis using step(2) by auto
  next
    case (Inr opt)
    show ?thesis
    proof (cases opt)
      case None
      then show ?thesis using step(2,4) Inr by auto
    next
      case (Some st)
      obtain pos' rem' inb' where st: "st = (pos', rem', inb')" by (cases st)
      obtain zerr used prod zs' where zi: "inflate zl zs inb' (BUF_SIZE - length procBuf) = (zerr, used, prod, zs')"
        by (metis prod_cases4)
      obtain ret s1 where pf: "pf (procBuf @ prod) s = (ret, s1)" by (cases "pf (procBuf @ prod) s")
      then have Q1: "Q s1" using step(3)[OF step(4), of "procBuf @ prod"] by simp
      show ?thesis
        using step(2) step(1)[OF _ step(3) Q1] step(1)[OF _ step(3) step(4)] Q1 step(4)
        by (auto simp: Inr Some st zi pf split: if_splits)
    qed
  qed
qed

lemma process_invariant:
  assumes "mzProcessZipEntryContents zl fb off e pf s = Inr (b, s')"
    and pf: "\<And>d s. Q s \<Longrightarrow> Q (snd (pf d s))" and "Q s"
  shows "Q s'"
proof -
  let ?pos = "if 0 \<le> offset e then nat (offset e) else off"
  have "Q s'" if d: "processDeflatedEntry zl fb ?pos e pf s = Inr (b, s')"
  proof (cases "inflateInit2 zl")
    case None
    then show ?thesis using d assms(3) by (auto simp: processDeflatedEntry_def)
  next
    case (Some zs)
    then obtain r where "deflate_loop zl fb pf zs ?pos (compLen e) [] [] 0 s = Some (Inr (r, s'))"
      using d by (auto simp: processDeflatedEntry_def)
    from deflate_invariant[where Q = Q, OF this pf assms(3)] show ?thesis by blast
  qed
  moreover have "Q s'" if "processStoredEntry fb ?pos e pf s = (b, s')"
    using that stored_invariant[where Q = Q and pf = pf and fb = fb and pos = ?pos
        and n = "unat (of_int (compLen e) :: u32)", OF pf assms(3)]
    by (simp add: processStoredEntry_def)
  ultimately show ?thesis
    using assms(1,3) by (auto simp: mzProcessZipEntryContents_def Let_def split: if_splits)
qed

text \<open>The buffer extraction that succeeds has written exactly \<open>uncompLen\<close> bytes.\<close>

lemma buffer_exact:
  assumes "mzExtractZipEntryToBuffer zl fb off e = Inr (True, buf)"
  shows "int (length buf) = uncompLen e"
proof -
  obtain len where p: "mzProcessZipEntryContents zl fb off e bufferProcessFunction ([], uncompLen e)
      = Inr (True, (buf, len))" "len = 0"
    using assms by (auto simp: mzExtractZipEntryToBuffer_def)
  have "snd (buf, len) + int (length (fst (buf, len))) = uncompLen e"
    by (rule process_invariant[OF p(1), where Q = "\<lambda>s. snd s + int (length (fst s)) = uncompLen e"])
      (auto simp: bufferProcessFunction_def)
  then show ?thesis using p(2) by simp
qed

text \<open>
  A stored entry whose compressed length exceeds its uncompressed length is
  written past the end of a buffer of \<open>uncompLen\<close> bytes before the mismatch is seen.
\<close>

lemma buffer_overrun:
  assumes "compression e = STORED" "0 \<le> offset e" "0 \<le> uncompLen e" "uncompLen e < compLen e"
    "compLen e < 2 ^ 31" "nat (offset e) + nat (compLen e) \<le> length fb"
  shows "mzExtractZipEntryToBuffer zl fb off e =
    Inr (False, take (nat (compLen e)) (drop (nat (offset e)) fb))"
proof -
  have cl: "unat (of_int (compLen e) :: u32) = nat (compLen e)"
    using assms by (simp add: unat_eq_nat_uint unsigned_of_int take_bit_int_eq_self)
  obtain s' where s': "stored_loop fb (nat (offset e)) (nat (compLen e)) bufferProcessFunction ([], uncompLen e) = (True, s')"
    using bufsink.stored_total[OF assms(6)] by (metis prod.collapse)
  have buf: "fst s' = take (nat (compLen e)) (drop (nat (offset e)) fb)"
    using bufsink.stored_exact[OF s'] by simp
  moreover have "snd s' + int (length (fst s')) = uncompLen e"
    using stored_invariant[where Q = "\<lambda>s. snd s + int (length (fst s)) = uncompLen e",
        of bufferProcessFunction "([], uncompLen e)" fb "nat (offset e)" "nat (compLen e)"] s'
    by (simp add: bufferProcessFunction_def)
  ultimately have "snd s' = uncompLen e - compLen e" using assms by simp
  then show ?thesis
    using s' buf assms cl
    by (cases s') (simp add: mzExtractZipEntryToBuffer_def mzProcessZipEntryContents_def processStoredEntry_def)
qed

section \<open>Extraction\<close>

lemma strncmp_zero:
  assumes "0 \<notin> set z" "length z \<le> length a"
  shows "strncmp a z (length z) = 0 \<longleftrightarrow> take (length z) a = z"
  using assms
proof (induction z arbitrary: a)
  case (Cons c z)
  then obtain x a' where a: "a = x # a'" by (cases a) auto
  show ?case using Cons unfolding a by (auto simp: word_uint_eq_iff)
qed simp

lemma under_iff:
  assumes "0 \<notin> set zpath"
  shows "length (fileName e) < length zpath \<or> strncmp (fileName e) zpath (length zpath) \<noteq> 0
    \<longleftrightarrow> \<not> under zpath e"
proof (cases "length (fileName e) < length zpath")
  case True
  then have "length (take (length zpath) (fileName e)) < length zpath" by simp
  then show ?thesis using True by (metis less_irrefl under_def)
next
  case False
  then show ?thesis using strncmp_zero[OF assms, of "fileName e"] by (simp add: under_def)
qed

lemma under_between:
  assumes "take (length z) a = z" "take (length z) c = z" "a \<le> b" "b \<le> (c :: bytes)"
  shows "take (length z) b = z"
  using assms
proof (induction z arbitrary: a b c)
  case (Cons x z)
  obtain a' where a: "a = x # a'" "take (length z) a' = z" using Cons.prems(1) by (cases a) auto
  obtain c' where c: "c = x # c'" "take (length z) c' = z" using Cons.prems(2) by (cases c) auto
  obtain y b' where b: "b = y # b'" using Cons.prems(3) a by (cases b) auto
  have "y = x" "a' \<le> b'" "b' \<le> c'" using Cons.prems(3,4) a b c by auto
  then show ?case using Cons.IH[OF a(2) c(2)] b by simp
qed simp

lemma extract_loop_seen:
  assumes "sorted_names (x # es)" "under zpath x" "0 \<notin> set zpath"
  shows "extract_loop zl fb oldOff fs opts zpath es h True =
    extract_each zl fb oldOff fs opts (filter (under zpath) es) h"
  using assms(1,2)
proof (induction es arbitrary: x h)
  case (Cons e es)
  show ?case
  proof (cases "under zpath e")
    case True
    have s: "sorted_names (e # es)" using Cons.prems(1) by (simp add: sorted_names_def)
    have "\<not> (length (fileName e) < length zpath \<or> strncmp (fileName e) zpath (length zpath) \<noteq> 0)"
      using under_iff[OF assms(3)] True by blast
    then show ?thesis using Cons.IH[OF s True] True by (simp cong: option.case_cong step.case_cong)
  next
    case False
    have "\<not> under zpath c" if "c \<in> set es" for c
    proof
      assume "under zpath c"
      then have "under zpath e"
        using under_between[of zpath "fileName x" "fileName c" "fileName e"] Cons.prems that
        by (auto simp: under_def sorted_names_def)
      then show False using False by simp
    qed
    then have "filter (under zpath) (e # es) = []" using False by (simp add: filter_empty_conv)
    then show ?thesis using under_iff[OF assms(3), of e] False by simp
  qed
qed simp

text \<open>
  The early exit of the loop is sound: on a sorted archive exactly the entries
  below the requested directory are extracted, in archive order.
\<close>

lemma extract_loop_filter:
  assumes "sorted_names es" "0 \<notin> set zpath"
  shows "extract_loop zl fb oldOff fs opts zpath es h False =
    extract_each zl fb oldOff fs opts (filter (under zpath) es) h"
  using assms(1)
proof (induction es)
  case (Cons e es)
  show ?case
  proof (cases "under zpath e")
    case True
    have "\<not> (length (fileName e) < length zpath \<or> strncmp (fileName e) zpath (length zpath) \<noteq> 0)"
      using under_iff[OF assms(2)] True by blast
    then show ?thesis using True
      by (simp add: extract_loop_seen[OF Cons.prems True assms(2)])
  next
    case False
    then show ?thesis using under_iff[OF assms(2), of e] Cons by (simp add: sorted_names_def)
  qed
qed simp

lemma targetEntryPath_spec:
  assumes "helper_ok h" "targetDir h \<noteq> []" "zipDirLen h \<le> length name"
    and "\<And>n. fs_alloc fs n"
  shows "\<exists>h'. targetEntryPath fs h name =
      Inr (Some (zip_path (targetDir h) @ drop (zipDirLen h) name, h'))
    \<and> helper_ok h' \<and> targetDir h' = targetDir h \<and> zipDirLen h' = zipDirLen h"
proof (cases "int (targetDirLen h) + 1 + int (length name) - int (zipDirLen h) + 1 > bufLen h")
  case grow: True
  show ?thesis
  proof (cases "hbuf h")
    case None
    then show ?thesis using assms grow
      by (cases "last (targetDir h) = SLASH")
        (simp_all add: targetEntryPath_def helper_ok_def zip_path_def Let_def)
  next
    case (Some b)
    then show ?thesis using assms grow by (simp add: targetEntryPath_def helper_ok_def Let_def)
  qed
next
  case fits: False
  show ?thesis
  proof (cases "hbuf h")
    case None
    then show ?thesis using assms fits
      by (cases "last (targetDir h) = SLASH")
        (simp_all add: targetEntryPath_def helper_ok_def zip_path_def Let_def)
  next
    case (Some b)
    then show ?thesis using assms fits by (simp add: targetEntryPath_def helper_ok_def Let_def)
  qed
qed

lemma extract_each_dry_run:
  assumes "helper_ok h" "targetDir h \<noteq> []" "\<And>n. fs_alloc fs n" "dry_run opts" "callback opts"
    and "\<forall>e \<in> set es. zipDirLen h \<le> length (fileName e)"
  shows "extract_each zl fb oldOff fs opts es h =
    Inr (True, map (\<lambda>e. Called (zip_path (targetDir h) @ drop (zipDirLen h) (fileName e))) es)"
  using assms(1,2,6)
proof (induction es arbitrary: h)
  case (Cons e es)
  obtain h' where h': "targetEntryPath fs h (fileName e) =
      Inr (Some (zip_path (targetDir h) @ drop (zipDirLen h) (fileName e), h'))"
    "helper_ok h'" "targetDir h' = targetDir h" "zipDirLen h' = zipDirLen h"
    using targetEntryPath_spec[OF Cons.prems(1,2) _ assms(3)] Cons.prems(3) by auto
  then show ?case
    using Cons.IH[of h'] Cons.prems assms(4,5) by (simp add: extract_entry_def notify_def)
qed simp

section \<open>A sample archive\<close>

text \<open>
  A library that adds as documented, and an archive that holds the stored file
  \<open>a\<close> with the two bytes \<open>hi\<close>.
\<close>

definition sample_env :: zenv where
  "sample_env = \<lparr>zmem = (\<lambda>_. True),
     safe_add_u = (\<lambda>a b. if unat a + unat b < 2 ^ 32 then Some (a + b) else None),
     safe_add_l = (\<lambda>a b. - (2 ^ 31) \<le> a + b \<and> a + b < 2 ^ 31)\<rparr>"

definition sample_zip :: bytes where
  "sample_zip = [80, 75, 3, 4, 10, 0, 0, 0, 0, 0, 0, 0, 0, 0, 0, 0, 0, 0, 2, 0, 0, 0, 2, 0, 0, 0, 1, 0, 0, 0, 97, 104, 105, 80, 75, 1, 2, 10, 0, 10, 0, 0, 0, 0, 0, 0, 0, 0, 0, 0, 0, 0, 0, 2, 0, 0, 0, 2, 0, 0, 0, 1, 0, 0, 0, 0, 0, 0, 0, 0, 0, 0, 0, 0, 0, 0, 0, 0, 0, 97, 80, 75, 5, 6, 0, 0, 0, 0, 1, 0, 1, 0, 47, 0, 0, 0, 33, 0, 0, 0, 0, 0]"

definition sample_entry :: ZipEntry where
  "sample_entry = \<lparr>fileName = [97], offset = 31, compLen = 2, uncompLen = 2, compression = 0,
     modTime = 0, crc32v = 0, versionMadeBy = 10, externalFileAttributes = 0\<rparr>"

lemma sample_len: "length sample_zip = 102" by (simp add: sample_zip_def)

lemma sample_read:
  "get4LE sample_zip 0 = Inr LOCSIG" "get4LE sample_zip 33 = Inr CENSIG"
  "get2LE sample_zip 61 = Inr 1" "get2LE sample_zip 63 = Inr 0" "get2LE sample_zip 65 = Inr 0"
  "get4LE sample_zip 75 = Inr 0" "get4LE sample_zip 53 = Inr 2" "get4LE sample_zip 57 = Inr 2"
  "get2LE sample_zip 43 = Inr 0" "get4LE sample_zip 45 = Inr 0" "get4LE sample_zip 49 = Inr 0"
  "get2LE sample_zip 37 = Inr 10" "get4LE sample_zip 71 = Inr 0"
  "get2LE sample_zip 26 = Inr 1" "get2LE sample_zip 28 = Inr 0"
  "get2LE sample_zip 88 = Inr 1" "get4LE sample_zip 96 = Inr 33"
  unfolding get2LE_def get4LE_def sample_len LOCSIG_def CENSIG_def by (simp_all add: sample_zip_def)

lemma sample_eocd: "find_eocd sample_zip 80 = Some 80"
proof -
  have "get4LE sample_zip 80 = Inr ENDSIG" "sample_zip ! 80 = 80"
    unfolding get4LE_def sample_len ENDSIG_def by (simp_all add: sample_zip_def)
  then show ?thesis by (subst find_eocd.simps) simp
qed

lemma sample_parse_entry:
  "parse_entry sample_env 0x1000 sample_zip 33 = Inr (Some (sample_entry, 80))"
  by (simp add: parse_entry_def sample_len CENHDR_def sample_read read_header_def Let_def
     finish_entry_def check_local_header_def sample_env_def entry_offset_def data_fits_def
     bad_version_def LOCHDR_def sample_entry_def validFilename_def PATH_MAX_def)
   (simp add: sample_zip_def)

lemma sample_create:
  "mzHashTableCreate (zmem sample_env) (mzHashSize 1) False =
     Inr (Some (\<lparr>tableSize = 2, numEntries = 0, numDeadEntries = 0,
      pEntries = replicate 2 empty_entry, freeFunc = False\<rparr> :: zptr HashTable))"
  by (simp add: mzHashTableCreate_def mzHashSize_def LOAD_NUMER_def LOAD_DENOM_def roundUpPower2_def calloc_entries_def sample_env_def)

lemma sample_hash: "computeHash [97] = 159"
  by (simp add: computeHash_def)

lemma sample_add: "foldR (addEntryToHashTable (zmem sample_env) [sample_entry]) [0 ..< Suc 0]
    \<lparr>tableSize = 2, numEntries = 0, numDeadEntries = 0, pEntries = replicate 2 empty_entry, freeFunc = False\<rparr>
   = Inr \<lparr>tableSize = 2, numEntries = 1, numDeadEntries = 0,
      pEntries = [\<lparr>hashValue = 0, edata = HNull\<rparr>, \<lparr>hashValue = 159, edata = HData (PEntry 0)\<rparr>], freeFunc = False\<rparr>"
  by (simp add: addEntryToHashTable_def mzHashTableLookup_def sample_entry_def sample_hash probe_loop_def probe_start_def
    seek_stop empty_entry_def add_entry_def LOAD_DENOM_def LOAD_NUMER_def Let_def numeral_2_eq_2)

lemma sample_parse:
  "parseZipArchive sample_env 0x1000 sample_zip = Inr (Some \<lparr>numEntries = 1, pEntries = [sample_entry],
     pHash = \<lparr>tableSize = 2, numEntries = 1, numDeadEntries = 0,
      pEntries = [\<lparr>hashValue = 0, edata = HNull\<rparr>, \<lparr>hashValue = 159, edata = HData (PEntry 0)\<rparr>], freeFunc = False\<rparr>\<rparr>)"
proof -
  have "zmem sample_env n" for n by (simp add: sample_env_def)
  moreover have "LOCSIG \<noteq> ENDSIG" by (simp add: LOCSIG_def ENDSIG_def)
  ultimately show ?thesis
    using sample_create sample_add
    by (simp add: parseZipArchive_def sample_read sample_len ENDHDR_def sample_eocd
        sample_parse_entry insert_entry_def insert_target_def)
qed

lemma sample_safe: "safe_iop sample_env"
  by (simp add: safe_iop_def sample_env_def)

lemma sample_no_wrap: "no_wrap 0x1000 sample_zip"
proof -
  have small: "b < 106" if "b \<in> set sample_zip" for b using that by (auto simp: sample_zip_def)
  have "unat v < 106 * 2 ^ 24" if "get4LE sample_zip p = Inr v" for p v
  proof -
    have p: "p + 4 \<le> length sample_zip" using get4LE_unat[OF that] by simp
    have "unat (sample_zip ! i) < 106" if "i < length sample_zip" for i
      using small[OF nth_mem[OF that]] by (simp add: word_less_nat_alt)
    then have "unat (sample_zip ! p) < 106" "unat (sample_zip ! (p + 1)) < 106"
      "unat (sample_zip ! (p + 2)) < 106" "unat (sample_zip ! (p + 3)) < 106" using p by auto
    then show ?thesis using get4LE_unat[OF that] by simp
  qed
  then show ?thesis by (fastforce simp: no_wrap_def sample_len LOCHDR_def)
qed

definition sample_archive :: ZipArchive where
  "sample_archive = \<lparr>numEntries = 1, pEntries = [sample_entry],
     pHash = \<lparr>tableSize = 2, numEntries = 1, numDeadEntries = 0,
       pEntries = [\<lparr>hashValue = 0, edata = HNull\<rparr>, \<lparr>hashValue = 159, edata = HData (PEntry 0)\<rparr>],
       freeFunc = False\<rparr>\<rparr>"

text \<open>A decompressor that refuses, and a file system on which everything succeeds.\<close>

definition no_zlib :: "unit zlib" where
  "no_zlib = \<lparr>inflateInit2 = None, inflate = (\<lambda>z i n. (Z_ERROR, 0, [], z))\<rparr>"

definition good_fs :: fsenv where
  "good_fs = \<lparr>fs_mkdirs = (\<lambda>_ _. True), fs_creat = (\<lambda>_. True), fs_symlink = (\<lambda>_ _. True),
     fs_utime = (\<lambda>_. True), fs_alloc = (\<lambda>_. True), fs_writes = (\<lambda>_. [])\<rparr>"

section \<open>Properties\<close>



text \<open>
  C16: In a parsed archive a name is found exactly if an entry has it, and the entry
  found is the first one of the sorted array with that name.
\<close>

theorem mzFindZipEntry_correct:
  assumes "parseZipArchive env addr m = Inr (Some za)"
  shows "mzFindZipEntry env za name =
    Inr (List.find (\<lambda>i. fileName (pEntries za ! i) = name) [0 ..< numEntries za])"
  using mzFindZipEntry_ok[OF parseZipArchive_ok[OF assms]] .

theorem mzFindZipEntry_correct_witness:
  "mzFindZipEntry sample_env sample_archive [97] = Inr (Some 0)
   \<and> mzFindZipEntry sample_env sample_archive [98] = Inr None"
  using mzFindZipEntry_correct[OF sample_parse[folded sample_archive_def]]
  by (simp add: sample_archive_def sample_entry_def)



text \<open>
  C15: The loop of \<open>mzExtractRecursive\<close>, which stops at the first mismatch after a
  match, does on a parsed archive what extracting every entry below the directory
  does: no entry is missed.
\<close>

theorem mzExtractRecursive_complete:
  assumes "parseZipArchive env addr m = Inr (Some za)"
    and "zipDir = [] \<or> hd zipDir \<noteq> SLASH" "target \<noteq> []" "hd target = SLASH" "0 \<notin> set zipDir"
    and "fs_alloc fs (int (length zipDir) + 2)"
  shows "mzExtractRecursive zl m oldOff fs opts za zipDir target =
    extract_each zl m oldOff fs opts (filter (under (zip_path zipDir)) (pEntries za))
      \<lparr>targetDir = target, targetDirLen = length target, zipDirLen = length (zip_path zipDir),
       hbuf = None, bufLen = 0\<rparr>"
proof -
  have "sorted_names (pEntries za)" using parseZipArchive_ok[OF assms(1)] by (simp add: zip_ok_def)
  moreover have "0 \<notin> set (zip_path zipDir)" using assms(5) by (auto simp: zip_path_def SLASH_def)
  ultimately show ?thesis
    using extract_loop_filter[of "pEntries za" "zip_path zipDir"] assms(2-4,6)
    by (auto simp: mzExtractRecursive_def)
qed

theorem mzExtractRecursive_complete_witness:
  "mzExtractRecursive no_zlib sample_zip 0 good_fs
     \<lparr>files_only = True, dry_run = True, timestamp = False, callback = True\<rparr>
     sample_archive [] [47, 116]
   = Inr (True, [Called [47, 116, 47, 97]])"
  using mzExtractRecursive_complete[OF sample_parse, of "[]" "[47, 116]" good_fs no_zlib 0
      "\<lparr>files_only = True, dry_run = True, timestamp = False, callback = True\<rparr>"]
  by (simp add: SLASH_def good_fs_def under_def sample_entry_def zip_path_def targetEntryPath_def
      extract_entry_def notify_def sample_archive_def Let_def)

text \<open>
  C20: A dry run reports, for every entry below the directory and in archive order, the
  target directory followed by the part of the name after the directory: the example
  of the header comment (\<open>a/b/c/one\<close> becomes \<open>/tmp/one\<close>) for all archives. The
  path buffer never overflows.
\<close>

theorem mzExtractRecursive_paths:
  assumes "parseZipArchive env addr m = Inr (Some za)"
    and "zipDir = [] \<or> hd zipDir \<noteq> SLASH" "target \<noteq> []" "hd target = SLASH" "0 \<notin> set zipDir"
    and "\<forall>n. fs_alloc fs n" "dry_run opts" "callback opts"
  shows "mzExtractRecursive zl m oldOff fs opts za zipDir target =
    Inr (True, map (\<lambda>e. Called (zip_path target @ drop (length (zip_path zipDir)) (fileName e)))
                 (filter (under (zip_path zipDir)) (pEntries za)))"
proof -
  have "sorted_names (pEntries za)" using parseZipArchive_ok[OF assms(1)] by (simp add: zip_ok_def)
  moreover have "0 \<notin> set (zip_path zipDir)" using assms(5) by (auto simp: zip_path_def SLASH_def)
  ultimately have run: "mzExtractRecursive zl m oldOff fs opts za zipDir target =
    extract_each zl m oldOff fs opts (filter (under (zip_path zipDir)) (pEntries za))
      \<lparr>targetDir = target, targetDirLen = length target, zipDirLen = length (zip_path zipDir),
       hbuf = None, bufLen = 0\<rparr>"
    using extract_loop_filter[of "pEntries za" "zip_path zipDir"] assms(2-4,6)
    by (auto simp: mzExtractRecursive_def)
  have len: "length z \<le> length (fileName e)" if "under z e" for z e
    using arg_cong[OF that[unfolded under_def], of length] by simp
  show ?thesis
    unfolding run using assms(3,6-8) len by (subst extract_each_dry_run) (auto simp: helper_ok_def)
qed

theorem mzExtractRecursive_paths_witness:
  "mzExtractRecursive no_zlib sample_zip 0 good_fs
     \<lparr>files_only = True, dry_run = True, timestamp = False, callback = True\<rparr>
     sample_archive [] [47, 116]
   = Inr (True, [Called [47, 116, 47, 97]])"
  using mzExtractRecursive_paths[OF sample_parse, of "[]" "[47, 116]" good_fs
      "\<lparr>files_only = True, dry_run = True, timestamp = False, callback = True\<rparr>" no_zlib 0]
  by (simp add: SLASH_def good_fs_def under_def sample_entry_def zip_path_def sample_archive_def)



text \<open>
  C26: An extraction to memory that reports success has written exactly \<open>uncompLen\<close>
  bytes, the size of the buffer its callers allocate.
\<close>

theorem mzExtractZipEntryToBuffer_exact:
  assumes "mzExtractZipEntryToBuffer zl m oldOff e = Inr (True, buf)"
  shows "int (length buf) = uncompLen e"
  using buffer_exact[OF assms] .

theorem mzExtractZipEntryToBuffer_exact_witness:
  "mzExtractZipEntryToBuffer no_zlib sample_zip 0 sample_entry = Inr (True, [104, 105])
   \<and> int (length [104 :: u8, 105]) = uncompLen sample_entry"
proof -
  have run: "mzExtractZipEntryToBuffer no_zlib sample_zip 0 sample_entry = Inr (True, [104, 105])"
    unfolding mzExtractZipEntryToBuffer_def mzProcessZipEntryContents_def processStoredEntry_def
    by (subst stored_loop.simps)
      (simp add: sample_entry_def STORED_def BUF_SIZE_def bufferProcessFunction_def sample_zip_def stored_loop.simps[where bytesLeft = 0])
  then show ?thesis using mzExtractZipEntryToBuffer_exact[OF run] by simp
qed



end
