(* ===== verification/Mtd.thy ===== *)
theory Mtd
  imports Prelude
begin

text \<open>
  Raw flash partitions: \<open>mtdutils/mtdutils.c\<close>. The partition table read from
  \<open>/proc/mtd\<close>, and the block-wise reading and writing of a partition that skips bad
  erase blocks. The device behind a file descriptor is an explicit state with a
  schedule of system call failures; sizes that C compares as signed 32-bit values
  are wrapped with \<open>s32\<close>. A C string is the list of its characters.
\<close>

unbundle bit_operations_syntax

section \<open>The partition table\<close>

record MtdPartition =
  device_index :: int
  psize :: int
  erase_size :: int
  pname :: "string option"

record MtdState =
  partitions :: "MtdPartition list option"
  partition_count :: int

definition g_mtd_state :: MtdState where
  "g_mtd_state = \<lparr> partitions = None, partition_count = - 1 \<rparr>"

text \<open>
  The conversions of \<open>sscanf(bufp, "mtd%d: %x %x \"%63[^\"]", ...)\<close>: each gives the
  value and the rest of the input, or \<open>None\<close> when the input does not match.
\<close>

fun scan_lit :: "string \<Rightarrow> string \<Rightarrow> string option" where
  "scan_lit [] s = Some s"
| "scan_lit (c # cs) s =
     (if is_space c then scan_lit cs (dropWhile is_space s)
      else case s of [] \<Rightarrow> None | x # xs \<Rightarrow> if x = c then scan_lit cs xs else None)"

definition scan_int :: "int \<Rightarrow> string \<Rightarrow> (int \<times> string) option" where
  "scan_int radix s =
     (case scan_sign (dropWhile is_space s) of (neg, s) \<Rightarrow>
        let s = skip_0x radix s; ds = takeWhile (is_digit radix) s in
        if ds = [] then None
        else Some (s32 (if neg then - digits_val radix ds else digits_val radix ds),
                   dropWhile (is_digit radix) s))"

definition scan_name :: "string \<Rightarrow> (string \<times> string) option" where
  "scan_name s =
     (let w = take 63 (takeWhile (\<lambda>c. c \<noteq> CHR 0x22) s) in
      if w = [] then None else Some (w, drop (length w) s))"

definition sscanf_mtd :: "string \<Rightarrow> (int \<times> int \<times> int \<times> string) option" where
  "sscanf_mtd s =
     Option.bind (scan_lit ''mtd'' s) (\<lambda>s.
     Option.bind (scan_int 10 s) (\<lambda>(mtdnum, s).
     Option.bind (scan_lit '': '' s) (\<lambda>s.
     Option.bind (scan_int 16 s) (\<lambda>(mtdsize, s).
     Option.bind (scan_lit '' '' s) (\<lambda>s.
     Option.bind (scan_int 16 s) (\<lambda>(mtderasesize, s).
     Option.bind (scan_lit ('' '' @ [CHR 0x22]) s) (\<lambda>s.
     Option.bind (scan_name s) (\<lambda>(mtdname, s).
     Some (mtdnum, mtdsize, mtderasesize, mtdname)))))))))"

text \<open>Eating a line, and the parse loop. The text is what \<open>read\<close> delivered, at most 2047 bytes.\<close>

definition eat_line :: "string \<Rightarrow> string" where
  "eat_line s = tl (dropWhile (\<lambda>c. c \<noteq> CHR 0x0A) s)"

definition add_partition :: "int \<times> int \<times> int \<times> string \<Rightarrow> MtdPartition list \<Rightarrow> MtdPartition list res" where
  "add_partition m ps =
     (case m of (mtdnum, mtdsize, mtderasesize, mtdname) \<Rightarrow>
        bindR (rd ps mtdnum) (\<lambda>_.
        Inr (ps[nat mtdnum := \<lparr> device_index = mtdnum, psize = mtdsize mod 2 ^ 32,
               erase_size = mtderasesize mod 2 ^ 32, pname = Some mtdname \<rparr>])))"

function parse_mtd :: "string \<Rightarrow> MtdPartition list \<Rightarrow> int \<Rightarrow> (MtdPartition list \<times> int) res" where
  "parse_mtd s ps n =
     (if s = [] then Inr (ps, n)
      else case sscanf_mtd s of
             None \<Rightarrow> parse_mtd (eat_line s) ps n
           | Some m \<Rightarrow> bindR (add_partition m ps) (\<lambda>ps. parse_mtd (eat_line s) ps (n + 1)))"
  by pat_completeness auto
termination
proof (relation "measure (\<lambda>(s, _, _). length s)")
  have "length (eat_line s) < length s" if "s \<noteq> []" for s
    using that length_dropWhile_le[of "\<lambda>c. c \<noteq> CHR 0x0A" s]
    unfolding eat_line_def length_tl by (cases s) (auto simp: less_Suc_eq_le)
  then show "s \<noteq> [] \<Longrightarrow> ((eat_line s, a), s, b) \<in> measure (\<lambda>(s, _, _). length s)"
    for s and a b :: "MtdPartition list \<times> int" by (cases a, cases b) simp
  then show "s \<noteq> [] \<Longrightarrow> ((eat_line s, a), s, b) \<in> measure (\<lambda>(s, _, _). length s)"
    for s and a b :: "MtdPartition list \<times> int" .
qed auto

declare parse_mtd.simps [simp del]

text \<open>
  \<open>mtd_scan_partitions\<close>: the first argument says whether \<open>malloc\<close> succeeds, the
  second is the text of \<open>/proc/mtd\<close>, if it can be opened and read. The return value
  and the new global state.
\<close>

definition mtd_scan_partitions :: "bool \<Rightarrow> string option \<Rightarrow> MtdState \<Rightarrow> (int \<times> MtdState) res" where
  "mtd_scan_partitions mem_ok proc g =
     (let fresh_tab = replicate 32 \<lparr> device_index = 0, psize = 0, erase_size = 0, pname = None \<rparr> in
      if partitions g = None \<and> \<not> mem_ok then Inr (- 1, g)
      else let ps = map (\<lambda>p. p\<lparr> device_index := - 1, pname := None \<rparr>)
                      (case partitions g of None \<Rightarrow> fresh_tab | Some ps \<Rightarrow> ps) in
        case proc of
          None \<Rightarrow> Inr (- 1, \<lparr> partitions = Some ps, partition_count = - 1 \<rparr>)
        | Some txt \<Rightarrow>
            bindR (parse_mtd (take 2047 txt) ps 0) (\<lambda>(ps, n).
            Inr (n, \<lparr> partitions = Some ps, partition_count = n \<rparr>)))"

definition mtd_find_partition_by_name :: "MtdState \<Rightarrow> string \<Rightarrow> MtdPartition option" where
  "mtd_find_partition_by_name g name =
     (case partitions g of
        None \<Rightarrow> None
      | Some ps \<Rightarrow> List.find (\<lambda>p. device_index p \<ge> 0 \<and> pname p = Some name) ps)"

text \<open>
  \<open>mtd_mount_partition\<close> with the outcome of \<open>mount\<close> (by its read-only flag), of \<open>stat\<close>
  on the mount point and of \<open>chmod\<close>: the return value, and whether the file system is
  mounted and if so read-only.
\<close>

record mount_os =
  mount_ok :: "bool \<Rightarrow> bool"
  root_mode :: "u32 option"
  chmod_ok :: bool

definition mtd_mount_partition :: "mount_os \<Rightarrow> bool \<Rightarrow> int \<times> bool option" where
  "mtd_mount_partition os read_only =
     (let rw = (\<not> read_only \<and> mount_ok os False);
          ro = (\<not> rw \<and> mount_ok os True) in
      if \<not> rw \<and> \<not> ro then (- 1, None)
      else case root_mode os of
             None \<Rightarrow> (- 1, Some ro)
           | Some mode \<Rightarrow>
               let new_mode = mode OR 0x40 OR 0x08 OR 0x01 in
               if new_mode \<noteq> mode \<and> \<not> chmod_ok os then (- 1, Some ro) else (0, Some ro))"

text \<open>
  \<open>mtd_partition_info\<close>, with whether the device opens and what \<open>MEMGETINFO\<close> answers; a result that the caller does not
  want is a null pointer.
\<close>

record mtd_info_user =
  mi_size :: u32
  mi_erasesize :: u32
  mi_writesize :: u32

definition mtd_partition_info ::
  "bool \<Rightarrow> mtd_info_user option \<Rightarrow> u32 option \<times> u32 option \<times> u32 option \<Rightarrow> int \<times> u32 option \<times> u32 option \<times> u32 option" where
  "mtd_partition_info open_ok ioctl out =
     (if \<not> open_ok then (- 1, out)
      else case ioctl of
             None \<Rightarrow> (- 1, out)
           | Some mi \<Rightarrow> (case out of (total_size, erase_sz, write_size) \<Rightarrow>
               (0, map_option (\<lambda>_. mi_size mi) total_size, map_option (\<lambda>_. mi_erasesize mi) erase_sz,
                map_option (\<lambda>_. mi_writesize mi) write_size)))"

section \<open>The flash device\<close>

text \<open>
  The kernel side of an open MTD character device: contents, file offset, and the
  environment that decides which system calls succeed (\<open>sys\<close>, indexed by the number
  of calls so far), what the chip holds after programming, which blocks
  \<open>MEMGETBADBLOCK\<close> reports, whether it fails with \<open>EOPNOTSUPP\<close>, and the count of
  hard ECC errors.
\<close>

record flash =
  cells :: bytes
  fpos :: int
  clk :: nat
  sys :: "nat \<Rightarrow> bool"
  prog :: "nat \<Rightarrow> nat \<Rightarrow> u8 \<Rightarrow> u8"
  badb :: "int \<Rightarrow> int"
  nosupp :: bool
  eccf :: "nat \<Rightarrow> int"

definition tick :: "flash \<Rightarrow> flash" where
  "tick d = d\<lparr> clk := Suc (clk d) \<rparr>"

definition in_dev :: "flash \<Rightarrow> int \<Rightarrow> int \<Rightarrow> bool" where
  "in_dev d p n \<longleftrightarrow> 0 \<le> p \<and> 0 \<le> n \<and> p + n \<le> int (length (cells d))"

definition lseek_set :: "flash \<Rightarrow> int \<Rightarrow> int \<times> flash" where
  "lseek_set d p = (if sys d (clk d) then (p, (tick d)\<lparr> fpos := p \<rparr>) else (- 1, tick d))"

definition lseek_cur :: "flash \<Rightarrow> int \<times> flash" where
  "lseek_cur d = (if sys d (clk d) then fpos d else - 1, tick d)"

definition dev_read :: "flash \<Rightarrow> int \<Rightarrow> bytes option \<times> flash" where
  "dev_read d n =
     (if sys d (clk d) \<and> in_dev d (fpos d) n
      then (Some (take (nat n) (drop (nat (fpos d)) (cells d))), (tick d)\<lparr> fpos := fpos d + n \<rparr>)
      else (None, tick d))"

definition dev_write :: "flash \<Rightarrow> bytes \<Rightarrow> bool \<times> flash" where
  "dev_write d data =
     (if in_dev d (fpos d) (int (length data))
      then let d' = (tick d)\<lparr> cells := store (cells d) (nat (fpos d)) 
                  (map (\<lambda>i. prog d (clk d) i (data ! i)) [0..<length data]) \<rparr> in
           if sys d (clk d) then (True, d'\<lparr> fpos := fpos d + int (length data) \<rparr>) else (False, d')
      else (False, tick d))"

definition MEMERASE :: "flash \<Rightarrow> int \<Rightarrow> int \<Rightarrow> bool \<times> flash" where
  "MEMERASE d start n =
     (if sys d (clk d) \<and> in_dev d start n
      then (True, (tick d)\<lparr> cells := store (cells d) (nat start) (replicate (nat n) 0xFF) \<rparr>)
      else (False, tick d))"

definition ECCGETSTATS :: "flash \<Rightarrow> int option \<times> flash" where
  "ECCGETSTATS d = (if sys d (clk d) then Some (eccf d (clk d)) else None, tick d)"

section \<open>Reading\<close>

partial_function (option) read_block_loop ::
  "int \<Rightarrow> int \<Rightarrow> int \<Rightarrow> int \<Rightarrow> flash \<Rightarrow> (bytes option \<times> flash) option" where
  "read_block_loop es sz pos before d =
     (if pos + s32 es \<le> s32 sz
      then case lseek_set d pos of (p, d) \<Rightarrow>
           if p \<noteq> pos then read_block_loop es sz (pos + es) before d
           else case dev_read d (s32 es) of (r, d) \<Rightarrow>
             (case r of
                None \<Rightarrow> read_block_loop es sz (pos + es) before d
              | Some data \<Rightarrow>
                  (case ECCGETSTATS d of (a, d) \<Rightarrow>
                     (case a of
                        None \<Rightarrow> Some (None, d)
                      | Some after \<Rightarrow>
                          if after \<noteq> before then read_block_loop es sz (pos + es) after d
                          else if badb d pos \<noteq> 0 then read_block_loop es sz (pos + es) before d
                          else Some (Some data, d))))
      else Some (None, d))"

declare read_block_loop.simps [code]

text \<open>\<open>None\<close> is the result \<open>-1\<close>.\<close>

definition read_block :: "MtdPartition \<Rightarrow> flash \<Rightarrow> (bytes option \<times> flash) res" where
  "read_block p d =
     (case ECCGETSTATS d of (b, d) \<Rightarrow>
        case b of
          None \<Rightarrow> Inr (None, d)
        | Some before \<Rightarrow>
            (case lseek_cur d of (pos, d) \<Rightarrow>
               of_loop (read_block_loop (erase_size p) (psize p) pos before d)))"

record MtdReadContext =
  rpart :: MtdPartition
  rbuffer :: bytes
  consumed :: int
  rdev :: flash

text \<open>\<open>mtd_read_partition\<close>, with the results of its two \<open>malloc\<close> calls and of \<open>open\<close>.\<close>

definition mtd_read_partition ::
  "bool \<Rightarrow> bool \<Rightarrow> flash option \<Rightarrow> MtdPartition \<Rightarrow> MtdReadContext option res" where
  "mtd_read_partition ctx_ok buf_ok dev p =
     (if \<not> ctx_ok \<or> \<not> buf_ok then Inr None
      else case dev of
             None \<Rightarrow> Inl UseAfterFree
           | Some d \<Rightarrow> Inr (Some \<lparr> rpart = p, rbuffer = replicate (nat (erase_size p)) 0,
                                   consumed = erase_size p, rdev = d \<rparr>))"

definition mtd_read_skip_to :: "MtdReadContext \<Rightarrow> int \<Rightarrow> MtdReadContext" where
  "mtd_read_skip_to ctx off = ctx\<lparr> rdev := snd (lseek_set (rdev ctx) off) \<rparr>"

text \<open>
  \<open>mtd_read_data\<close>: \<open>acc\<close> is the part of the caller's buffer filled so far. The inner
  loop reads whole blocks directly into it.
\<close>

partial_function (option) read_direct ::
  "int \<Rightarrow> MtdReadContext \<Rightarrow> bytes \<Rightarrow> (bool \<times> MtdReadContext \<times> bytes) res option" where
  "read_direct len ctx acc =
     (if consumed ctx = erase_size (rpart ctx) \<and> len - int (length acc) \<ge> erase_size (rpart ctx)
      then case read_block (rpart ctx) (rdev ctx) of
             Inl e \<Rightarrow> Some (Inl e)
           | Inr (r, d) \<Rightarrow>
               (case r of
                  None \<Rightarrow> Some (Inr (False, ctx\<lparr> rdev := d \<rparr>, acc))
                | Some blk \<Rightarrow> read_direct len (ctx\<lparr> rdev := d \<rparr>) (acc @ blk))
      else Some (Inr (True, ctx, acc)))"

declare read_direct.simps [code]

definition read_copy :: "int \<Rightarrow> MtdReadContext \<Rightarrow> bytes \<Rightarrow> MtdReadContext \<times> bytes" where
  "read_copy len ctx acc =
     (if consumed ctx < erase_size (rpart ctx)
      then let avail = erase_size (rpart ctx) - consumed ctx;
               copy = (if len - int (length acc) < avail then len - int (length acc) else avail) in
           (ctx\<lparr> consumed := consumed ctx + copy \<rparr>,
            acc @ take (nat copy) (drop (nat (consumed ctx)) (rbuffer ctx)))
      else (ctx, acc))"

partial_function (option) read_loop ::
  "int \<Rightarrow> MtdReadContext \<Rightarrow> bytes \<Rightarrow> (bytes option \<times> MtdReadContext) res option" where
  "read_loop len ctx acc =
     (if int (length acc) < s32 len
      then case read_copy len ctx acc of (ctx, acc) \<Rightarrow>
           Option.bind (read_direct len ctx acc) (\<lambda>r. case r of
             Inl e \<Rightarrow> Some (Inl e)
           | Inr (ok, ctx, acc) \<Rightarrow>
               if \<not> ok then Some (Inr (None, ctx))
               else if int (length acc) \<ge> len then Some (Inr (Some acc, ctx))
               else if consumed ctx = erase_size (rpart ctx) \<and> int (length acc) < s32 len
               then (case read_block (rpart ctx) (rdev ctx) of
                       Inl e \<Rightarrow> Some (Inl e)
                     | Inr (b, d) \<Rightarrow>
                         (case b of
                            None \<Rightarrow> Some (Inr (None, ctx\<lparr> rdev := d \<rparr>))
                          | Some blk \<Rightarrow> read_loop len (ctx\<lparr> rbuffer := blk, consumed := 0, rdev := d \<rparr>) acc))
               else read_loop len ctx acc)
      else Some (Inr (Some acc, ctx)))"

declare read_loop.simps [code]

definition mtd_read_data :: "MtdReadContext \<Rightarrow> int \<Rightarrow> (bytes option \<times> MtdReadContext) res" where
  "mtd_read_data ctx len = bindR (of_loop (read_loop len ctx [])) id"

section \<open>Writing\<close>

text \<open>The bytes stored in \<open>buffer\<close> are the list \<open>wbuffer\<close>; \<open>stored\<close> is its length.\<close>

record MtdWriteContext =
  wpart :: MtdPartition
  wbuffer :: bytes
  bad_block_offsets :: "int list"
  bad_block_alloc :: int
  wdev :: flash

definition mtd_write_partition ::
  "bool \<Rightarrow> bool \<Rightarrow> flash option \<Rightarrow> MtdPartition \<Rightarrow> MtdWriteContext option" where
  "mtd_write_partition ctx_ok buf_ok dev p =
     (if \<not> ctx_ok \<or> \<not> buf_ok then None
      else map_option (\<lambda>d. \<lparr> wpart = p, wbuffer = [], bad_block_offsets = [], bad_block_alloc = 0, wdev = d \<rparr>) dev)"

definition add_bad_block_offset :: "MtdWriteContext \<Rightarrow> int \<Rightarrow> MtdWriteContext" where
  "add_bad_block_offset ctx pos =
     ctx\<lparr> bad_block_alloc := (if int (length (bad_block_offsets ctx)) + 1 > bad_block_alloc ctx
                               then bad_block_alloc ctx * 2 + 1 else bad_block_alloc ctx),
          bad_block_offsets := bad_block_offsets ctx @ [pos] \<rparr>"

text \<open>The retry loop for one block: erase, write, read back and compare.\<close>

fun write_tries :: "nat \<Rightarrow> int \<Rightarrow> bytes \<Rightarrow> flash \<Rightarrow> bool \<times> flash" where
  "write_tries 0 pos data d = (False, d)"
| "write_tries (Suc n) pos data d =
     (case MEMERASE d pos (int (length data)) of (erased, d) \<Rightarrow>
        if \<not> erased then write_tries n pos data d
        else case lseek_set d pos of (p, d) \<Rightarrow>
             let d = (if p \<noteq> pos then d else snd (dev_write d data)) in
             case lseek_set d pos of (p, d) \<Rightarrow>
             if p \<noteq> pos then write_tries n pos data d
             else case dev_read d (int (length data)) of (r, d) \<Rightarrow>
               (case r of
                  None \<Rightarrow> write_tries n pos data d
                | Some verify \<Rightarrow>
                    if memcmp data verify (length data) \<noteq> 0 then write_tries n pos data d else (True, d)))"

partial_function (option) write_block_loop ::
  "bytes \<Rightarrow> int \<Rightarrow> MtdWriteContext \<Rightarrow> (int \<times> MtdWriteContext) option" where
  "write_block_loop data pos ctx =
     (if s32 (pos + s32 (erase_size (wpart ctx))) \<le> s32 (psize (wpart ctx))
      then let ret = badb (wdev ctx) pos in
           if ret \<noteq> 0 \<and> \<not> (ret = - 1 \<and> nosupp (wdev ctx))
           then write_block_loop data (s32 (pos + erase_size (wpart ctx))) (add_bad_block_offset ctx pos)
           else case write_tries 2 pos data (wdev ctx) of (ok, d) \<Rightarrow>
             if ok then Some (0, ctx\<lparr> wdev := d \<rparr>)
             else write_block_loop data (s32 (pos + erase_size (wpart ctx)))
                    (add_bad_block_offset ctx pos
                       \<lparr> wdev := snd (MEMERASE d pos (s32 (erase_size (wpart ctx)))) \<rparr>)
      else Some (- 1, ctx))"

declare write_block_loop.simps [code]

definition write_block :: "MtdWriteContext \<Rightarrow> bytes \<Rightarrow> (int \<times> MtdWriteContext) res" where
  "write_block ctx data =
     (case lseek_cur (wdev ctx) of (pos, d) \<Rightarrow>
        if pos = - 1 then Inr (1, ctx\<lparr> wdev := d \<rparr>)
        else of_loop (write_block_loop data pos (ctx\<lparr> wdev := d \<rparr>)))"

text \<open>\<open>mtd_write_data\<close>: the argument is the data still to be written.\<close>

partial_function (option) write_direct ::
  "MtdWriteContext \<Rightarrow> bytes \<Rightarrow> (bool \<times> MtdWriteContext \<times> bytes) res option" where
  "write_direct ctx data =
     (if wbuffer ctx = [] \<and> int (length data) \<ge> erase_size (wpart ctx)
      then case write_block ctx (take (nat (erase_size (wpart ctx))) data) of
             Inl e \<Rightarrow> Some (Inl e)
           | Inr (r, ctx) \<Rightarrow>
               if r \<noteq> 0 then Some (Inr (False, ctx, data))
               else write_direct ctx (drop (nat (erase_size (wpart ctx))) data)
      else Some (Inr (True, ctx, data)))"

declare write_direct.simps [code]

definition write_fill :: "MtdWriteContext \<Rightarrow> bytes \<Rightarrow> MtdWriteContext \<times> bytes" where
  "write_fill ctx data =
     (if wbuffer ctx \<noteq> [] \<or> int (length data) < erase_size (wpart ctx)
      then let avail = erase_size (wpart ctx) - int (length (wbuffer ctx));
               copy = (if int (length data) < avail then int (length data) else avail) in
           (ctx\<lparr> wbuffer := wbuffer ctx @ take (nat copy) data \<rparr>, drop (nat copy) data)
      else (ctx, data))"

definition write_full :: "MtdWriteContext \<Rightarrow> (bool \<times> MtdWriteContext) res" where
  "write_full ctx =
     (if int (length (wbuffer ctx)) = erase_size (wpart ctx)
      then bindR (write_block ctx (wbuffer ctx)) (\<lambda>(r, ctx).
             if r \<noteq> 0 then Inr (False, ctx) else Inr (True, ctx\<lparr> wbuffer := [] \<rparr>))
      else Inr (True, ctx))"

partial_function (option) write_data_loop ::
  "MtdWriteContext \<Rightarrow> bytes \<Rightarrow> (bool \<times> MtdWriteContext) res option" where
  "write_data_loop ctx data =
     (if data \<noteq> []
      then case write_fill ctx data of (ctx, data) \<Rightarrow>
           (case write_full ctx of
              Inl e \<Rightarrow> Some (Inl e)
            | Inr (ok, ctx) \<Rightarrow>
                if \<not> ok then Some (Inr (False, ctx))
                else Option.bind (write_direct ctx data) (\<lambda>r. case r of
                       Inl e \<Rightarrow> Some (Inl e)
                     | Inr (ok, ctx, data) \<Rightarrow>
                         if \<not> ok then Some (Inr (False, ctx)) else write_data_loop ctx data))
      else Some (Inr (True, ctx)))"

declare write_data_loop.simps [code]

definition mtd_write_data :: "MtdWriteContext \<Rightarrow> bytes \<Rightarrow> (int \<times> MtdWriteContext) res" where
  "mtd_write_data ctx data =
     bindR (bindR (of_loop (write_data_loop ctx data)) id) (\<lambda>(ok, ctx).
       Inr (if ok then int (length data) else - 1, ctx))"

section \<open>Erasing and closing\<close>

fun erase_loop :: "nat \<Rightarrow> int \<Rightarrow> int \<Rightarrow> flash \<Rightarrow> int \<times> flash" where
  "erase_loop 0 es pos d = (pos, d)"
| "erase_loop (Suc n) es pos d =
     (if badb d pos > 0 then erase_loop n es (s32 (pos + es)) d
      else erase_loop n es (s32 (pos + es)) (snd (MEMERASE d pos es)))"

definition write_pending :: "MtdWriteContext \<Rightarrow> (bool \<times> MtdWriteContext) res" where
  "write_pending ctx =
     (if wbuffer ctx \<noteq> []
      then let zero = erase_size (wpart ctx) - int (length (wbuffer ctx)) in
           bindR (write_block ctx (wbuffer ctx @ replicate (nat zero) 0)) (\<lambda>(r, ctx).
             if r \<noteq> 0 then Inr (False, ctx) else Inr (True, ctx\<lparr> wbuffer := [] \<rparr>))
      else Inr (True, ctx))"

definition mtd_erase_blocks :: "MtdWriteContext \<Rightarrow> int \<Rightarrow> (int \<times> MtdWriteContext) res" where
  "mtd_erase_blocks ctx blocks =
     bindR (write_pending ctx) (\<lambda>(ok, ctx).
     if \<not> ok then Inr (- 1, ctx)
     else case lseek_cur (wdev ctx) of (pos, d) \<Rightarrow>
       let ctx = ctx\<lparr> wdev := d \<rparr> in
       if pos = - 1 then Inr (pos, ctx)
       else if erase_size (wpart ctx) = 0 then Inl DivByZero
       else let tot = s32 ((psize (wpart ctx) - pos) mod 2 ^ 32 div erase_size (wpart ctx));
                blocks = (if blocks < 0 then tot else blocks) in
         if blocks > tot then Inr (- 1, ctx)
         else case erase_loop (nat blocks) (erase_size (wpart ctx)) pos d of (pos, d) \<Rightarrow>
              Inr (pos, ctx\<lparr> wdev := d \<rparr>))"

text \<open>\<open>mtd_write_close\<close> with the result of \<open>close\<close>; the device is what remains.\<close>

definition mtd_write_close :: "MtdWriteContext \<Rightarrow> bool \<Rightarrow> (int \<times> flash) res" where
  "mtd_write_close ctx close_ok =
     bindR (mtd_erase_blocks ctx 0) (\<lambda>(p, ctx).
       Inr (if p = - 1 \<or> \<not> close_ok then - 1 else 0, wdev ctx))"

fun find_start :: "int \<Rightarrow> int list \<Rightarrow> int \<Rightarrow> int" where
  "find_start es [] pos = pos"
| "find_start es (b # bs) pos =
     (if b = pos then find_start es bs (s32 (pos + es))
      else if b > pos then pos else find_start es bs pos)"

definition mtd_find_write_start :: "MtdWriteContext \<Rightarrow> int \<Rightarrow> int" where
  "mtd_find_write_start ctx pos = find_start (erase_size (wpart ctx)) (bad_block_offsets ctx) pos"

section \<open>Notions used in the statements\<close>

text \<open>
  The behaviour of the device and the contents outside of a region are unchanged.
\<close>

definition same_env :: "flash \<Rightarrow> flash \<Rightarrow> bool" where
  "same_env d d' \<longleftrightarrow> sys d' = sys d \<and> prog d' = prog d \<and> badb d' = badb d \<and> nosupp d' = nosupp d
     \<and> eccf d' = eccf d \<and> length (cells d') = length (cells d)"

definition frame :: "int \<Rightarrow> int \<Rightarrow> flash \<Rightarrow> flash \<Rightarrow> bool" where
  "frame p n d d' \<longleftrightarrow> same_env d d' \<and> take (nat p) (cells d') = take (nat p) (cells d)
     \<and> drop (nat (p + n)) (cells d') = drop (nat (p + n)) (cells d)"

definition block_at :: "flash \<Rightarrow> int \<Rightarrow> int \<Rightarrow> bytes" where
  "block_at d n p = take (nat n) (drop (nat p) (cells d))"

definition geom :: "MtdPartition \<Rightarrow> bool" where
  "geom p \<longleftrightarrow> 0 < erase_size p \<and> 0 \<le> psize p \<and> psize p + erase_size p < 2 ^ 31"

text \<open>Nothing before \<open>p\<close> has changed.\<close>

definition keeps :: "int \<Rightarrow> flash \<Rightarrow> flash \<Rightarrow> bool" where
  "keeps p d d' \<longleftrightarrow> same_env d d' \<and> take (nat p) (cells d') = take (nat p) (cells d)"

text \<open>What a successful \<open>write_block\<close> starting at \<open>pos\<close> did: it skipped \<open>k\<close> blocks.\<close>

definition wrote_at :: "bytes \<Rightarrow> int \<Rightarrow> nat \<Rightarrow> MtdWriteContext \<Rightarrow> MtdWriteContext \<Rightarrow> bool" where
  "wrote_at data pos k ctx ctx' \<longleftrightarrow>
     (let es = erase_size (wpart ctx); p = pos + int k * es in
      in_dev (wdev ctx') p es \<and> block_at (wdev ctx') es p = data \<and> fpos (wdev ctx') = p + es
      \<and> p + es \<le> psize (wpart ctx)
      \<and> bad_block_offsets ctx' = bad_block_offsets ctx @ map (\<lambda>i. pos + int i * es) [0..<k]
      \<and> drop (nat (p + es)) (cells (wdev ctx')) = drop (nat (p + es)) (cells (wdev ctx)))"

text \<open>
  The positions of the good blocks from \<open>pos\<close> on, and a device without failures:
  every system call succeeds, the chip holds what is programmed, reads are free of
  ECC errors and bad blocks are reported.
\<close>

function goods :: "(int \<Rightarrow> int) \<Rightarrow> int \<Rightarrow> int \<Rightarrow> int \<Rightarrow> int list" where
  "goods bad es sz pos =
     (if 0 < es \<and> pos + es \<le> sz
      then (if bad pos = 0 then [pos] else []) @ goods bad es sz (pos + es)
      else [])"
  by pat_completeness auto

termination
  by (relation "measure (\<lambda>(bad, es, sz, pos). nat (sz - pos))") auto

declare goods.simps [simp del]

definition clean :: "flash \<Rightarrow> bool" where
  "clean d \<longleftrightarrow> (\<forall>n. sys d n) \<and> (\<forall>n i b. prog d n i b = b) \<and> (\<forall>n. eccf d n = eccf d 0)
     \<and> (\<forall>p. 0 \<le> badb d p)"

definition like :: "flash \<Rightarrow> flash \<Rightarrow> bool" where
  "like d d' \<longleftrightarrow> same_env d d' \<and> cells d' = cells d"

definition stream :: "MtdPartition \<Rightarrow> flash \<Rightarrow> int \<Rightarrow> bytes" where
  "stream p d pos = concat (map (block_at d (erase_size p)) (goods (badb d) (erase_size p) (psize p) pos))"

text \<open>The state of a reader, and the bytes it has yet to deliver.\<close>

definition reader_ok :: "MtdReadContext \<Rightarrow> bool" where
  "reader_ok ctx \<longleftrightarrow> geom (rpart ctx) \<and> clean (rdev ctx) \<and> psize (rpart ctx) = int (length (cells (rdev ctx)))
     \<and> 0 \<le> fpos (rdev ctx) \<and> int (length (rbuffer ctx)) = erase_size (rpart ctx)
     \<and> 0 \<le> consumed ctx \<and> consumed ctx \<le> erase_size (rpart ctx)"

definition pending :: "MtdReadContext \<Rightarrow> bytes" where
  "pending ctx = drop (nat (consumed ctx)) (rbuffer ctx) @ stream (rpart ctx) (rdev ctx) (fpos (rdev ctx))"

text \<open>The state of a writer, the bytes it has got, and the blocks still free.\<close>

definition writer_ok :: "MtdWriteContext \<Rightarrow> bool" where
  "writer_ok ctx \<longleftrightarrow> geom (wpart ctx) \<and> clean (wdev ctx) \<and> psize (wpart ctx) = int (length (cells (wdev ctx)))
     \<and> 0 \<le> fpos (wdev ctx) \<and> fpos (wdev ctx) \<le> psize (wpart ctx)
     \<and> erase_size (wpart ctx) dvd fpos (wdev ctx)"

definition on_flash :: "MtdWriteContext \<Rightarrow> bytes" where
  "on_flash ctx = concat (map (block_at (wdev ctx) (erase_size (wpart ctx)))
     (goods (badb (wdev ctx)) (erase_size (wpart ctx)) (fpos (wdev ctx)) 0))"

definition blocks_left :: "MtdWriteContext \<Rightarrow> nat" where
  "blocks_left ctx = length (goods (badb (wdev ctx)) (erase_size (wpart ctx)) (psize (wpart ctx)) (fpos (wdev ctx)))"

definition written :: "MtdWriteContext \<Rightarrow> bytes" where
  "written ctx = on_flash ctx @ wbuffer ctx"

definition room :: "MtdWriteContext \<Rightarrow> int" where
  "room ctx = int (blocks_left ctx) * erase_size (wpart ctx) - int (length (wbuffer ctx))"

text \<open>What a step of the writer does with \<open>data\<close>: it appends it, and uses up room.\<close>

definition appends :: "bytes \<Rightarrow> MtdWriteContext \<Rightarrow> MtdWriteContext \<Rightarrow> bool" where
  "appends data ctx ctx' \<longleftrightarrow> writer_ok ctx' \<and> wpart ctx' = wpart ctx \<and> written ctx' = written ctx @ data
     \<and> room ctx' = room ctx - int (length data) \<and> same_env (wdev ctx) (wdev ctx')"

definition sample_part :: MtdPartition where
  "sample_part = \<lparr> device_index = 0, psize = 6, erase_size = 2, pname = Some ''data'' \<rparr>"

text \<open>A chip of three blocks of two bytes, the second of which is bad.\<close>

definition sample_chip :: flash where
  "sample_chip = \<lparr> cells = replicate 6 0, fpos = 0, clk = 0, sys = (\<lambda>_. True), prog = (\<lambda>_ _ b. b),
     badb = (\<lambda>p. if p = 2 then 1 else 0), nosupp = False, eccf = (\<lambda>_. 0) \<rparr>"

text \<open>
  A block that fails verification is skipped by the writer but not marked as bad, so
  a reader does not skip it: here the first block is stuck at zero.
\<close>

definition weak_chip :: flash where
  "weak_chip = \<lparr> cells = replicate 4 0, fpos = 0, clk = 0, sys = (\<lambda>_. True),
     prog = (\<lambda>n _ b. if n < 12 then 0 else b), badb = (\<lambda>_. 0), nosupp = False, eccf = (\<lambda>_. 0) \<rparr>"

definition weak_part :: MtdPartition where
  "weak_part = \<lparr> device_index = 0, psize = 4, erase_size = 2, pname = Some ''data'' \<rparr>"

text \<open>The format of \<open>/proc/mtd\<close> shown in the source: a heading, and a line per partition.\<close>

definition mtd_line :: "string \<times> string \<times> string \<times> string \<Rightarrow> string" where
  "mtd_line l = (case l of (n, sz, es, name) \<Rightarrow>
     ''mtd'' @ n @ '': '' @ sz @ '' '' @ es @ '' '' @ [CHR 0x22] @ name @ [CHR 0x22, CHR 0x0A])"

definition mtd_text :: "(string \<times> string \<times> string \<times> string) list \<Rightarrow> string" where
  "mtd_text ls = ''dev:    size   erasesize  name'' @ [CHR 0x0A] @ concat (map mtd_line ls)"

definition number_ok :: "int \<Rightarrow> int \<Rightarrow> string \<Rightarrow> bool" where
  "number_ok radix bound ds \<longleftrightarrow> ds \<noteq> [] \<and> list_all (is_digit radix) ds \<and> digits_val radix ds < bound"

definition line_ok :: "string \<times> string \<times> string \<times> string \<Rightarrow> bool" where
  "line_ok l \<longleftrightarrow> (case l of (n, sz, es, name) \<Rightarrow>
     number_ok 10 32 n \<and> number_ok 16 (2 ^ 32) sz \<and> number_ok 16 (2 ^ 32) es \<and>
     name \<noteq> [] \<and> length name \<le> 63 \<and> CHR 0x22 \<notin> set name \<and> CHR 0x0A \<notin> set name)"

definition line_part :: "string \<times> string \<times> string \<times> string \<Rightarrow> MtdPartition" where
  "line_part l = (case l of (n, sz, es, name) \<Rightarrow>
     \<lparr> device_index = digits_val 10 n, psize = digits_val 16 sz, erase_size = digits_val 16 es, pname = Some name \<rparr>)"

section \<open>Frames\<close>

lemma same_env_refl [simp]: "same_env d d" by (simp add: same_env_def)

lemma same_env_trans: "same_env a b \<Longrightarrow> same_env b c \<Longrightarrow> same_env a c" by (simp add: same_env_def)

lemma frame_refl [simp]: "frame p n d d" by (simp add: frame_def)

lemma frame_trans: "frame p n a b \<Longrightarrow> frame p n b c \<Longrightarrow> frame p n a c"
  by (auto simp: frame_def intro: same_env_trans)

lemma frame_upd [simp]: "frame p n d (d'\<lparr> fpos := f \<rparr>) = frame p n d d'" "frame p n d (d'\<lparr> clk := c \<rparr>) = frame p n d d'"
  "frame p n d (tick d') = frame p n d d'"
  by (simp_all add: frame_def same_env_def tick_def)

lemma frame_store:
  assumes "in_dev d p n" "int (length x) = n"
  shows "frame p n d (d\<lparr> cells := store (cells d) (nat p) x \<rparr>)"
proof -
  have "nat p + length x \<le> length (cells d)" "nat (p + n) = nat p + length x"
    using assms by (auto simp: in_dev_def)
  then show ?thesis by (simp add: frame_def same_env_def store_def)
qed

lemma frame_lseek [simp]: "frame p n d (snd (lseek_set d' q)) = frame p n d d'" "frame p n d (snd (lseek_cur d')) = frame p n d d'"
  by (simp_all add: lseek_set_def lseek_cur_def)

lemma frame_read [simp]: "frame p n d (snd (dev_read d' m)) = frame p n d d'"
  by (simp add: dev_read_def)

lemma frame_ecc [simp]: "frame p n d (snd (ECCGETSTATS d')) = frame p n d d'"
  by (simp add: ECCGETSTATS_def)

lemma frame_tick_store:
  assumes "in_dev d p n" "int (length x) = n"
  shows "frame p n d ((tick d)\<lparr> cells := store (cells d) (nat p) x \<rparr>)"
  using frame_store[OF assms] by (simp add: frame_def same_env_def tick_def)

lemma frame_erase: "0 \<le> n \<Longrightarrow> frame p n d (snd (MEMERASE d p n))"
  using frame_tick_store[of d p n "replicate (nat n) 0xFF"] by (simp add: MEMERASE_def)

lemma frame_write: "fpos d = p \<Longrightarrow> frame p (int (length x)) d (snd (dev_write d x))"
  using frame_tick_store[of d p "int (length x)"] by (simp add: dev_write_def Let_def)

section \<open>A block that was written is verified\<close>

lemma lseek_set_eq: "lseek_set d p = (p', d') \<Longrightarrow> p' = p \<Longrightarrow> 0 \<le> p \<Longrightarrow> fpos d' = p"
  by (auto simp: lseek_set_def split: if_splits)

lemma dev_read_Some:
  "dev_read d n = (Some x, d') \<Longrightarrow>
   in_dev d (fpos d) n \<and> x = block_at d n (fpos d) \<and> cells d' = cells d \<and> fpos d' = fpos d + n"
  by (auto simp: dev_read_def block_at_def tick_def split: if_splits)

lemma write_tries_frame: "0 \<le> p \<Longrightarrow> frame p (int (length x)) d (snd (write_tries n p x d))"
proof (induction n arbitrary: d)
  case (Suc n)
  obtain e d1 where e: "MEMERASE d p (int (length x)) = (e, d1)" by fastforce
  obtain p2 d2 where l: "lseek_set d1 p = (p2, d2)" by fastforce
  define d3 where "d3 = (if p2 \<noteq> p then d2 else snd (dev_write d2 x))"
  obtain p4 d4 where l': "lseek_set d3 p = (p4, d4)" by fastforce
  obtain r d5 where r: "dev_read d4 (int (length x)) = (r, d5)" by fastforce
  let ?F = "frame p (int (length x))"
  have f1: "?F d d1" using frame_erase[of "int (length x)" p d] e by simp
  have f2: "?F d d2" using f1 frame_lseek(1)[of p "int (length x)" d d1 p] l by simp
  have "?F d2 d3"
    unfolding d3_def using lseek_set_eq[OF l] Suc.prems frame_write[of d2 p x] by simp
  then have f3: "?F d d3" using f2 frame_trans by blast
  have f4: "?F d d4" using f3 frame_lseek(1)[of p "int (length x)" d d3 p] l' by simp
  have f5: "?F d d5" using f4 frame_read[of p "int (length x)" d d4 "int (length x)"] r by simp
  have IH: "?F d d' \<Longrightarrow> ?F d (snd (write_tries n p x d'))" for d'
    using Suc.IH[OF Suc.prems] frame_trans by blast
  show ?case
    using IH[OF f1] IH[OF f4] IH[OF f5] f5
    by (simp add: e l d3_def [symmetric] l' r Let_def split: option.split)
qed simp

lemma write_tries_True:
  assumes "write_tries n p x d = (True, d')" "0 \<le> p"
  shows "in_dev d' p (int (length x)) \<and> block_at d' (int (length x)) p = x \<and> fpos d' = p + int (length x)"
  using assms(1)
proof (induction n arbitrary: d)
  case (Suc n)
  obtain e d1 where e: "MEMERASE d p (int (length x)) = (e, d1)" by fastforce
  obtain p2 d2 where l: "lseek_set d1 p = (p2, d2)" by fastforce
  define d3 where "d3 = (if p2 \<noteq> p then d2 else snd (dev_write d2 x))"
  obtain p4 d4 where l': "lseek_set d3 p = (p4, d4)" by fastforce
  obtain r d5 where r: "dev_read d4 (int (length x)) = (r, d5)" by fastforce
  have body: "write_tries (Suc n) p x d =
    (if \<not> e then write_tries n p x d1 else if p4 \<noteq> p then write_tries n p x d4
     else case r of None \<Rightarrow> write_tries n p x d5
        | Some v \<Rightarrow> if memcmp x v (length x) \<noteq> 0 then write_tries n p x d5 else (True, d5))"
    by (simp add: e l d3_def [symmetric] l' r Let_def)
  show ?case
  proof (cases "e \<and> p4 = p \<and> (\<exists>v. r = Some v \<and> memcmp x v (length x) = 0)")
    case True
    then obtain v where v: "r = Some v" "memcmp x v (length x) = 0" "p4 = p" "e" by blast
    then have d': "d' = d5" using Suc.prems[unfolded body] by simp
    have rs: "in_dev d4 (fpos d4) (int (length x))" "v = block_at d4 (int (length x)) (fpos d4)"
      "cells d5 = cells d4" "fpos d5 = fpos d4 + int (length x)"
      using dev_read_Some[of d4 "int (length x)" v d5] r v by auto
    have f4: "fpos d4 = p" using lseek_set_eq[OF l'] v assms(2) by simp
    have "length v = length x" using rs(1,2) by (auto simp: block_at_def in_dev_def)
    then have "x = v" using v(2) memcmp_zero[of x v] by simp
    then show ?thesis using rs f4 by (simp add: d' block_at_def in_dev_def)
  next
    case False
    then show ?thesis using Suc.prems[unfolded body] Suc.IH by (auto split: if_splits option.splits)
  qed
qed simp

lemma keeps_mono: "keeps q d d' \<Longrightarrow> p \<le> q \<Longrightarrow> keeps p d d'"
  unfolding keeps_def by (metis min.absorb1 nat_mono take_take)

lemma keeps_trans: "keeps p a b \<Longrightarrow> keeps p b c \<Longrightarrow> keeps p a c"
  by (auto simp: keeps_def intro: same_env_trans)

lemma keeps_frame: "frame p n d d' \<Longrightarrow> keeps p d d'"
  by (simp add: keeps_def frame_def)

lemma keeps_refl [simp]: "keeps p d d" by (simp add: keeps_def)

lemma geom_s32:
  assumes "geom p" "0 \<le> pos" "pos \<le> psize p"
  shows "s32 (erase_size p) = erase_size p" "s32 (psize p) = psize p"
    "s32 (pos + erase_size p) = pos + erase_size p"
  using assms by (simp_all add: geom_def s32_id)

lemma write_block_loop_spec:
  assumes "geom (wpart ctx)" "0 \<le> pos" "pos \<le> psize (wpart ctx)"
    and "int (length data) = erase_size (wpart ctx)"
  shows "\<exists>r ctx'. write_block_loop data pos ctx = Some (r, ctx') \<and> (r = 0 \<or> r = - 1)
    \<and> wpart ctx' = wpart ctx \<and> wbuffer ctx' = wbuffer ctx \<and> keeps pos (wdev ctx) (wdev ctx')
    \<and> (r = 0 \<longrightarrow> (\<exists>k. wrote_at data pos k ctx ctx'))"
  using assms
proof (induction "nat (psize (wpart ctx) - pos)" arbitrary: pos ctx rule: less_induct)
  case less
  define es where "es = erase_size (wpart ctx)"
  note s = geom_s32[OF less.prems(1-3), folded es_def]
  have es: "0 < es" using less.prems(1) by (simp add: geom_def es_def)
  have ld: "int (length data) = es" using less.prems(4) by (simp add: es_def)
  show ?case
  proof (cases "pos + es \<le> psize (wpart ctx)")
    case False
    then show ?thesis by (subst write_block_loop.simps) (simp add: s es_def [symmetric])
  next
    case go: True
    let ?bad = "badb (wdev ctx) pos \<noteq> 0 \<and> \<not> (badb (wdev ctx) pos = - 1 \<and> nosupp (wdev ctx))"
    obtain ok d1 where t: "write_tries 2 pos data (wdev ctx) = (ok, d1)" by fastforce
    define ctx1 where "ctx1 = (if ?bad then add_bad_block_offset ctx pos
      else add_bad_block_offset ctx pos \<lparr> wdev := snd (MEMERASE d1 pos es) \<rparr>)"
    have eq: "write_block_loop data pos ctx =
      (if \<not> ?bad \<and> ok then Some (0, ctx\<lparr> wdev := d1 \<rparr>) else write_block_loop data (pos + es) ctx1)"
      by (subst write_block_loop.simps) (auto simp add: s es_def [symmetric] go t ctx1_def Let_def)
    have f1: "frame pos es (wdev ctx) d1"
      using write_tries_frame[OF less.prems(2), of data "wdev ctx" 2] t ld by simp
    show ?thesis
    proof (cases "\<not> ?bad \<and> ok")
      case True
      have "in_dev d1 pos es \<and> block_at d1 es pos = data \<and> fpos d1 = pos + es"
        using write_tries_True[of 2 pos data "wdev ctx" d1] t True less.prems(2) ld by simp
      then have "wrote_at data pos 0 ctx (ctx\<lparr> wdev := d1 \<rparr>)"
        using f1 go by (simp add: wrote_at_def Let_def es_def [symmetric] frame_def)
      then show ?thesis using True f1 keeps_frame by (auto simp: eq)
    next
      case False
      have c1: "wpart ctx1 = wpart ctx" "wbuffer ctx1 = wbuffer ctx"
        "bad_block_offsets ctx1 = bad_block_offsets ctx @ [pos]"
        by (simp_all add: ctx1_def add_bad_block_offset_def)
      have f2: "frame pos es (wdev ctx) (wdev ctx1)"
        using f1 frame_trans[OF f1 frame_erase[of es pos d1]] es
        by (auto simp: ctx1_def add_bad_block_offset_def)
      have "\<exists>r ctx'. write_block_loop data (pos + es) ctx1 = Some (r, ctx') \<and> (r = 0 \<or> r = - 1)
        \<and> wpart ctx' = wpart ctx1 \<and> wbuffer ctx' = wbuffer ctx1 \<and> keeps (pos + es) (wdev ctx1) (wdev ctx')
        \<and> (r = 0 \<longrightarrow> (\<exists>k. wrote_at data (pos + es) k ctx1 ctx'))"
        using less.prems es go by (intro less.hyps) (auto simp: c1 es_def)
      then obtain r ctx' where IH: "write_block_loop data (pos + es) ctx1 = Some (r, ctx')" "r = 0 \<or> r = - 1"
        "wpart ctx' = wpart ctx1" "wbuffer ctx' = wbuffer ctx1" "keeps (pos + es) (wdev ctx1) (wdev ctx')"
        "r = 0 \<Longrightarrow> \<exists>k. wrote_at data (pos + es) k ctx1 ctx'" by blast
      have k: "keeps pos (wdev ctx) (wdev ctx')"
        using keeps_trans[OF keeps_frame[OF f2] keeps_mono[OF IH(5)]] es by simp
      have "\<exists>k. wrote_at data pos k ctx ctx'" if r0: "r = 0"
      proof -
        obtain k where w: "wrote_at data (pos + es) k ctx1 ctx'" using IH(6)[OF r0] ..
        have p: "pos + es + int k * es = pos + int (Suc k) * es" by (simp add: algebra_simps)
        have offs: "[pos] @ map (\<lambda>i. pos + es + int i * es) [0..<k] = map (\<lambda>i. pos + int i * es) [0..<Suc k]"
          by (simp only: upt_conv_Cons[of 0 "Suc k"] zero_less_Suc map_Suc_upt [symmetric])
             (simp add: algebra_simps)
        have dr: "drop (nat (pos + int (Suc k) * es + es)) (cells (wdev ctx1))
            = drop (nat (pos + int (Suc k) * es + es)) (cells (wdev ctx))"
        proof -
          have le: "nat (pos + es) \<le> nat (pos + int (Suc k) * es + es)"
            using es less.prems(2) by (intro nat_mono) (simp add: algebra_simps)
          have "drop (nat (pos + es)) (cells (wdev ctx1)) = drop (nat (pos + es)) (cells (wdev ctx))"
            using f2 by (simp add: frame_def)
          then show ?thesis using le by (metis drop_drop le_add_diff_inverse2)
        qed
        have "wrote_at data pos (Suc k) ctx ctx'"
          using w unfolding wrote_at_def Let_def c1 es_def [symmetric] p dr append_assoc offs .
        then show ?thesis ..
      qed
      then show ?thesis using False IH(1-4) k c1 by (auto simp: eq)
    qed
  qed
qed

lemma write_block_spec:
  assumes "geom (wpart ctx)" "0 \<le> fpos (wdev ctx)" "fpos (wdev ctx) \<le> psize (wpart ctx)"
    and "int (length data) = erase_size (wpart ctx)"
  shows "\<exists>r ctx'. write_block ctx data = Inr (r, ctx')
    \<and> wpart ctx' = wpart ctx \<and> wbuffer ctx' = wbuffer ctx \<and> keeps (fpos (wdev ctx)) (wdev ctx) (wdev ctx')
    \<and> (r = 0 \<longrightarrow> (\<exists>k. wrote_at data (fpos (wdev ctx)) k ctx ctx'))"
proof (cases "sys (wdev ctx) (clk (wdev ctx))")
  case False
  then show ?thesis by (simp add: write_block_def lseek_cur_def keeps_def same_env_def tick_def)
next
  case True
  define pos where "pos = fpos (wdev ctx)"
  define c where "c = ctx\<lparr> wdev := tick (wdev ctx) \<rparr>"
  have eq: "write_block ctx data = of_loop (write_block_loop data pos c)"
    using True assms(2) by (simp add: write_block_def lseek_cur_def pos_def c_def)
  have c: "wpart c = wpart ctx" "wbuffer c = wbuffer ctx" "bad_block_offsets c = bad_block_offsets ctx"
    "cells (wdev c) = cells (wdev ctx)" "same_env (wdev ctx) (wdev c)"
    by (simp_all add: c_def tick_def same_env_def)
  have kp: "keeps pos (wdev c) d \<Longrightarrow> keeps pos (wdev ctx) d" for d
    using c(4,5) same_env_trans by (auto simp: keeps_def)
  show ?thesis
    using write_block_loop_spec[of c pos data] assms kp
    unfolding eq pos_def [symmetric] wrote_at_def c by auto
qed

section \<open>A partition as a stream of good blocks\<close>

lemma like_trans: "like a b \<Longrightarrow> like b c \<Longrightarrow> like a c"
  by (auto simp: like_def intro: same_env_trans)

lemma like_clean: "like d d' \<Longrightarrow> clean d \<Longrightarrow> clean d'"
  by (simp add: like_def clean_def same_env_def)

lemma same_env_clean: "same_env d d' \<Longrightarrow> clean d \<Longrightarrow> clean d'"
  by (simp add: clean_def same_env_def)

lemma like_block: "like d d' \<Longrightarrow> block_at d' = block_at d"
  by (simp add: like_def block_at_def fun_eq_iff)

lemma like_stream: "like d d' \<Longrightarrow> stream p d' pos = stream p d pos"
  by (simp add: stream_def like_def same_env_def block_at_def cong: map_cong)

lemma goods_mem:
  "p \<in> set (goods bad es sz pos) \<Longrightarrow> pos \<le> p \<and> p + es \<le> sz \<and> bad p = 0 \<and> 0 < es"
proof (induction bad es sz pos rule: goods.induct)
  case (1 bad es sz pos)
  have c: "0 < es \<and> pos + es \<le> sz" and p: "p = pos \<and> bad pos = 0 \<or> p \<in> set (goods bad es sz (pos + es))"
    using "1.prems" goods.simps[of bad es sz pos] by (auto split: if_splits)
  show ?case using p c "1.IH"[OF c] by force
qed

lemma goods_append:
  assumes "pos \<le> a" "a \<le> b" "es dvd a - pos"
  shows "goods bad es b pos = goods bad es a pos @ goods bad es b a"
  using assms
proof (induction bad es a pos rule: goods.induct)
  case (1 bad es a pos)
  show ?case
  proof (cases "0 < es \<and> pos + es \<le> a")
    case True
    have "es dvd a - (pos + es)"
      using dvd_diff[OF "1.prems"(3) dvd_refl] by (simp add: diff_diff_eq)
    then have IH: "goods bad es b (pos + es) = goods bad es a (pos + es) @ goods bad es b a"
      using "1.IH"[OF True] True "1.prems" by simp
    show ?thesis
      using True "1.prems" goods.simps[of bad es b pos] goods.simps[of bad es a pos] IH by simp
  next
    case False
    show ?thesis
    proof (cases "0 < es")
      case True
      then have "a = pos" using False "1.prems" zdvd_not_zless[of "a - pos" es] by force
      then show ?thesis using goods.simps[of bad es a pos] True by simp
    next
      case False
      then show ?thesis using goods.simps[of bad es b pos] goods.simps[of bad es a pos] goods.simps[of bad es b a] by simp
    qed
  qed
qed

lemma goods_first:
  assumes "goods bad es sz pos = p # ps"
  shows "goods bad es sz (p + es) = ps \<and> goods bad es (p + es) pos = [p] \<and> pos \<le> p \<and> es dvd p - pos"
  using assms
proof (induction bad es sz pos rule: goods.induct)
  case (1 bad es sz pos)
  have c: "0 < es \<and> pos + es \<le> sz" using "1.prems" goods.simps[of bad es sz pos] by (auto split: if_splits)
  show ?case
  proof (cases "bad pos = 0")
    case True
    then have "p = pos" "ps = goods bad es sz (pos + es)"
      using "1.prems" c goods.simps[of bad es sz pos] by auto
    moreover have "goods bad es (pos + es) (pos + es) = []"
      using c by (subst goods.simps) simp
    ultimately show ?thesis using True c goods.simps[of bad es "pos + es" pos] by simp
  next
    case False
    then have g: "goods bad es sz (pos + es) = p # ps"
      using "1.prems" c goods.simps[of bad es sz pos] by simp
    note IH = "1.IH"[OF c g]
    have "goods bad es (p + es) pos = goods bad es (p + es) (pos + es)"
      using False c IH goods.simps[of bad es "p + es" pos] by auto
    moreover have "es dvd p - pos" using IH dvd_add[of es "p - (pos + es)" es] by simp
    ultimately show ?thesis using IH c by auto
  qed
qed

section \<open>Reading the stream\<close>

lemma read_block_loop_clean:
  assumes "geom p" "clean d" "psize p = int (length (cells d))" "0 \<le> pos" "before = eccf d 0"
  shows "\<exists>r d'. read_block_loop (erase_size p) (psize p) pos before d = Some (r, d') \<and> like d d'
    \<and> (case goods (badb d) (erase_size p) (psize p) pos of
         [] \<Rightarrow> r = None
       | q # qs \<Rightarrow> r = Some (block_at d (erase_size p) q) \<and> fpos d' = q + erase_size p)"
  using assms
proof (induction "badb d" "erase_size p" "psize p" pos arbitrary: d rule: goods.induct)
  case (1 pos)
  define es where "es = erase_size p"
  define sz where "sz = psize p"
  have s: "s32 es = es" "s32 sz = sz" "0 < es"
    using "1.prems"(1) by (simp_all add: geom_def s32_id es_def sz_def)
  show ?case
  proof (cases "pos + es \<le> sz")
    case False
    then show ?thesis
      unfolding es_def [symmetric] sz_def [symmetric]
      by (subst read_block_loop.simps, subst goods.simps) (simp add: s like_def)
  next
    case True
    define d3 where "d3 = d\<lparr> fpos := pos + es, clk := Suc (Suc (Suc (clk d))) \<rparr>"
    have l3: "like d d3" by (simp add: d3_def tick_def like_def same_env_def)
    have eq: "read_block_loop es sz pos before d =
      (if badb d pos \<noteq> 0 then read_block_loop es sz (pos + es) before d3
       else Some (Some (block_at d es pos), d3))"
      using True "1.prems" s sz_def
      by (subst read_block_loop.simps)
         (simp add: lseek_set_def dev_read_def ECCGETSTATS_def clean_def in_dev_def tick_def d3_def block_at_def)
    show ?thesis
    proof (cases "badb d pos = 0")
      case True
      then show ?thesis
        using eq l3 \<open>pos + es \<le> sz\<close> s goods.simps[of "badb d" es sz pos]
        unfolding es_def [symmetric] sz_def [symmetric] by (simp add: d3_def)
    next
      case False
      have b3: "badb d3 = badb d" "eccf d3 = eccf d" "cells d3 = cells d"
        using l3 by (auto simp: like_def same_env_def)
      have "\<exists>r d'. read_block_loop es sz (pos + es) before d3 = Some (r, d') \<and> like d3 d'
        \<and> (case goods (badb d3) es sz (pos + es) of
             [] \<Rightarrow> r = None | q # qs \<Rightarrow> r = Some (block_at d3 es q) \<and> fpos d' = q + es)"
        unfolding es_def sz_def
        using True s "1.prems" like_clean[OF l3] b3
        by (intro "1.hyps") (auto simp: es_def sz_def)
      then obtain r d' where r: "read_block_loop es sz (pos + es) before d3 = Some (r, d')" "like d3 d'"
        "case goods (badb d) es sz (pos + es) of
             [] \<Rightarrow> r = None | q # qs \<Rightarrow> r = Some (block_at d es q) \<and> fpos d' = q + es"
        unfolding b3(1) like_block[OF l3] by blast
      have "goods (badb d) es sz pos = goods (badb d) es sz (pos + es)"
        using False \<open>pos + es \<le> sz\<close> s goods.simps[of "badb d" es sz pos] by simp
      then show ?thesis
        using r False eq like_trans[OF l3] unfolding es_def [symmetric] sz_def [symmetric] by auto
    qed
  qed
qed

lemma length_block_at: "in_dev d p n \<Longrightarrow> length (block_at d n p) = nat n"
  by (auto simp: block_at_def in_dev_def)

lemma pending_empty_buffer:
  assumes "reader_ok ctx" "consumed ctx = erase_size (rpart ctx)"
  shows "pending ctx = stream (rpart ctx) (rdev ctx) (fpos (rdev ctx))"
proof -
  have "length (rbuffer ctx) \<le> nat (consumed ctx)" using assms unfolding reader_ok_def by linarith
  then show ?thesis by (simp add: pending_def)
qed

lemma read_block_clean:
  assumes "geom p" "clean d" "psize p = int (length (cells d))" "0 \<le> fpos d" "stream p d (fpos d) \<noteq> []"
  shows "\<exists>blk d'. read_block p d = Inr (Some blk, d') \<and> like d d' \<and> 0 \<le> fpos d'
    \<and> int (length blk) = erase_size p \<and> stream p d (fpos d) = blk @ stream p d' (fpos d')"
proof -
  define d2 where "d2 = tick (tick d)"
  have l2: "like d d2" by (simp add: d2_def like_def same_env_def tick_def)
  have b2: "badb d2 = badb d" "cells d2 = cells d" "eccf d2 0 = eccf d 0"
    using l2 by (auto simp: like_def same_env_def)
  have eq: "read_block p d = of_loop (read_block_loop (erase_size p) (psize p) (fpos d) (eccf d 0) d2)"
  proof -
    have e: "eccf d (clk d) = eccf d 0" "sys d n" for n using assms(2) by (simp_all add: clean_def)
    show ?thesis by (simp add: read_block_def ECCGETSTATS_def lseek_cur_def tick_def d2_def e)
  qed
  obtain q qs where g: "goods (badb d) (erase_size p) (psize p) (fpos d) = q # qs"
    using assms(5) by (cases "goods (badb d) (erase_size p) (psize p) (fpos d)") (auto simp: stream_def)
  obtain d' where d': "read_block_loop (erase_size p) (psize p) (fpos d) (eccf d 0) d2
      = Some (Some (block_at d (erase_size p) q), d')" "like d2 d'" "fpos d' = q + erase_size p"
    using read_block_loop_clean[OF assms(1) like_clean[OF l2 assms(2)], of "fpos d" "eccf d 0"] assms(3,4) g
    unfolding b2 like_block[OF l2] by auto
  have l: "like d d'" using like_trans[OF l2 d'(2)] .
  have q: "fpos d \<le> q" "q + erase_size p \<le> psize p" "0 < erase_size p"
    using goods_mem[of q "badb d" "erase_size p" "psize p" "fpos d"] g by auto
  have "in_dev d q (erase_size p)" using q assms(3,4) by (simp add: in_dev_def)
  then have "int (length (block_at d (erase_size p) q)) = erase_size p" using q by (simp add: length_block_at)
  moreover have "stream p d (fpos d) = block_at d (erase_size p) q @ stream p d' (fpos d')"
    using goods_first[OF g] g d'(3) like_stream[OF l] by (simp add: stream_def)
  ultimately show ?thesis using eq d' l q assms(4) by auto
qed

lemma read_direct_ok:
  assumes "reader_ok ctx" "len \<le> int (length (acc @ pending ctx))" "int (length acc) \<le> len"
  shows "\<exists>ctx' acc'. read_direct len ctx acc = Some (Inr (True, ctx', acc')) \<and> reader_ok ctx'
    \<and> acc' @ pending ctx' = acc @ pending ctx \<and> int (length acc') \<le> len \<and> length acc \<le> length acc'
    \<and> consumed ctx' = consumed ctx \<and> rpart ctx' = rpart ctx"
  using assms
proof (induction "nat (len - int (length acc))" arbitrary: ctx acc rule: less_induct)
  case less
  let ?es = "erase_size (rpart ctx)"
  show ?case
  proof (cases "consumed ctx = ?es \<and> len - int (length acc) \<ge> ?es")
    case False
    then show ?thesis using less.prems by (subst read_direct.simps) auto
  next
    case True
    have es: "0 < ?es" using less.prems(1) by (simp add: reader_ok_def geom_def)
    have p: "pending ctx = stream (rpart ctx) (rdev ctx) (fpos (rdev ctx))"
      using pending_empty_buffer[OF less.prems(1)] True by simp
    then have ne: "stream (rpart ctx) (rdev ctx) (fpos (rdev ctx)) \<noteq> []"
      using less.prems(2) True es by auto
    obtain blk d' where b: "read_block (rpart ctx) (rdev ctx) = Inr (Some blk, d')" "like (rdev ctx) d'" "0 \<le> fpos d'"
      "int (length blk) = ?es"
      "stream (rpart ctx) (rdev ctx) (fpos (rdev ctx)) = blk @ stream (rpart ctx) d' (fpos d')"
      using read_block_clean[of "rpart ctx" "rdev ctx"] less.prems(1) ne by (auto simp: reader_ok_def)
    define c1 where "c1 = ctx\<lparr> rdev := d' \<rparr>"
    have ok1: "reader_ok c1"
      using less.prems(1) b(2,3) like_clean[OF b(2)]
      by (auto simp: reader_ok_def c1_def like_def same_env_def)
    have p1: "pending ctx = blk @ pending c1"
      using b(5) p True pending_empty_buffer[OF ok1] by (simp add: c1_def)
    have eq: "read_direct len ctx acc = read_direct len c1 (acc @ blk)"
      using True b(1) by (subst read_direct.simps) (simp add: c1_def)
    have "\<exists>ctx' acc'. read_direct len c1 (acc @ blk) = Some (Inr (True, ctx', acc')) \<and> reader_ok ctx'
      \<and> acc' @ pending ctx' = (acc @ blk) @ pending c1 \<and> int (length acc') \<le> len \<and> length (acc @ blk) \<le> length acc'
      \<and> consumed ctx' = consumed c1 \<and> rpart ctx' = rpart c1"
      using True es b(4) less.prems(2,3) p1 ok1 by (intro less.hyps) auto
    then show ?thesis unfolding eq using p1 by (auto simp: c1_def)
  qed
qed

lemma read_copy_ok:
  assumes "reader_ok ctx" "int (length acc) < len" "read_copy len ctx acc = (ctx', acc')"
  shows "reader_ok ctx' \<and> acc' @ pending ctx' = acc @ pending ctx \<and> int (length acc') \<le> len
    \<and> length acc \<le> length acc' \<and> (consumed ctx < erase_size (rpart ctx) \<longrightarrow> length acc < length acc')
    \<and> (consumed ctx = erase_size (rpart ctx) \<longrightarrow> ctx' = ctx) \<and> rpart ctx' = rpart ctx
    \<and> (int (length acc') < len \<longrightarrow> consumed ctx' = erase_size (rpart ctx))"
proof (cases "consumed ctx < erase_size (rpart ctx)")
  case False
  then show ?thesis using assms by (auto simp: read_copy_def reader_ok_def)
next
  case True
  define av where "av = erase_size (rpart ctx) - consumed ctx"
  define cp where "cp = (if len - int (length acc) < av then len - int (length acc) else av)"
  have e: "ctx' = ctx\<lparr> consumed := consumed ctx + cp \<rparr>"
    "acc' = acc @ take (nat cp) (drop (nat (consumed ctx)) (rbuffer ctx))"
    using assms(3) True by (auto simp: read_copy_def Let_def av_def cp_def)
  have cp: "0 < cp" "cp \<le> av" "cp \<le> len - int (length acc)" "cp < len - int (length acc) \<Longrightarrow> cp = av"
    using True assms(2) by (auto simp: cp_def av_def)
  have c: "0 \<le> consumed ctx" "int (length (rbuffer ctx)) = erase_size (rpart ctx)"
    using assms(1) by (auto simp: reader_ok_def)
  have len: "length (take (nat cp) (drop (nat (consumed ctx)) (rbuffer ctx))) = nat cp"
    using cp c by (simp add: av_def)
  have "drop (nat (consumed ctx)) (rbuffer ctx) =
      take (nat cp) (drop (nat (consumed ctx)) (rbuffer ctx)) @ drop (nat (consumed ctx + cp)) (rbuffer ctx)"
    using cp c append_take_drop_id[of "nat cp" "drop (nat (consumed ctx)) (rbuffer ctx)"]
    by (simp add: nat_add_distrib add.commute)
  then have "acc' @ pending ctx' = acc @ pending ctx"
    unfolding e pending_def by simp
  then show ?thesis using assms(1,2) cp c len by (auto simp: e reader_ok_def av_def)
qed

lemma read_loop_ok:
  assumes "reader_ok ctx" "len \<le> int (length (acc @ pending ctx))" "int (length acc) \<le> len" "len < 2 ^ 31"
  shows "\<exists>ctx'. read_loop len ctx acc = Some (Inr (Some (take (nat len) (acc @ pending ctx)), ctx'))
    \<and> reader_ok ctx' \<and> pending ctx' = drop (nat len) (acc @ pending ctx) \<and> rpart ctx' = rpart ctx"
  using assms
proof (induction "2 * nat (len - int (length acc)) + (if consumed ctx = erase_size (rpart ctx) then 1 else 0)"
    arbitrary: ctx acc rule: less_induct)
  case less
  have sl: "s32 len = len" using less.prems(3,4) by (simp add: s32_id)
  show ?case
  proof (cases "int (length acc) < len")
    case False
    then have "length acc = nat len" using less.prems(3) by simp
    then show ?thesis using False less.prems(1) by (subst read_loop.simps) (auto simp: sl)
  next
    case True
    obtain c1 a1 where cp: "read_copy len ctx acc = (c1, a1)" by fastforce
    note C = read_copy_ok[OF less.prems(1) True cp]
    obtain c2 a2 where dr: "read_direct len c1 a1 = Some (Inr (True, c2, a2))" "reader_ok c2"
      "a2 @ pending c2 = a1 @ pending c1" "int (length a2) \<le> len" "length a1 \<le> length a2"
      "consumed c2 = consumed c1" "rpart c2 = rpart c1"
      using read_direct_ok[of c1 len a1] C less.prems(2) by auto
    have all: "a2 @ pending c2 = acc @ pending ctx" using dr(3) C by simp
    show ?thesis
    proof (cases "int (length a2) = len")
      case True
      then have "length a2 = nat len" by simp
      then have "take (nat len) (acc @ pending ctx) = a2" "drop (nat len) (acc @ pending ctx) = pending c2"
        using all by (metis append_eq_conv_conj)+
      moreover have "read_loop len ctx acc = Some (Inr (Some a2, c2))"
        using \<open>int (length acc) < len\<close> True cp dr(1) by (subst read_loop.simps) (simp add: sl)
      ultimately show ?thesis using dr(2,7) C by auto
    next
      case False
      then have lt: "int (length a2) < len" using dr(4) by simp
      let ?es = "erase_size (rpart ctx)"
      have c2: "consumed c2 = ?es" "rpart c2 = rpart ctx" using lt dr C by auto
      have p2: "pending c2 = stream (rpart c2) (rdev c2) (fpos (rdev c2))"
        using pending_empty_buffer[OF dr(2)] c2 by simp
      then have ne: "stream (rpart c2) (rdev c2) (fpos (rdev c2)) \<noteq> []"
        using lt less.prems(2) all by (metis append_Nil2 not_less)
      obtain blk d' where b: "read_block (rpart c2) (rdev c2) = Inr (Some blk, d')" "like (rdev c2) d'" "0 \<le> fpos d'"
        "int (length blk) = ?es"
        "stream (rpart c2) (rdev c2) (fpos (rdev c2)) = blk @ stream (rpart c2) d' (fpos d')"
        using read_block_clean[of "rpart c2" "rdev c2"] dr(2) ne c2(2) by (auto simp: reader_ok_def)
      define c3 where "c3 = c2\<lparr> rbuffer := blk, consumed := 0, rdev := d' \<rparr>"
      have ok3: "reader_ok c3"
        using dr(2) b(2-4) like_clean[OF b(2)] c2
        by (auto simp: reader_ok_def c3_def like_def same_env_def)
      have p3: "pending c3 = pending c2" using b(5) p2 by (simp add: pending_def c3_def)
      have eq: "read_loop len ctx acc = read_loop len c3 a2"
        using \<open>int (length acc) < len\<close> lt cp dr(1) b(1) c2
        by (subst read_loop.simps) (simp add: sl c3_def)
      have es: "0 < ?es" using less.prems(1) by (simp add: reader_ok_def geom_def)
      have prog: "length acc < length a2 \<or> consumed ctx = ?es"
        using C dr(5) less.prems(1) by (auto simp: reader_ok_def)
      have "\<exists>ctx'. read_loop len c3 a2 = Some (Inr (Some (take (nat len) (a2 @ pending c3)), ctx'))
        \<and> reader_ok ctx' \<and> pending ctx' = drop (nat len) (a2 @ pending c3) \<and> rpart ctx' = rpart c3"
      proof (rule less.hyps)
        show "2 * nat (len - int (length a2)) + (if consumed c3 = erase_size (rpart c3) then 1 else 0)
          < 2 * nat (len - int (length acc)) + (if consumed ctx = ?es then 1 else 0)"
          using prog lt C dr(5) es c2 by (auto simp: c3_def)
      qed (use ok3 p3 all less.prems lt in auto)
      then show ?thesis unfolding eq p3 all using c2 by (auto simp: c3_def)
    qed
  qed
qed

section \<open>Writing the stream\<close>

lemma store_store:
  assumes "length a = length b" "p + length b \<le> length xs"
  shows "store (store xs p a) p b = store xs p b"
  using assms by (simp add: store_def)

lemma take_drop_store: "p + length b \<le> length xs \<Longrightarrow> take (length b) (drop p (store xs p b)) = b"
  by (simp add: store_def)

lemma write_tries_clean:
  assumes "clean d" "in_dev d p (int (length x))"
  shows "\<exists>d'. write_tries (Suc n) p x d = (True, d') \<and> same_env d d'
    \<and> cells d' = store (cells d) (nat p) x \<and> fpos d' = p + int (length x)"
proof -
  have c: "sys d k" "prog d k i b = b" for k i b using assms(1) by (simp_all add: clean_def)
  have m: "map (\<lambda>i. x ! i) [0..<length x] = x" by (rule map_nth)
  have i: "nat p + length x \<le> length (cells d)" "0 \<le> p" "p + int (length x) \<le> int (length (cells d))"
    using assms(2) by (auto simp: in_dev_def)
  have ss: "store (store (cells d) (nat p) (replicate (length x) 0xFF)) (nat p) x = store (cells d) (nat p) x"
    using i by (intro store_store) auto
  show ?thesis
    using i by (simp add: MEMERASE_def lseek_set_def dev_write_def dev_read_def in_dev_def tick_def
        c m ss take_drop_store same_env_def Let_def memcmp_zero)
qed

lemma write_block_loop_clean:
  assumes "geom (wpart ctx)" "clean (wdev ctx)" "psize (wpart ctx) = int (length (cells (wdev ctx)))"
    "0 \<le> pos" "int (length data) = erase_size (wpart ctx)"
    and "goods (badb (wdev ctx)) (erase_size (wpart ctx)) (psize (wpart ctx)) pos = q # qs"
  shows "\<exists>ctx'. write_block_loop data pos ctx = Some (0, ctx') \<and> wpart ctx' = wpart ctx
    \<and> wbuffer ctx' = wbuffer ctx \<and> same_env (wdev ctx) (wdev ctx')
    \<and> cells (wdev ctx') = store (cells (wdev ctx)) (nat q) data
    \<and> fpos (wdev ctx') = q + erase_size (wpart ctx)"
  using assms
proof (induction "badb (wdev ctx)" "erase_size (wpart ctx)" "psize (wpart ctx)" pos arbitrary: ctx
    rule: goods.induct)
  case (1 pos)
  define es where "es = erase_size (wpart ctx)"
  define sz where "sz = psize (wpart ctx)"
  have c: "0 < es \<and> pos + es \<le> sz"
    using "1.prems"(6) goods.simps[of "badb (wdev ctx)" es sz pos] by (auto simp: es_def sz_def split: if_splits)
  have s: "s32 es = es" "s32 sz = sz" "s32 (pos + es) = pos + es"
    using geom_s32[OF "1.prems"(1,4)] c by (auto simp: es_def sz_def)
  have nb: "badb (wdev ctx) pos \<noteq> - 1" using "1.prems"(2) by (auto simp: clean_def dest: spec[of _ pos])
  show ?case
  proof (cases "badb (wdev ctx) pos = 0")
    case True
    then have q: "q = pos"
      using "1.prems"(6) c goods.simps[of "badb (wdev ctx)" es sz pos] by (simp add: es_def sz_def)
    have "in_dev (wdev ctx) pos (int (length data))"
      using c "1.prems"(3,4,5) by (simp add: in_dev_def es_def sz_def)
    then obtain d' where d': "write_tries 2 pos data (wdev ctx) = (True, d')" "same_env (wdev ctx) d'"
      "cells d' = store (cells (wdev ctx)) (nat pos) data" "fpos d' = pos + int (length data)"
      using write_tries_clean[OF "1.prems"(2), of pos data 1] by (auto simp: numeral_2_eq_2)
    show ?thesis
      using True c s d' q "1.prems"(5)
      by (subst write_block_loop.simps) (simp add: es_def [symmetric] sz_def [symmetric])
  next
    case False
    define c1 where "c1 = add_bad_block_offset ctx pos"
    have c1: "wpart c1 = wpart ctx" "wdev c1 = wdev ctx" "wbuffer c1 = wbuffer ctx"
      by (simp_all add: c1_def add_bad_block_offset_def)
    have eq: "write_block_loop data pos ctx = write_block_loop data (pos + es) c1"
      using False c s nb
      by (subst write_block_loop.simps) (simp add: es_def [symmetric] sz_def [symmetric] c1_def)
    have "goods (badb (wdev ctx)) es sz (pos + es) = q # qs"
      using "1.prems"(6) c False goods.simps[of "badb (wdev ctx)" es sz pos] by (simp add: es_def sz_def)
    then show ?thesis
      using "1.hyps"[of c1] c "1.prems"(1-5) unfolding eq c1 by (simp add: es_def sz_def c1)
  qed
qed

lemma block_at_store_before:
  assumes "0 \<le> p" "p + n \<le> q" "0 \<le> n" "cells d' = store (cells d) (nat q) x" "nat q \<le> length (cells d)"
  shows "block_at d' n p = block_at d n p"
proof -
  have "nat p + nat n \<le> nat q" using assms by linarith
  then have "take (nat n) (drop (nat p) (take (nat q) (cells d) @ y)) = take (nat n) (drop (nat p) (cells d))" for y
    using assms(5) by (simp add: take_drop add.commute min_def)
  from this[of "x @ drop (nat q + length x) (cells d)"] show ?thesis
    unfolding block_at_def assms(4) store_def .
qed

lemma write_block_clean:
  assumes ok: "writer_ok ctx" and len: "int (length data) = erase_size (wpart ctx)" and fr: "blocks_left ctx \<noteq> 0"
  shows "\<exists>ctx'. write_block ctx data = Inr (0, ctx') \<and> writer_ok ctx' \<and> wpart ctx' = wpart ctx
    \<and> wbuffer ctx' = wbuffer ctx \<and> on_flash ctx' = on_flash ctx @ data
    \<and> blocks_left ctx = Suc (blocks_left ctx') \<and> same_env (wdev ctx) (wdev ctx')"
proof -
  define es where "es = erase_size (wpart ctx)"
  define sz where "sz = psize (wpart ctx)"
  define pos where "pos = fpos (wdev ctx)"
  define bad where "bad = badb (wdev ctx)"
  have ok': "geom (wpart ctx)" "clean (wdev ctx)" "sz = int (length (cells (wdev ctx)))" "0 \<le> pos" "pos \<le> sz" "es dvd pos"
    using ok by (auto simp: writer_ok_def es_def sz_def pos_def)
  obtain q qs where g: "goods bad es sz pos = q # qs"
    using fr by (cases "goods bad es sz pos") (auto simp: blocks_left_def bad_def es_def sz_def pos_def)
  have q: "pos \<le> q" "q + es \<le> sz" "0 < es" using goods_mem[of q bad es sz pos] g by auto
  define c1 where "c1 = ctx\<lparr> wdev := tick (wdev ctx) \<rparr>"
  have c1: "wpart c1 = wpart ctx" "wbuffer c1 = wbuffer ctx" "cells (wdev c1) = cells (wdev ctx)"
    "badb (wdev c1) = bad" "same_env (wdev ctx) (wdev c1)" "clean (wdev c1)"
    using ok'(2) by (simp_all add: c1_def tick_def same_env_def clean_def bad_def)
  have eq: "write_block ctx data = of_loop (write_block_loop data pos c1)"
    using ok'(2,4) by (simp add: write_block_def lseek_cur_def clean_def pos_def c1_def)
  obtain ctx' where w: "write_block_loop data pos c1 = Some (0, ctx')" "wpart ctx' = wpart ctx"
    "wbuffer ctx' = wbuffer ctx" "same_env (wdev c1) (wdev ctx')"
    "cells (wdev ctx') = store (cells (wdev ctx)) (nat q) data" "fpos (wdev ctx') = q + es"
    using write_block_loop_clean[of c1 pos data q qs] ok' c1 g len by (auto simp: es_def sz_def)
  have env: "same_env (wdev ctx) (wdev ctx')" using same_env_trans[OF c1(5) w(4)] .
  have lc: "length (cells (wdev ctx')) = length (cells (wdev ctx))" "badb (wdev ctx') = bad"
    using env by (auto simp: same_env_def bad_def)
  note gf = goods_first[OF g]
  have dv: "es dvd q + es" using ok'(6) gf dvd_add[of es "q - pos" pos] by simp
  have G: "goods bad es (q + es) 0 = goods bad es pos 0 @ [q]"
    using goods_append[of 0 pos "q + es" es bad] ok'(4,6) q gf by simp
  have old: "map (block_at (wdev ctx') es) (goods bad es pos 0) = map (block_at (wdev ctx) es) (goods bad es pos 0)"
  proof (rule map_cong[OF refl])
    fix r assume "r \<in> set (goods bad es pos 0)"
    then have "0 \<le> r" "r + es \<le> pos" using goods_mem by fastforce+
    then show "block_at (wdev ctx') es r = block_at (wdev ctx) es r"
      using q ok' w(5) by (intro block_at_store_before[of _ _ q]) auto
  qed
  have new: "block_at (wdev ctx') es q = data"
    using take_drop_store[of "nat q" data "cells (wdev ctx)"] len q ok'(3,4)
    by (auto simp: block_at_def w(5) es_def [symmetric])
  have "on_flash ctx' = on_flash ctx @ data"
    unfolding on_flash_def w(2,6) lc(2) bad_def [symmetric] es_def [symmetric] pos_def [symmetric] G map_append old
    by (simp add: new)
  moreover have "blocks_left ctx = Suc (blocks_left ctx')"
    using g gf by (simp add: blocks_left_def w(2,6) lc(2) bad_def [symmetric] es_def [symmetric] sz_def [symmetric] pos_def [symmetric])
  moreover have "writer_ok ctx'"
    using ok' q dv lc same_env_clean[OF env]
    by (simp add: writer_ok_def w(2,6) es_def [symmetric] sz_def [symmetric])
  ultimately show ?thesis using eq w env by auto
qed

lemma appends_trans: "appends a x y \<Longrightarrow> appends b y z \<Longrightarrow> appends (a @ b) x z"
  by (auto simp: appends_def intro: same_env_trans)

lemma appends_refl: "writer_ok ctx \<Longrightarrow> appends [] ctx ctx"
  by (simp add: appends_def)

lemma free_if_room:
  assumes "int n \<le> room ctx" "0 < int n + int (length (wbuffer ctx))"
  shows "blocks_left ctx \<noteq> 0"
proof
  assume "blocks_left ctx = 0"
  then have "room ctx = - int (length (wbuffer ctx))" by (simp add: room_def)
  then show False using assms by linarith
qed

lemma write_direct_ok:
  assumes "writer_ok ctx" "wbuffer ctx = []" "int (length data) \<le> room ctx"
  shows "\<exists>ctx' pre post. write_direct ctx data = Some (Inr (True, ctx', post)) \<and> data = pre @ post
    \<and> wbuffer ctx' = [] \<and> appends pre ctx ctx' \<and> int (length post) < erase_size (wpart ctx)"
  using assms
proof (induction "length data" arbitrary: ctx data rule: less_induct)
  case less
  let ?es = "erase_size (wpart ctx)"
  have es: "0 < ?es" using less.prems(1) by (simp add: writer_ok_def geom_def)
  show ?case
  proof (cases "int (length data) \<ge> ?es")
    case False
    then show ?thesis
      using less.prems appends_refl[OF less.prems(1)] by (subst write_direct.simps) auto
  next
    case True
    define blk where "blk = take (nat ?es) data"
    have lb: "int (length blk) = ?es" "length blk = nat ?es" using True es by (auto simp: blk_def)
    have "blocks_left ctx \<noteq> 0"
      using True es less.prems free_if_room[of "length data" ctx] by linarith
    then obtain c1 where w: "write_block ctx blk = Inr (0, c1)" "writer_ok c1" "wpart c1 = wpart ctx"
      "wbuffer c1 = []" "on_flash c1 = on_flash ctx @ blk" "blocks_left ctx = Suc (blocks_left c1)"
      "same_env (wdev ctx) (wdev c1)"
      using write_block_clean[OF less.prems(1) lb(1)] less.prems(2) by auto
    have ap: "appends blk ctx c1"
      using w less.prems(2) lb by (simp add: appends_def written_def room_def algebra_simps)
    have sp: "data = blk @ drop (nat ?es) data" by (simp add: blk_def)
    have eq: "write_direct ctx data = write_direct c1 (drop (nat ?es) data)"
      using True less.prems(2) w by (subst write_direct.simps) (simp add: blk_def)
    have rm: "int (length (drop (nat ?es) data)) \<le> room c1"
      using ap less.prems(3) lb True by (auto simp: appends_def)
    have "length (drop (nat ?es) data) < length data" using True es by auto
    from less.hyps[OF this w(2,4) rm] obtain c2 pre post where
      r: "write_direct c1 (drop (nat ?es) data) = Some (Inr (True, c2, post))" "drop (nat ?es) data = pre @ post"
        "wbuffer c2 = []" "appends pre c1 c2" "int (length post) < erase_size (wpart c1)" by blast
    have "appends (blk @ pre) ctx c2" using appends_trans[OF ap r(4)] .
    moreover have "data = (blk @ pre) @ post" using sp r(2) by simp
    ultimately show ?thesis using eq r w(3) by auto
  qed
qed

lemma write_full_ok:
  assumes "writer_ok ctx" "int (length (wbuffer ctx)) \<le> erase_size (wpart ctx)" "0 \<le> room ctx"
  shows "\<exists>ctx'. write_full ctx = Inr (True, ctx') \<and> appends [] ctx ctx'
    \<and> int (length (wbuffer ctx')) < erase_size (wpart ctx)
    \<and> (int (length (wbuffer ctx)) < erase_size (wpart ctx) \<longrightarrow> ctx' = ctx)
    \<and> (int (length (wbuffer ctx)) = erase_size (wpart ctx) \<longrightarrow> wbuffer ctx' = [])"
proof (cases "int (length (wbuffer ctx)) = erase_size (wpart ctx)")
  case False
  then show ?thesis using assms appends_refl by (auto simp: write_full_def)
next
  case True
  have es: "0 < erase_size (wpart ctx)" using assms(1) by (simp add: writer_ok_def geom_def)
  then have "blocks_left ctx \<noteq> 0" using free_if_room[of 0 ctx] assms True by linarith
  then obtain c1 where w: "write_block ctx (wbuffer ctx) = Inr (0, c1)" "writer_ok c1" "wpart c1 = wpart ctx"
      "wbuffer c1 = wbuffer ctx" "on_flash c1 = on_flash ctx @ wbuffer ctx" "blocks_left ctx = Suc (blocks_left c1)"
      "same_env (wdev ctx) (wdev c1)"
    using write_block_clean[OF assms(1) True] by auto
  define c2 where "c2 = c1\<lparr> wbuffer := [] \<rparr>"
  have "appends [] ctx c2"
    using w True by (simp add: appends_def written_def room_def c2_def algebra_simps writer_ok_def on_flash_def blocks_left_def)
  then show ?thesis using True w(1) es by (simp add: write_full_def c2_def)
qed

lemma write_fill_ok:
  assumes ok: "writer_ok ctx" "int (length (wbuffer ctx)) < erase_size (wpart ctx)" and ne: "data \<noteq> []"
    and f: "write_fill ctx data = (ctx', post)"
  shows "\<exists>pre. data = pre @ post \<and> appends pre ctx ctx' \<and> wdev ctx' = wdev ctx
    \<and> int (length (wbuffer ctx')) \<le> erase_size (wpart ctx)
    \<and> (post = [] \<or> int (length (wbuffer ctx')) = erase_size (wpart ctx) \<or>
        pre = [] \<and> wbuffer ctx' = [] \<and> int (length post) \<ge> erase_size (wpart ctx))
    \<and> (pre = [] \<longrightarrow> wbuffer ctx' = [] \<and> int (length post) \<ge> erase_size (wpart ctx))"
proof (cases "wbuffer ctx \<noteq> [] \<or> int (length data) < erase_size (wpart ctx)")
  case False
  then show ?thesis using f ok appends_refl[OF ok(1)] by (auto simp: write_fill_def)
next
  case True
  define av where "av = erase_size (wpart ctx) - int (length (wbuffer ctx))"
  define cp where "cp = (if int (length data) < av then int (length data) else av)"
  have e: "ctx' = ctx\<lparr> wbuffer := wbuffer ctx @ take (nat cp) data \<rparr>" "post = drop (nat cp) data"
    using f True by (auto simp: write_fill_def Let_def av_def cp_def)
  have cp: "0 < cp" "cp \<le> av" "cp \<le> int (length data)" "cp < int (length data) \<Longrightarrow> cp = av"
    using ok(2) ne by (auto simp: cp_def av_def)
  have lt: "length (take (nat cp) data) = nat cp" using cp by simp
  have "appends (take (nat cp) data) ctx ctx'"
    using ok(1) lt cp by (simp add: appends_def e written_def room_def writer_ok_def on_flash_def blocks_left_def)
  moreover have "take (nat cp) data \<noteq> []" using lt cp(1) by auto
  moreover have "post = [] \<or> int (length (wbuffer ctx')) = erase_size (wpart ctx)"
  proof (cases "cp < int (length data)")
    case True
    then show ?thesis using cp lt by (simp add: e av_def)
  next
    case False
    then have "nat cp = length data" using cp(3) by simp
    then show ?thesis by (simp add: e)
  qed
  ultimately show ?thesis using cp lt by (intro exI[of _ "take (nat cp) data"]) (auto simp: e av_def)
qed

lemma write_data_loop_ok:
  assumes "writer_ok ctx" "int (length (wbuffer ctx)) < erase_size (wpart ctx)" "int (length data) \<le> room ctx"
  shows "\<exists>ctx'. write_data_loop ctx data = Some (Inr (True, ctx')) \<and> appends data ctx ctx'
    \<and> int (length (wbuffer ctx')) < erase_size (wpart ctx')"
  using assms
proof (induction "length data" arbitrary: ctx data rule: less_induct)
  case less
  show ?case
  proof (cases "data = []")
    case True
    then show ?thesis using less.prems appends_refl by (subst write_data_loop.simps) auto
  next
    case False
    obtain c1 d1 where f: "write_fill ctx data = (c1, d1)" by fastforce
    obtain pre where pre: "data = pre @ d1" "appends pre ctx c1"
      "int (length (wbuffer c1)) \<le> erase_size (wpart ctx)"
      "d1 = [] \<or> int (length (wbuffer c1)) = erase_size (wpart ctx) \<or>
        pre = [] \<and> wbuffer c1 = [] \<and> int (length d1) \<ge> erase_size (wpart ctx)"
      "pre = [] \<longrightarrow> wbuffer c1 = [] \<and> int (length d1) \<ge> erase_size (wpart ctx)"
      using write_fill_ok[OF less.prems(1,2) False f] by blast
    have p1: "wpart c1 = wpart ctx" "writer_ok c1" "room c1 = room ctx - int (length pre)"
      using pre(2) by (auto simp: appends_def)
    obtain c2 where w2: "write_full c1 = Inr (True, c2)" "appends [] c1 c2"
      "int (length (wbuffer c2)) < erase_size (wpart ctx)"
      "int (length (wbuffer c1)) < erase_size (wpart ctx) \<Longrightarrow> c2 = c1"
      "int (length (wbuffer c1)) = erase_size (wpart ctx) \<Longrightarrow> wbuffer c2 = []"
      using write_full_ok[OF p1(2)] pre(1,3) less.prems(3) p1 by auto
    have p2: "wpart c2 = wpart ctx" "writer_ok c2" "room c2 = room ctx - int (length pre)"
      using w2(2) p1 by (auto simp: appends_def)
    show ?thesis
    proof (cases "d1 = []")
      case True
      have "write_direct c2 [] = Some (Inr (True, c2, []))"
        using p2(1,2) by (subst write_direct.simps) (auto simp: writer_ok_def geom_def)
      then have "write_data_loop ctx data = Some (Inr (True, c2))"
        using False f True w2(1)
        by (subst write_data_loop.simps) (simp, subst write_data_loop.simps, simp)
      then show ?thesis
        using appends_trans[OF pre(2) w2(2)] pre(1) True w2(3) p2(1) by auto
    next
      case d1: False
      have b2: "wbuffer c2 = []"
      proof (cases "int (length (wbuffer c1)) = erase_size (wpart ctx)")
        case True
        then show ?thesis by (rule w2(5))
      next
        case False
        then have "wbuffer c1 = []" using pre(4) d1 by blast
        then show ?thesis using w2(4) less.prems(1) by (auto simp: writer_ok_def geom_def)
      qed
      obtain c3 q post where w3: "write_direct c2 d1 = Some (Inr (True, c3, post))" "d1 = q @ post"
        "wbuffer c3 = []" "appends q c2 c3" "int (length post) < erase_size (wpart c2)"
        using write_direct_ok[OF p2(2) b2, of d1] less.prems(3) pre(1) p2(3) by auto
      have eq: "write_data_loop ctx data = write_data_loop c3 post"
        using False f w2(1) w3(1) by (subst write_data_loop.simps) simp
      have a: "appends (pre @ q) ctx c3"
        using appends_trans[OF appends_trans[OF pre(2) w2(2)] w3(4)] by simp
      have "pre @ q \<noteq> []"
        using pre(5) w3(2,5) p2(1) by auto
      then have "length post < length data" using pre(1) w3(2) by auto
      then have "\<exists>ctx'. write_data_loop c3 post = Some (Inr (True, ctx')) \<and> appends post c3 ctx'
          \<and> int (length (wbuffer ctx')) < erase_size (wpart ctx')"
        using a w3(3) less.prems(1,3) pre(1) w3(2)
        by (intro less.hyps) (auto simp: appends_def writer_ok_def geom_def)
      then show ?thesis
        unfolding eq using appends_trans[OF a] pre(1) w3(2) by auto
    qed
  qed
qed

lemma mtd_write_data_ok:
  assumes "writer_ok ctx" "int (length (wbuffer ctx)) < erase_size (wpart ctx)" "int (length data) \<le> room ctx"
  shows "\<exists>ctx'. mtd_write_data ctx data = Inr (int (length data), ctx') \<and> appends data ctx ctx'
    \<and> int (length (wbuffer ctx')) < erase_size (wpart ctx')"
  using write_data_loop_ok[OF assms] by (auto simp: mtd_write_data_def)

section \<open>Closing a writer and reading back\<close>

lemma write_pending_ok:
  assumes "writer_ok ctx" "int (length (wbuffer ctx)) < erase_size (wpart ctx)" "0 \<le> room ctx"
  shows "\<exists>ctx' z. write_pending ctx = Inr (True, ctx') \<and> writer_ok ctx' \<and> wpart ctx' = wpart ctx
    \<and> on_flash ctx' = written ctx @ z \<and> same_env (wdev ctx) (wdev ctx')"
proof (cases "wbuffer ctx = []")
  case True
  then show ?thesis using assms(1) by (auto simp: write_pending_def written_def)
next
  case False
  define z where "z = replicate (nat (erase_size (wpart ctx) - int (length (wbuffer ctx)))) (0 :: u8)"
  have l: "int (length (wbuffer ctx @ z)) = erase_size (wpart ctx)" using assms(2) by (simp add: z_def)
  have "blocks_left ctx \<noteq> 0" using free_if_room[of 0 ctx] assms(3) False by simp
  then obtain c1 where w: "write_block ctx (wbuffer ctx @ z) = Inr (0, c1)" "writer_ok c1" "wpart c1 = wpart ctx"
      "on_flash c1 = on_flash ctx @ wbuffer ctx @ z" "same_env (wdev ctx) (wdev c1)"
    using write_block_clean[OF assms(1) l] by auto
  have "write_pending ctx = Inr (True, c1\<lparr> wbuffer := [] \<rparr>)"
    using False w(1) by (simp add: write_pending_def z_def)
  moreover have "writer_ok (c1\<lparr> wbuffer := [] \<rparr>)" using w(2) by (simp add: writer_ok_def)
  ultimately show ?thesis using w by (auto simp: written_def on_flash_def)
qed

lemma like_tick: "like d (tick d)"
  by (simp add: like_def same_env_def tick_def)

lemma mtd_write_close_ok:
  assumes "writer_ok ctx" "int (length (wbuffer ctx)) < erase_size (wpart ctx)" "0 \<le> room ctx"
  shows "\<exists>d z. mtd_write_close ctx True = Inr (0, d) \<and> same_env (wdev ctx) d
    \<and> stream (wpart ctx) d 0 = written ctx @ z"
proof -
  obtain c1 z where w: "write_pending ctx = Inr (True, c1)" "writer_ok c1" "wpart c1 = wpart ctx"
    "on_flash c1 = written ctx @ z" "same_env (wdev ctx) (wdev c1)"
    using write_pending_ok[OF assms] by blast
  define es where "es = erase_size (wpart ctx)"
  define sz where "sz = psize (wpart ctx)"
  define pos where "pos = fpos (wdev c1)"
  have ok: "clean (wdev c1)" "0 \<le> pos" "pos \<le> sz" "0 < es" "sz < 2 ^ 31" "es dvd pos"
    using w(2,3) by (auto simp: writer_ok_def geom_def es_def sz_def pos_def)
  have m: "(sz - pos) mod 2 ^ 32 = sz - pos" using ok by simp
  have "0 \<le> (sz - pos) div es" using ok by (simp add: pos_imp_zdiv_nonneg_iff)
  moreover have "(sz - pos) div es \<le> sz - pos" using ok zdiv_mono2[of "sz - pos" 1 es] by simp
  ultimately have tot: "\<not> 0 > s32 ((sz - pos) mod 2 ^ 32 div es)"
    unfolding m using ok by (simp add: s32_id)
  have e: "mtd_erase_blocks ctx 0 = Inr (pos, c1\<lparr> wdev := tick (wdev c1) \<rparr>)"
    using ok tot w(1,3)
    by (simp add: mtd_erase_blocks_def lseek_cur_def clean_def Let_def es_def [symmetric] sz_def [symmetric]
        pos_def [symmetric] tick_def)
  have "stream (wpart ctx) (tick (wdev c1)) 0
      = on_flash c1 @ stream (wpart ctx) (tick (wdev c1)) pos"
    using goods_append[of 0 pos sz es "badb (wdev c1)"] ok like_stream[OF like_tick, of "wpart ctx" "wdev c1"]
    by (simp add: stream_def on_flash_def w(3) es_def [symmetric] sz_def [symmetric] pos_def [symmetric])
  then have "stream (wpart ctx) (tick (wdev c1)) 0 = written ctx @ (z @ stream (wpart ctx) (tick (wdev c1)) pos)"
    using w(4) by simp
  moreover have "same_env (wdev ctx) (tick (wdev c1))" using w(5) by (simp add: same_env_def tick_def)
  moreover have "mtd_write_close ctx True = Inr (0, tick (wdev c1))" using e ok(2) by (simp add: mtd_write_close_def)
  ultimately show ?thesis by blast
qed

lemma goods_length: "0 < es \<Longrightarrow> int (length (goods bad es sz pos)) * es \<le> max 0 (sz - pos)"
proof (induction bad es sz pos rule: goods.induct)
  case (1 bad es sz pos)
  then show ?case using goods.simps[of bad es sz pos] by (auto simp: algebra_simps split: if_splits)
qed

lemma mtd_read_data_ok:
  assumes "reader_ok ctx" "0 \<le> len" "len \<le> int (length (pending ctx))" "len < 2 ^ 31"
  shows "\<exists>ctx'. mtd_read_data ctx len = Inr (Some (take (nat len) (pending ctx)), ctx')
    \<and> reader_ok ctx' \<and> pending ctx' = drop (nat len) (pending ctx)"
  using read_loop_ok[OF assms(1), of len "[]"] assms(2-4) by (auto simp: mtd_read_data_def)

section \<open>Properties of reading and writing\<close>


lemma sample_goods: "goods (badb sample_chip) 2 6 0 = [0, 4]"
  by code_simp


text \<open>
  C30: Whatever fails, \<open>write_block\<close> returns, and a block it reports as written holds the
  data: it was read back from the device and compared. The data is in the first
  block from the file position on that verified, every block skipped before it is
  recorded in \<open>bad_block_offsets\<close>, nothing before the position changed, and the file
  position is just behind the block.
\<close>

theorem write_block_verified:
  assumes "geom (wpart ctx)" "0 \<le> fpos (wdev ctx)" "fpos (wdev ctx) \<le> psize (wpart ctx)"
    and "int (length data) = erase_size (wpart ctx)"
  shows "\<exists>r ctx'. write_block ctx data = Inr (r, ctx') \<and>
    take (nat (fpos (wdev ctx))) (cells (wdev ctx')) = take (nat (fpos (wdev ctx))) (cells (wdev ctx)) \<and>
    (r = 0 \<longrightarrow> (\<exists>k. let p = fpos (wdev ctx) + int k * erase_size (wpart ctx) in
       block_at (wdev ctx') (erase_size (wpart ctx)) p = data \<and>
       fpos (wdev ctx') = p + erase_size (wpart ctx) \<and> p + erase_size (wpart ctx) \<le> psize (wpart ctx) \<and>
       bad_block_offsets ctx' =
         bad_block_offsets ctx @ map (\<lambda>i. fpos (wdev ctx) + int i * erase_size (wpart ctx)) [0..<k]))"
  using write_block_spec[OF assms] unfolding wrote_at_def keeps_def Let_def by blast

theorem write_block_verified_witness:
  "\<exists>r ctx'. write_block \<lparr> wpart = sample_part, wbuffer = [], bad_block_offsets = [], bad_block_alloc = 0,
        wdev = sample_chip\<lparr> fpos := 2 \<rparr> \<rparr> [5, 6] = Inr (r, ctx') \<and> take 2 (cells (wdev ctx')) = [0, 0]"
  using write_block_verified[of "\<lparr> wpart = sample_part, wbuffer = [], bad_block_offsets = [],
      bad_block_alloc = 0, wdev = sample_chip\<lparr> fpos := 2 \<rparr> \<rparr>" "[5, 6]"]
  by (auto simp: sample_part_def sample_chip_def geom_def numeral_2_eq_2)

section \<open>Limits of the bad block handling\<close>

text \<open>
  A chip that does not support the query for bad blocks can be written but not read:
  only the writer exempts \<open>EOPNOTSUPP\<close>.
\<close>

lemma read_block_loop_unsupported:
  assumes "read_block_loop es sz pos before d = Some (r, d')"
  shows "(\<forall>p. badb d p \<noteq> 0) \<longrightarrow> r = None"
  using assms
proof (induction es sz pos before d "(r, d')" rule: read_block_loop.raw_induct[rotated 1, consumes 1, case_names step])
  case (step loop es sz pos before d)
  show ?case
  proof
    assume bad: "\<forall>p. badb d p \<noteq> 0"
    then have b: "badb (tick d) p \<noteq> 0" "badb (tick (tick d)) p \<noteq> 0" "badb ((tick d)\<lparr> fpos := f \<rparr>) p \<noteq> 0" for p f
      by (auto simp: tick_def)
    show "r = None"
      using step(2) step(1) bad
      by (auto simp: lseek_set_def dev_read_def ECCGETSTATS_def tick_def split: if_splits)
  qed
qed

theorem unsupported_bad_block_query_blocks_reading:
  "(\<forall>p. badb d p \<noteq> 0) \<Longrightarrow> read_block part d = Inr (r, d') \<Longrightarrow> r = None"
  using read_block_loop_unsupported
  by (fastforce simp: read_block_def ECCGETSTATS_def lseek_cur_def tick_def split: if_splits)

theorem skipped_block_is_read_back:
  "(case mtd_write_data \<lparr> wpart = weak_part, wbuffer = [], bad_block_offsets = [], bad_block_alloc = 0,
      wdev = weak_chip \<rparr> [7, 8] of
      Inl _ \<Rightarrow> False
    | Inr (n, ctx) \<Rightarrow>
        n = 2 \<and> (case mtd_read_data \<lparr> rpart = weak_part, rbuffer = [0, 0], consumed = 2,
                    rdev = (wdev ctx)\<lparr> fpos := 0 \<rparr> \<rparr> 2 of
                   Inl _ \<Rightarrow> False | Inr (r, _) \<Rightarrow> r = Some [0xFF, 0xFF]))"
  by code_simp

section \<open>Scanning the partition table\<close>

lemma scan_int_number:
  assumes "ds \<noteq> []" "list_all (is_digit r) ds" "\<not> is_digit r c" "c \<noteq> CHR ''x''" "c \<noteq> CHR ''X''"
  shows "scan_int r (ds @ c # s) = Some (s32 (digits_val r ds), c # s)"
proof -
  obtain d ds' where ds: "ds = d # ds'" using assms(1) by (cases ds) auto
  have d: "is_digit r d" "list_all (is_digit r) ds'" using assms(2) ds by auto
  note nd = is_digit_other[OF d(1)]
  have sp: "dropWhile is_space (ds @ c # s) = ds @ c # s" using nd(1) by (simp add: ds)
  have sg: "scan_sign (ds @ c # s) = (False, ds @ c # s)" using nd(2,3) by (simp add: ds scan_sign_def)
  have "(ds @ c # s) ! 1 \<noteq> CHR ''x'' \<and> (ds @ c # s) ! 1 \<noteq> CHR ''X''"
  proof (cases ds')
    case Nil
    then show ?thesis using assms(4,5) by (simp add: ds)
  next
    case (Cons e es)
    then show ?thesis using d(2) is_digit_other[of r e] by (simp add: ds)
  qed
  then have sk: "skip_0x r (ds @ c # s) = ds @ c # s" by (simp add: skip_0x_def)
  have tw: "takeWhile (is_digit r) (ds @ c # s) = ds" "dropWhile (is_digit r) (ds @ c # s) = c # s"
    using assms(2,3) by (auto simp: takeWhile_append2 dropWhile_append2 list_all_iff)
  show ?thesis unfolding scan_int_def sp sg prod.case sk Let_def tw using assms(1) by simp
qed

lemma scan_lit_char: "\<not> is_space c \<Longrightarrow> scan_lit (c # cs) (c # s) = scan_lit cs s"
  by simp

lemma not_space_head: "list_all (is_digit r) ds \<Longrightarrow> ds \<noteq> [] \<Longrightarrow> dropWhile is_space (ds @ s) = ds @ s"
  by (cases ds) (auto dest: is_digit_other)

lemma spaces: "is_space (CHR '' '')" "\<not> is_space (CHR ''m'')" "\<not> is_space (CHR ''t'')" "\<not> is_space (CHR ''d'')"
  "\<not> is_space (CHR '':'')" "\<not> is_space (CHR 0x22)"
  "\<not> is_digit r (CHR '' '')" "\<not> is_digit r (CHR '':'')" "\<not> is_digit r (CHR 0x0A)"
  by (simp_all add: is_space_def is_digit_def digit_val_other)

lemma sscanf_line:
  assumes "line_ok (n, sz, es, name)"
  shows "sscanf_mtd (mtd_line (n, sz, es, name) @ rest)
    = Some (s32 (digits_val 10 n), s32 (digits_val 16 sz), s32 (digits_val 16 es), name)"
proof -
  have n: "n \<noteq> []" "list_all (is_digit 10) n" and z: "sz \<noteq> []" "list_all (is_digit 16) sz"
    and e: "es \<noteq> []" "list_all (is_digit 16) es"
    and nm: "name \<noteq> []" "length name \<le> 63" "CHR 0x22 \<notin> set name"
    using assms by (auto simp: line_ok_def number_ok_def)
  have tw: "takeWhile (\<lambda>c. c \<noteq> CHR 0x22) (name @ CHR 0x22 # s) = name" for s
    using nm(3) by (subst takeWhile_append2) auto
  have sn: "scan_name (name @ CHR 0x22 # s) = Some (name, CHR 0x22 # s)" for s
    unfolding scan_name_def tw using nm by (simp add: Let_def)
  show ?thesis
    unfolding sscanf_mtd_def mtd_line_def
    by (simp add: spaces scan_int_number[OF n] scan_int_number[OF z] scan_int_number[OF e]
        not_space_head[OF z(2,1)] not_space_head[OF e(2,1)] sn)
qed

lemma eat_line_line:
  assumes "line_ok l"
  shows "eat_line (mtd_line l @ rest) = rest"
proof -
  obtain n sz es name where l: "l = (n, sz, es, name)" by (metis prod_cases4)
  have "CHR 0x0A \<notin> set n" "CHR 0x0A \<notin> set sz" "CHR 0x0A \<notin> set es" "CHR 0x0A \<notin> set name"
    using assms by (auto simp: l line_ok_def number_ok_def list_all_iff spaces dest!: bspec)
  then have "dropWhile (\<lambda>c. c \<noteq> CHR 0x0A)
      ((''mtd'' @ n @ '': '' @ sz @ '' '' @ es @ '' '' @ [CHR 0x22] @ name @ [CHR 0x22]) @ CHR 0x0A # rest) = CHR 0x0A # rest"
    by (subst dropWhile_append2) auto
  then show ?thesis by (simp add: l mtd_line_def eat_line_def)
qed

lemma parse_lines:
  assumes "list_all line_ok ls" "length ps = 32"
  shows "parse_mtd (concat (map mtd_line ls)) ps k
    = Inr (foldl (\<lambda>ps l. ps[nat (device_index (line_part l)) := line_part l]) ps ls, k + int (length ls))"
  using assms
proof (induction ls arbitrary: ps k)
  case Nil
  then show ?case by (simp add: parse_mtd.simps)
next
  case (Cons l ls)
  obtain n sz es name where l: "l = (n, sz, es, name)" by (metis prod_cases4)
  have ok: "line_ok (n, sz, es, name)" using Cons.prems by (simp add: l)
  have b: "0 \<le> digits_val 10 n" "digits_val 10 n < 32" "0 \<le> digits_val 16 sz" "digits_val 16 sz < 2 ^ 32"
    "0 \<le> digits_val 16 es" "digits_val 16 es < 2 ^ 32"
    using ok digits_val_nonneg by (auto simp: line_ok_def number_ok_def)
  have s: "s32 (digits_val 10 n) = digits_val 10 n" "s32 (digits_val 16 sz) mod 2 ^ 32 = digits_val 16 sz"
    "s32 (digits_val 16 es) mod 2 ^ 32 = digits_val 16 es"
    using b s32_id[of "digits_val 10 n"] s32_mod[of "digits_val 16 sz"] s32_mod[of "digits_val 16 es"] by auto
  define p where "p = line_part l"
  have p: "nat (device_index p) = nat (digits_val 10 n)" by (simp add: p_def l line_part_def)
  have add: "add_partition (s32 (digits_val 10 n), s32 (digits_val 16 sz), s32 (digits_val 16 es), name) ps
      = Inr (ps[nat (device_index p) := p])"
    using b Cons.prems(2) s by (simp add: add_partition_def rd_Inr p_def l line_part_def)
  have ne: "mtd_line l @ concat (map mtd_line ls) \<noteq> []" by (simp add: l mtd_line_def)
  have ss: "sscanf_mtd (mtd_line l @ concat (map mtd_line ls)) =
      Some (s32 (digits_val 10 n), s32 (digits_val 16 sz), s32 (digits_val 16 es), name)"
    unfolding l by (rule sscanf_line[OF ok])
  have el: "eat_line (mtd_line l @ concat (map mtd_line ls)) = concat (map mtd_line ls)"
    by (rule eat_line_line) (use ok in \<open>simp add: l\<close>)
  define t where "t = mtd_line l @ concat (map mtd_line ls)"
  have "parse_mtd t ps k = parse_mtd (concat (map mtd_line ls)) (ps[nat (device_index p) := p]) (k + 1)"
    using parse_mtd.simps[of t ps k] ne ss el add unfolding t_def [symmetric] by simp
  moreover have "concat (map mtd_line (l # ls)) = t" by (simp add: t_def)
  ultimately have "parse_mtd (concat (map mtd_line (l # ls))) ps k =
      parse_mtd (concat (map mtd_line ls)) (ps[nat (device_index p) := p]) (k + 1)" by simp
  then show ?case using Cons.IH[of "ps[nat (device_index p) := p]" "k + 1"] Cons.prems by (simp add: p_def)
qed

lemma parse_heading:
  "parse_mtd (mtd_text ls) ps k = parse_mtd (concat (map mtd_line ls)) ps k"
proof -
  have "sscanf_mtd (mtd_text ls) = None" by (simp add: sscanf_mtd_def mtd_text_def spaces)
  moreover have "eat_line (mtd_text ls) = concat (map mtd_line ls)" by (simp add: eat_line_def mtd_text_def)
  moreover have "mtd_text ls \<noteq> []" by (simp add: mtd_text_def)
  ultimately show ?thesis by (subst parse_mtd.simps) simp
qed

lemma find_unique:
  assumes "x \<in> set xs" "P x" "\<And>y. y \<in> set xs \<Longrightarrow> P y \<Longrightarrow> y = x"
  shows "List.find P xs = Some x"
proof (cases "List.find P xs")
  case None
  then show ?thesis using assms(1,2) by (auto simp: find_None_iff)
next
  case (Some y)
  then have "y \<in> set xs" "P y" by (auto simp: find_Some_iff)
  then show ?thesis using Some assms(3) by simp
qed

lemma foldl_updates_other:
  "i \<notin> key ` set ls \<Longrightarrow> foldl (\<lambda>ps l. ps[key l := f l]) ps ls ! i = ps ! i"
  by (induction ls arbitrary: ps) auto

lemma length_foldl_updates [simp]: "length (foldl (\<lambda>ps l. ps[key l := f l]) ps ls) = length ps"
  by (induction ls arbitrary: ps) auto

lemma foldl_updates_same:
  assumes "distinct (map key ls)" "\<And>l. l \<in> set ls \<Longrightarrow> key l < length ps" "l \<in> set ls"
  shows "foldl (\<lambda>ps l. ps[key l := f l]) ps ls ! key l = f l"
  using assms
proof (induction ls arbitrary: ps)
  case (Cons a ls)
  show ?case
  proof (cases "l \<in> set ls")
    case True
    then show ?thesis using Cons.prems Cons.IH[of "ps[key a := f a]"] by simp
  next
    case False
    then have "l = a" "key a \<notin> key ` set ls" using Cons.prems by auto
    then show ?thesis using foldl_updates_other[of "key a" key ls f "ps[key a := f a]"] Cons.prems(2) by simp
  qed
qed simp

text \<open>
  C31: Scanning \<open>/proc/mtd\<close> and looking up a partition are inverse to the kernel's
  listing: for a listing of well-formed lines with distinct numbers below 32 and
  distinct names (that fits the 2047 bytes the scan reads), the scan succeeds with
  the number of lines, and looking up the name of a line finds exactly the partition
  the line describes; a name that is not listed is not found.
\<close>

theorem mtd_scan_find:
  assumes ok: "list_all line_ok ls" and len: "length (mtd_text ls) \<le> 2047"
    and dn: "distinct (map (\<lambda>l. device_index (line_part l)) ls)" and nm: "distinct (map (\<lambda>l. pname (line_part l)) ls)"
  shows "\<exists>g. mtd_scan_partitions True (Some (mtd_text ls)) g_mtd_state = Inr (int (length ls), g) \<and>
    (\<forall>name. mtd_find_partition_by_name g name =
       List.find (\<lambda>p. pname p = Some name) (map line_part ls))"
proof -
  define blank where "blank = \<lparr> device_index = - 1, psize = 0, erase_size = 0, pname = None \<rparr>"
  define key where "key l = nat (device_index (line_part l))" for l
  define ps where "ps = foldl (\<lambda>ps l. ps[key l := line_part l]) (replicate 32 blank) ls"
  have b: "0 \<le> device_index (line_part l) \<and> device_index (line_part l) < 32" if "l \<in> set ls" for l
  proof -
    obtain n sz es name where l: "l = (n, sz, es, name)" by (metis prod_cases4)
    have "line_ok l" using ok that by (simp add: list_all_iff)
    then show ?thesis using digits_val_nonneg[of 10 n] by (simp add: l line_ok_def number_ok_def line_part_def)
  qed
  have k: "key l < 32" if "l \<in> set ls" for l using b[OF that] by (simp add: key_def nat_less_iff)
  have "inj_on (\<lambda>l. device_index (line_part l)) (set ls)" "distinct ls" using dn by (auto simp: distinct_map)
  then have "inj_on key (set ls)"
    unfolding key_def using b by (auto simp: inj_on_def eq_nat_nat_iff)
  then have dk: "distinct (map key ls)" using \<open>distinct ls\<close> by (simp add: distinct_map)
  have lps: "length ps = 32" by (simp add: ps_def)
  have same: "ps ! key l = line_part l" if "l \<in> set ls" for l
    unfolding ps_def using dk k that by (intro foldl_updates_same) auto
  have other: "ps ! i = blank" if "i < 32" "i \<notin> key ` set ls" for i
    using that foldl_updates_other[of i key ls line_part "replicate 32 blank"] by (simp add: ps_def)
  have scan: "mtd_scan_partitions True (Some (mtd_text ls)) g_mtd_state
      = Inr (int (length ls), \<lparr> partitions = Some ps, partition_count = int (length ls) \<rparr>)"
    using len ok by (simp add: mtd_scan_partitions_def g_mtd_state_def parse_heading parse_lines ps_def
        key_def blank_def map_replicate)
  have listed: "\<exists>l \<in> set ls. p = line_part l" if p: "p \<in> set ps" "device_index p \<ge> 0" for p
  proof -
    obtain i where i: "i < 32" "p = ps ! i" using p(1) lps by (auto simp: in_set_conv_nth)
    have "i \<in> key ` set ls"
    proof (rule ccontr)
      assume "i \<notin> key ` set ls"
      then have "device_index p = - 1" using other[OF i(1)] i(2) by (simp add: blank_def)
      then show False using p(2) by simp
    qed
    then show ?thesis using same i(2) by blast
  qed
  have "List.find (\<lambda>p. device_index p \<ge> 0 \<and> pname p = Some name) ps
      = List.find (\<lambda>p. pname p = Some name) (map line_part ls)" for name
  proof (cases "\<exists>l \<in> set ls. pname (line_part l) = Some name")
    case True
    then obtain l where l: "l \<in> set ls" "pname (line_part l) = Some name" by blast
    have uniq: "l' = l" if "l' \<in> set ls" "pname (line_part l') = Some name" for l'
      using nm l that by (auto simp: distinct_map inj_on_def)
    have "List.find (\<lambda>p. pname p = Some name) (map line_part ls) = Some (line_part l)"
    proof (rule find_unique)
      show "line_part l \<in> set (map line_part ls)" using l(1) by simp
      show "pname (line_part l) = Some name" by (rule l(2))
      fix p assume "p \<in> set (map line_part ls)" "pname p = Some name"
      then obtain l' where "l' \<in> set ls" "p = line_part l'" "pname (line_part l') = Some name" by auto
      then show "p = line_part l" using uniq by simp
    qed
    moreover have "List.find (\<lambda>p. device_index p \<ge> 0 \<and> pname p = Some name) ps = Some (line_part l)"
    proof (rule find_unique)
      show "line_part l \<in> set ps" using same[OF l(1)] k[OF l(1)] lps nth_mem[of "key l" ps] by simp
      show "device_index (line_part l) \<ge> 0 \<and> pname (line_part l) = Some name" using b l by auto
      fix p assume p: "p \<in> set ps" "device_index p \<ge> 0 \<and> pname p = Some name"
      then show "p = line_part l" using listed[of p] uniq by blast
    qed
    ultimately show ?thesis by simp
  next
    case False
    have "\<not> (device_index p \<ge> 0 \<and> pname p = Some name)" if "p \<in> set ps" for p
      using False listed[OF that] by blast
    then have "List.find (\<lambda>p. device_index p \<ge> 0 \<and> pname p = Some name) ps = None"
      by (simp add: find_None_iff)
    moreover have "List.find (\<lambda>p. pname p = Some name) (map line_part ls) = None"
      using False by (simp add: find_None_iff)
    ultimately show ?thesis by simp
  qed
  then show ?thesis using scan by (auto simp: mtd_find_partition_by_name_def)
qed

theorem mtd_scan_find_witness:
  "\<exists>g. mtd_scan_partitions True
      (Some (mtd_text [(''0'', ''00080000'', ''00020000'', ''boot''), (''4'', ''04000000'', ''00020000'', ''system'')]))
      g_mtd_state = Inr (2, g) \<and>
    mtd_find_partition_by_name g ''system'' =
      Some \<lparr> device_index = 4, psize = 0x4000000, erase_size = 0x20000, pname = Some ''system'' \<rparr>"
proof -
  let ?ls = "[(''0'', ''00080000'', ''00020000'', ''boot''), (''4'', ''04000000'', ''00020000'', ''system'')]"
  have "list_all line_ok ?ls" "length (mtd_text ?ls) \<le> 2047"
    "distinct (map (\<lambda>l. device_index (line_part l)) ?ls)" "distinct (map (\<lambda>l. pname (line_part l)) ?ls)"
    by code_simp+
  from mtd_scan_find[OF this] obtain g where g: "mtd_scan_partitions True (Some (mtd_text ?ls)) g_mtd_state = Inr (2, g)"
    "mtd_find_partition_by_name g ''system'' = List.find (\<lambda>p. pname p = Some ''system'') (map line_part ?ls)"
    by auto
  moreover have "List.find (\<lambda>p. pname p = Some ''system'') (map line_part ?ls) =
      Some \<lparr> device_index = 4, psize = 0x4000000, erase_size = 0x20000, pname = Some ''system'' \<rparr>"
    by code_simp
  ultimately show ?thesis by auto
qed

text \<open>A partition number of 32 or more is written outside of the table of 32 entries.\<close>

theorem mtd_scan_overruns_table:
  "mtd_scan_partitions True (Some (mtd_text [(''32'', ''00080000'', ''00020000'', ''extra'')])) g_mtd_state
   = Inl OutOfBounds"
proof -
  define t where "t = mtd_line (''32'', ''00080000'', ''00020000'', ''extra'')"
  have s: "sscanf_mtd t = Some (32, 0x80000, 0x20000, ''extra'')" "t \<noteq> []"
    unfolding t_def by code_simp+
  have "parse_mtd t ps 0 = Inl OutOfBounds" if "length ps = 32" for ps
    using that s parse_mtd.simps[of t ps 0] by (simp add: add_partition_def rd_def)
  moreover have "take 2047 (mtd_text [(''32'', ''00080000'', ''00020000'', ''extra'')])
      = mtd_text [(''32'', ''00080000'', ''00020000'', ''extra'')]"
    by code_simp
  moreover have "concat (map mtd_line [(''32'', ''00080000'', ''00020000'', ''extra'')]) = t" by (simp add: t_def)
  ultimately show ?thesis
    by (simp add: mtd_scan_partitions_def g_mtd_state_def parse_heading)
qed

end
