(* ===== verification/C_Library.thy ===== *)
theory C_Library
  imports Prelude
begin

text \<open>
  The functions of the C library that several components call: comparison and search
  of strings, conversion of decimal numbers, and sorting and binary search by a
  comparison function. The contract of a comparison function is a locale; sorting and
  searching are proved correct for every comparison function that meets it.
\<close>

section \<open>Strings\<close>

text \<open>\<open>strcmp\<close> promises a sign only; a proper prefix is the smaller string.\<close>

fun strcmp :: "string \<Rightarrow> string \<Rightarrow> int" where
  "strcmp [] [] = 0"
| "strcmp [] (b # _) = - 1"
| "strcmp (a # _) [] = 1"
| "strcmp (a # as) (b # bs) = (if a = b then strcmp as bs else of_char a - of_char b)"

fun strstr :: "string \<Rightarrow> string \<Rightarrow> bool" where
  "strstr [] needle \<longleftrightarrow> needle = []"
| "strstr (c # cs) needle \<longleftrightarrow> take (length needle) (c # cs) = needle \<or> strstr cs needle"

text \<open>
  \<open>strtol(s, &end, 10)\<close> with a 32-bit \<open>long\<close>: the value, saturated at the ends of the
  type, and the rest of the string that \<open>end\<close> points to. Without a digit nothing is
  consumed.
\<close>

definition clamp32 :: "int \<Rightarrow> int" where
  "clamp32 x = (if x < - (2 ^ 31) then - (2 ^ 31) else if x \<ge> 2 ^ 31 then 2 ^ 31 - 1 else x)"

definition strtol :: "string \<Rightarrow> int \<times> string" where
  "strtol s =
     (case scan_sign (dropWhile is_space s) of (neg, t) \<Rightarrow>
        let ds = takeWhile (is_digit 10) t in
        if ds = [] then (0, s)
        else (clamp32 (if neg then - digits_val 10 ds else digits_val 10 ds),
              dropWhile (is_digit 10) t))"

section \<open>Sorting and searching\<close>

primrec qinsert :: "('a \<Rightarrow> 'a \<Rightarrow> int) \<Rightarrow> 'a \<Rightarrow> 'a list \<Rightarrow> 'a list" where
  "qinsert cmp x [] = [x]"
| "qinsert cmp x (y # ys) = (if cmp x y \<le> 0 then x # y # ys else y # qinsert cmp x ys)"

definition qsort :: "('a \<Rightarrow> 'a \<Rightarrow> int) \<Rightarrow> 'a list \<Rightarrow> 'a list" where
  "qsort cmp xs = foldr (qinsert cmp) xs []"

function bsearch_in :: "('a \<Rightarrow> 'a \<Rightarrow> int) \<Rightarrow> 'a \<Rightarrow> 'a list \<Rightarrow> nat \<Rightarrow> nat \<Rightarrow> nat option" where
  "bsearch_in cmp k xs lo hi =
     (if lo < hi then
        let m = (lo + hi) div 2; c = cmp k (xs ! m) in
        if c = 0 then Some m
        else if c < 0 then bsearch_in cmp k xs lo m
        else bsearch_in cmp k xs (Suc m) hi
      else None)"
  by pat_completeness auto

termination by (relation "measure (\<lambda>(_, _, _, lo, hi). hi - lo)") auto

declare bsearch_in.simps [simp del]

definition bsearch :: "('a \<Rightarrow> 'a \<Rightarrow> int) \<Rightarrow> 'a \<Rightarrow> 'a list \<Rightarrow> nat option" where
  "bsearch cmp k xs = bsearch_in cmp k xs 0 (length xs)"

section \<open>The contract of a comparison function\<close>

locale comparison_function =
  fixes cmp :: "'a \<Rightarrow> 'a \<Rightarrow> int"
  assumes cmp_flip: "sgn (cmp a b) = - sgn (cmp b a)"
    and cmp_trans: "cmp a b \<le> 0 \<Longrightarrow> cmp b c \<le> 0 \<Longrightarrow> cmp a c \<le> 0"
begin

lemma cmp_total: "cmp a b \<le> 0 \<or> cmp b a \<le> 0"
  using cmp_flip[of a b] by (auto simp: sgn_if split: if_splits)

lemma cmp_neg: "cmp a b < 0 \<longleftrightarrow> 0 < cmp b a"
  using cmp_flip[of a b] by (auto simp: sgn_if split: if_splits)

lemma cmp_strict_trans: "cmp a b < 0 \<Longrightarrow> cmp b c \<le> 0 \<Longrightarrow> cmp a c < 0"
proof (rule ccontr)
  assume a: "cmp a b < 0" "cmp b c \<le> 0" "\<not> cmp a c < 0"
  then have "cmp c a \<le> 0" using cmp_neg[of a c] cmp_flip[of a c] by (auto simp: sgn_if split: if_splits)
  then have "cmp b a \<le> 0" using a cmp_trans by blast
  then show False using a cmp_neg[of a b] by simp
qed

lemma mset_qinsert: "mset (qinsert cmp x xs) = add_mset x (mset xs)"
  by (induction xs) auto

lemma mset_qsort: "mset (qsort cmp xs) = mset xs"
  by (induction xs) (auto simp: qsort_def mset_qinsert)

lemma set_qsort: "set (qsort cmp xs) = set xs"
  using mset_qsort set_mset_mset by metis

lemma set_qinsert: "set (qinsert cmp x xs) = insert x (set xs)"
  by (induction xs) auto

lemma qinsert_sorted:
  "sorted_wrt (\<lambda>a b. cmp a b \<le> 0) xs \<Longrightarrow> sorted_wrt (\<lambda>a b. cmp a b \<le> 0) (qinsert cmp x xs)"
proof (induction xs)
  case (Cons y ys)
  then show ?case
    using cmp_total[of x y] cmp_trans[of x y] by (cases "cmp x y \<le> 0") (simp_all add: set_qinsert)
qed simp

lemma qsort_sorted: "sorted_wrt (\<lambda>a b. cmp a b \<le> 0) (qsort cmp xs)"
  by (induction xs) (auto simp: qsort_def qinsert_sorted)

lemma bsearch_in_found:
  "bsearch_in cmp k xs lo hi = Some m \<Longrightarrow> lo \<le> m \<and> m < hi \<and> cmp k (xs ! m) = 0"
proof (induction "hi - lo" arbitrary: lo hi rule: less_induct)
  case less
  define mid where "mid = (lo + hi) div 2"
  have lt: "lo < hi" using less.prems bsearch_in.simps[of cmp k xs lo hi] by (simp split: if_splits)
  have mid: "lo \<le> mid" "mid < hi" using lt by (auto simp: mid_def)
  consider "cmp k (xs ! mid) = 0" | "cmp k (xs ! mid) < 0" | "cmp k (xs ! mid) > 0" by linarith
  then show ?case
  proof cases
    case 1
    then show ?thesis
      using less.prems lt mid bsearch_in.simps[of cmp k xs lo hi] by (simp add: Let_def flip: mid_def)
  next
    case 2
    then have "bsearch_in cmp k xs lo mid = Some m"
      using less.prems lt bsearch_in.simps[of cmp k xs lo hi] by (simp add: Let_def flip: mid_def)
    then have "lo \<le> m \<and> m < mid \<and> cmp k (xs ! m) = 0" using less.hyps[of mid lo] mid by simp
    then show ?thesis using mid by simp
  next
    case 3
    then have "bsearch_in cmp k xs (Suc mid) hi = Some m"
      using less.prems lt bsearch_in.simps[of cmp k xs lo hi] by (simp add: Let_def flip: mid_def)
    then have "Suc mid \<le> m \<and> m < hi \<and> cmp k (xs ! m) = 0"
      using less.hyps[of hi "Suc mid"] mid by simp
    then show ?thesis using mid by simp
  qed
qed

lemma bsearch_in_missing:
  assumes "sorted_wrt (\<lambda>a b. cmp a b \<le> 0) xs" "hi \<le> length xs"
    and "bsearch_in cmp k xs lo hi = None" "lo \<le> i" "i < hi"
  shows "cmp k (xs ! i) \<noteq> 0"
  using assms(2-)
proof (induction "hi - lo" arbitrary: lo hi rule: less_induct)
  case less
  define mid where "mid = (lo + hi) div 2"
  have lt: "lo < hi" using less.prems by simp
  have mid: "lo \<le> mid" "mid < hi" using lt by (auto simp: mid_def)
  have ne: "cmp k (xs ! mid) \<noteq> 0"
    using less.prems(2) lt bsearch_in.simps[of cmp k xs lo hi] by (auto simp: Let_def simp flip: mid_def)
  show ?case
  proof (cases "cmp k (xs ! mid) < 0")
    case True
    then have left: "bsearch_in cmp k xs lo mid = None"
      using less.prems(2) lt ne bsearch_in.simps[of cmp k xs lo hi] by (simp add: Let_def flip: mid_def)
    show ?thesis
    proof (cases "i < mid")
      case True
      then show ?thesis using less.hyps[of mid lo] left mid less.prems by auto
    next
      case False
      have "i = mid \<or> cmp (xs ! mid) (xs ! i) \<le> 0"
        using False less.prems sorted_wrt_nth_less[OF assms(1), of mid i] by (cases "i = mid") auto
      then show ?thesis using True cmp_strict_trans[of k "xs ! mid" "xs ! i"] by auto
    qed
  next
    case False
    then have right: "bsearch_in cmp k xs (Suc mid) hi = None"
      using less.prems(2) lt ne bsearch_in.simps[of cmp k xs lo hi] by (simp add: Let_def flip: mid_def)
    show ?thesis
    proof (cases "mid < i")
      case True
      then show ?thesis using less.hyps[of hi "Suc mid"] right mid less.prems by auto
    next
      case F: False
      have "i = mid \<or> cmp (xs ! i) (xs ! mid) \<le> 0"
        using F less.prems mid sorted_wrt_nth_less[OF assms(1), of i mid] by (cases "i = mid") auto
      moreover have "cmp (xs ! mid) k < 0" using False ne cmp_neg[of "xs ! mid" k] by simp
      ultimately show ?thesis
        using False ne cmp_trans[of k "xs ! i" "xs ! mid"] by (cases "i = mid") auto
    qed
  qed
qed

lemma bsearch_sorted:
  assumes "sorted_wrt (\<lambda>a b. cmp a b \<le> 0) xs"
  shows "case bsearch cmp k xs of
           None \<Rightarrow> \<forall>x \<in> set xs. cmp k x \<noteq> 0
         | Some m \<Rightarrow> m < length xs \<and> cmp k (xs ! m) = 0"
proof (cases "bsearch cmp k xs")
  case None
  then show ?thesis
    using bsearch_in_missing[OF assms, of "length xs" k 0] by (auto simp: bsearch_def in_set_conv_nth)
next
  case (Some m)
  then show ?thesis using bsearch_in_found[of k xs 0 "length xs" m] by (simp add: bsearch_def)
qed

end

section \<open>Comparing strings\<close>

lemma strcmp_eq_0 [simp]: "strcmp a b = 0 \<longleftrightarrow> a = b"
  by (induction a b rule: strcmp.induct) auto

lemma strcmp_flip: "sgn (strcmp a b) = - sgn (strcmp b a)"
proof (induction a b rule: strcmp.induct)
  case (4 a as b bs)
  then show ?case by (cases "a = b") (simp_all add: sgn_if)
qed simp_all

lemma strcmp_trans: "strcmp a b \<le> 0 \<Longrightarrow> strcmp b c \<le> 0 \<Longrightarrow> strcmp a c \<le> 0"
proof (induction a b arbitrary: c rule: strcmp.induct)
  case (1 c)
  then show ?case by simp
next
  case (2 b bs c)
  then show ?case by (cases c) auto
next
  case (3 a as c)
  then show ?case by simp
next
  case (4 a as b bs c)
  show ?case
  proof (cases c)
    case Nil
    then show ?thesis using 4 by simp
  next
    case (Cons d ds)
    have ne: "(of_char x :: int) = of_char y \<longleftrightarrow> x = y" for x y by simp
    consider "a = b" "b = d" | "a = b" "b \<noteq> d" | "a \<noteq> b" "b = d" | "a \<noteq> b" "b \<noteq> d" by blast
    then show ?thesis
    proof cases
      case 1
      then show ?thesis using 4 Cons by auto
    next
      case differ: 4
      have "(of_char a :: int) < of_char b" "(of_char b :: int) < of_char d"
        using 4 differ Cons ne[of a b] ne[of b d] by (simp_all add: less_le)
      then show ?thesis using Cons by auto
    qed (use 4 Cons in auto)
  qed
qed

interpretation strcmp: comparison_function strcmp
  by unfold_locales (rule strcmp_flip, rule strcmp_trans)

section \<open>Searching strings\<close>

lemma strstr_iff: "strstr hay needle \<longleftrightarrow> (\<exists>a b. hay = a @ needle @ b)"
proof (induction hay)
  case (Cons c cs)
  have "take (length needle) (c # cs) = needle \<longleftrightarrow> (\<exists>b. c # cs = needle @ b)"
    by (metis append_eq_conv_conj append_take_drop_id)
  moreover have "(\<exists>a b. c # cs = a @ needle @ b) \<longleftrightarrow>
      (\<exists>b. c # cs = needle @ b) \<or> (\<exists>a b. cs = a @ needle @ b)"
    by (simp only: Cons_eq_append_conv[of c cs _ "needle @ _"] ex_disj_distrib) auto
  ultimately show ?case using Cons.IH by auto
qed auto

section \<open>Decimal numbers\<close>

text \<open>The decimal representation that \<open>printf\<close> gives an integer.\<close>

fun show_nat :: "nat \<Rightarrow> string" where
  "show_nat n = (if n < 10 then [char_of (48 + n)] else show_nat (n div 10) @ [char_of (48 + n mod 10)])"

declare show_nat.simps [simp del]

definition show_int :: "int \<Rightarrow> string" where
  "show_int i = (if i < 0 then CHR ''-'' # show_nat (nat (- i)) else show_nat (nat i))"

lemma digit_char: "d < 10 \<Longrightarrow> digit_val (char_of (48 + d)) = Some (int d)"
proof -
  assume d: "d < 10"
  have "(of_char (char_of (48 + d)) :: int) = int (of_char (char_of (48 + d)))"
    by (simp only: of_nat_of_char)
  also have "\<dots> = 48 + int d" using d by (simp only: of_char_of) simp
  finally show ?thesis using d by (simp add: digit_val_def Let_def)
qed

lemma show_nat_digits: "list_all (is_digit 10) (show_nat n)"
proof (induction n rule: show_nat.induct)
  case (1 n)
  have "is_digit 10 (char_of (48 + m))" if "m < 10" for m :: nat
    using that by (simp add: is_digit_def digit_char)
  then show ?case using 1 by (subst show_nat.simps) auto
qed

lemma show_nat_val: "digits_val 10 (show_nat n) = int n"
proof (induction n rule: show_nat.induct)
  case (1 n)
  have "int (n div 10) * 10 + int (n mod 10) = int n" by presburger
  then show ?case
    using 1 by (subst show_nat.simps) (auto simp: digits_val_def digit_char)
qed

lemma show_nat_ne [simp]: "show_nat n \<noteq> []"
  by (subst show_nat.simps) simp

lemma digit_not_space: "is_digit 10 c \<Longrightarrow> \<not> is_space c \<and> c \<noteq> CHR ''-'' \<and> c \<noteq> CHR ''+''"
  by (auto simp: is_space_def is_digit_def digit_val_def Let_def split: if_splits)

lemma takeWhile_all: "list_all P xs \<Longrightarrow> takeWhile P xs = xs \<and> dropWhile P xs = []"
  by (simp add: list_all_iff)

lemma scan_sign_show:
  "scan_sign (dropWhile is_space (show_int i)) = (i < 0, show_nat (nat \<bar>i\<bar>))"
proof (cases "i < 0")
  case True
  then show ?thesis by (simp add: show_int_def scan_sign_def is_space_def)
next
  case False
  obtain c cs where c: "show_nat (nat i) = c # cs" by (cases "show_nat (nat i)") auto
  then have "is_digit 10 c" using show_nat_digits[of "nat i"] by simp
  then show ?thesis using False c digit_not_space[of c] by (simp add: show_int_def scan_sign_def)
qed

lemma strtol_show_int: "strtol (show_int i) = (clamp32 i, [])"
proof -
  have t: "takeWhile (is_digit 10) (show_nat n) = show_nat n"
    and d: "dropWhile (is_digit 10) (show_nat n) = []" for n
    using takeWhile_all[OF show_nat_digits] by blast+
  show ?thesis by (simp add: strtol_def scan_sign_show show_nat_val Let_def t d)
qed

lemma show_int_ne [simp]: "show_int i \<noteq> []"
  by (simp add: show_int_def)

lemma clamp32_range: "- (2 ^ 31) \<le> clamp32 x \<and> clamp32 x < 2 ^ 31"
  by (simp add: clamp32_def)

lemma clamp32_id: "- (2 ^ 31) \<le> x \<Longrightarrow> x < 2 ^ 31 \<Longrightarrow> clamp32 x = x"
  by (simp add: clamp32_def)

end
