(* ===== verification/Edify.thy ===== *)
theory Edify
  imports C_Library
begin

text \<open>
  The edify script language of the updater (\<open>edify/expr.h\<close>, \<open>edify/expr.c\<close>, \<open>edify/lexer.l\<close>,
  \<open>edify/parser.y\<close>, \<open>edify/yydefs.h\<close>): values and expressions, the evaluator with its builtin
  functions, the table of functions, the lexer and the grammar with its actions. Functions that
  a client registers are a parameter of the evaluator.
\<close>

section \<open>Values, expressions and the state\<close>

datatype Value =
    VString string
  | VBlob int "bytes option"

text \<open>The C functions an expression can point to; \<open>FExtern\<close> is a function of a client.\<close>

datatype Function =
    FLiteral | FConcat | FIfElse | FAbort | FAssert | FSleep | FStdout
  | FLogicalAnd | FLogicalOr | FLogicalNot | FSubstring | FEquality | FInequality | FSequence
  | FLessThanInt | FGreaterThanInt
  | FExtern string

datatype Expr = Expr Function string "Expr list" (start: int) (finish: int)

record 'w State =
  cookie :: 'w
  script :: string
  errmsg :: "string option"
  out :: string
  naps :: "int list"

type_synonym 'w eval = "Expr \<Rightarrow> 'w State \<Rightarrow> (Value option \<times> 'w State) res"
type_synonym 'w extern =
  "string \<Rightarrow> string \<Rightarrow> 'w eval \<Rightarrow> Expr list \<Rightarrow> 'w State \<Rightarrow> (Value option \<times> 'w State) res"

text \<open>An argument by index: \<open>argv\<close> is \<open>NULL\<close> when there are no arguments.\<close>

definition arg :: "Expr list \<Rightarrow> int \<Rightarrow> Expr res" where
  "arg argv i = (if argv = [] then Inl NullDeref else rd argv i)"

section \<open>Evaluation of arguments\<close>

definition BooleanString :: "string \<Rightarrow> bool" where
  "BooleanString s \<longleftrightarrow> s \<noteq> []"

definition ErrorAbort :: "string \<Rightarrow> 'w State \<Rightarrow> Value option \<times> 'w State" where
  "ErrorAbort msg st = (None, st\<lparr>errmsg := Some (take 4095 msg)\<rparr>)"

definition Evaluate :: "'w eval \<Rightarrow> Expr \<Rightarrow> 'w State \<Rightarrow> (string option \<times> 'w State) res" where
  "Evaluate ev e st =
     bindR (ev e st) (\<lambda>(v, st).
       case v of
         None \<Rightarrow> Inr (None, st)
       | Some (VBlob _ _) \<Rightarrow> Inr (None, snd (ErrorAbort ''expecting string, got value type 2'' st))
       | Some (VString s) \<Rightarrow> Inr (Some s, st))"

definition StringValue :: "string option \<Rightarrow> Value option" where
  "StringValue s = map_option VString s"

fun ReadVarArgs :: "'w eval \<Rightarrow> Expr list \<Rightarrow> 'w State \<Rightarrow> (string list option \<times> 'w State) res" where
  "ReadVarArgs ev [] st = Inr (Some [], st)"
| "ReadVarArgs ev (a # as) st =
     bindR (Evaluate ev a st) (\<lambda>(v, st).
       case v of
         None \<Rightarrow> Inr (None, st)
       | Some s \<Rightarrow> bindR (ReadVarArgs ev as st) (\<lambda>(r, st). Inr (map_option (Cons s) r, st)))"

fun ReadValueVarArgs :: "'w eval \<Rightarrow> Expr list \<Rightarrow> 'w State \<Rightarrow> (Value list option \<times> 'w State) res" where
  "ReadValueVarArgs ev [] st = Inr (Some [], st)"
| "ReadValueVarArgs ev (a # as) st =
     bindR (ev a st) (\<lambda>(v, st).
       case v of
         None \<Rightarrow> Inr (None, st)
       | Some s \<Rightarrow> bindR (ReadValueVarArgs ev as st) (\<lambda>(r, st). Inr (map_option (Cons s) r, st)))"

text \<open>
  \<open>ReadArgs\<close> and \<open>ReadValueArgs\<close> evaluate the first \<open>count\<close> expressions of an \<open>argv\<close> whose
  length they are not given; \<open>i\<close> is the loop counter.
\<close>

function ReadArgs_from ::
  "'w eval \<Rightarrow> Expr list \<Rightarrow> int \<Rightarrow> int \<Rightarrow> 'w State \<Rightarrow> (string list option \<times> 'w State) res" where
  "ReadArgs_from ev argv cnt i st =
     (if i < cnt then
        bindR (arg argv i) (\<lambda>a.
        bindR (Evaluate ev a st) (\<lambda>(v, st).
          case v of
            None \<Rightarrow> Inr (None, st)
          | Some s \<Rightarrow> bindR (ReadArgs_from ev argv cnt (i + 1) st) (\<lambda>(r, st). Inr (map_option (Cons s) r, st))))
      else Inr (Some [], st))"
  by pat_completeness auto

termination by (relation "measure (\<lambda>(_, _, cnt, i, _). nat (cnt - i))") auto

function ReadValueArgs_from ::
  "'w eval \<Rightarrow> Expr list \<Rightarrow> int \<Rightarrow> int \<Rightarrow> 'w State \<Rightarrow> (Value list option \<times> 'w State) res" where
  "ReadValueArgs_from ev argv cnt i st =
     (if i < cnt then
        bindR (arg argv i) (\<lambda>a.
        bindR (ev a st) (\<lambda>(v, st).
          case v of
            None \<Rightarrow> Inr (None, st)
          | Some s \<Rightarrow> bindR (ReadValueArgs_from ev argv cnt (i + 1) st) (\<lambda>(r, st). Inr (map_option (Cons s) r, st))))
      else Inr (Some [], st))"
  by pat_completeness auto

termination by (relation "measure (\<lambda>(_, _, cnt, i, _). nat (cnt - i))") auto

declare ReadArgs_from.simps [simp del] ReadValueArgs_from.simps [simp del]

definition ReadArgs ::
  "'w eval \<Rightarrow> Expr list \<Rightarrow> int \<Rightarrow> 'w State \<Rightarrow> (string list option \<times> 'w State) res" where
  "ReadArgs ev argv cnt st = ReadArgs_from ev argv cnt 0 st"

definition ReadValueArgs ::
  "'w eval \<Rightarrow> Expr list \<Rightarrow> int \<Rightarrow> 'w State \<Rightarrow> (Value list option \<times> 'w State) res" where
  "ReadValueArgs ev argv cnt st = ReadValueArgs_from ev argv cnt 0 st"

section \<open>Builtin functions\<close>

definition Literal :: "string \<Rightarrow> 'w State \<Rightarrow> (Value option \<times> 'w State) res" where
  "Literal name st = Inr (StringValue (Some name), st)"

definition ConcatFn :: "'w eval \<Rightarrow> Expr list \<Rightarrow> 'w State \<Rightarrow> (Value option \<times> 'w State) res" where
  "ConcatFn ev argv st =
     (if argv = [] then Inr (StringValue (Some ''''), st)
      else bindR (ReadVarArgs ev argv st) (\<lambda>(strings, st).
        Inr (StringValue (map_option List.concat strings), st)))"

definition IfElseFn :: "'w eval \<Rightarrow> Expr list \<Rightarrow> 'w State \<Rightarrow> (Value option \<times> 'w State) res" where
  "IfElseFn ev argv st =
     (if length argv \<noteq> 2 \<and> length argv \<noteq> 3
      then Inr (None, st\<lparr>errmsg := Some ''ifelse expects 2 or 3 arguments''\<rparr>)
      else
        bindR (arg argv 0) (\<lambda>a.
        bindR (Evaluate ev a st) (\<lambda>(c, st).
          case c of
            None \<Rightarrow> Inr (None, st)
          | Some cond \<Rightarrow>
              if BooleanString cond then bindR (arg argv 1) (\<lambda>a. ev a st)
              else if length argv = 3 then bindR (arg argv 2) (\<lambda>a. ev a st)
              else Inr (StringValue (Some cond), st))))"

definition AbortFn :: "'w eval \<Rightarrow> Expr list \<Rightarrow> 'w State \<Rightarrow> (Value option \<times> 'w State) res" where
  "AbortFn ev argv st =
     bindR (if argv \<noteq> [] then bindR (arg argv 0) (\<lambda>a. Evaluate ev a st) else Inr (None, st)) (\<lambda>(msg, st).
       Inr (None, st\<lparr>errmsg := Some (case msg of Some m \<Rightarrow> m | None \<Rightarrow> ''called abort()'')\<rparr>))"

fun AssertFn :: "'w eval \<Rightarrow> Expr list \<Rightarrow> 'w State \<Rightarrow> (Value option \<times> 'w State) res" where
  "AssertFn ev [] st = Inr (StringValue (Some ''''), st)"
| "AssertFn ev (a # as) st =
     bindR (Evaluate ev a st) (\<lambda>(v, st).
       case v of
         None \<Rightarrow> Inr (None, st)
       | Some s \<Rightarrow>
           if BooleanString s then AssertFn ev as st
           else bindR (region (script st) (start a) (finish a - start a)) (\<lambda>src.
             Inr (None, st\<lparr>errmsg := Some (''assert failed: '' @ src)\<rparr>)))"

definition SleepFn :: "'w eval \<Rightarrow> Expr list \<Rightarrow> 'w State \<Rightarrow> (Value option \<times> 'w State) res" where
  "SleepFn ev argv st =
     bindR (arg argv 0) (\<lambda>a.
     bindR (Evaluate ev a st) (\<lambda>(v, st).
       case v of
         None \<Rightarrow> Inr (None, st)
       | Some val \<Rightarrow> Inr (StringValue (Some val), st\<lparr>naps := naps st @ [fst (strtol val)]\<rparr>)))"

fun StdoutFn :: "'w eval \<Rightarrow> Expr list \<Rightarrow> 'w State \<Rightarrow> (Value option \<times> 'w State) res" where
  "StdoutFn ev [] st = Inr (StringValue (Some ''''), st)"
| "StdoutFn ev (a # as) st =
     bindR (Evaluate ev a st) (\<lambda>(v, st).
       case v of
         None \<Rightarrow> Inr (None, st)
       | Some s \<Rightarrow> StdoutFn ev as (st\<lparr>out := out st @ s\<rparr>))"

definition LogicalAndFn :: "'w eval \<Rightarrow> Expr list \<Rightarrow> 'w State \<Rightarrow> (Value option \<times> 'w State) res" where
  "LogicalAndFn ev argv st =
     bindR (arg argv 0) (\<lambda>a.
     bindR (Evaluate ev a st) (\<lambda>(l, st).
       case l of
         None \<Rightarrow> Inr (None, st)
       | Some s \<Rightarrow>
           if BooleanString s then bindR (arg argv 1) (\<lambda>a. ev a st)
           else Inr (StringValue (Some s), st)))"

definition LogicalOrFn :: "'w eval \<Rightarrow> Expr list \<Rightarrow> 'w State \<Rightarrow> (Value option \<times> 'w State) res" where
  "LogicalOrFn ev argv st =
     bindR (arg argv 0) (\<lambda>a.
     bindR (Evaluate ev a st) (\<lambda>(l, st).
       case l of
         None \<Rightarrow> Inr (None, st)
       | Some s \<Rightarrow>
           if \<not> BooleanString s then bindR (arg argv 1) (\<lambda>a. ev a st)
           else Inr (StringValue (Some s), st)))"

definition LogicalNotFn :: "'w eval \<Rightarrow> Expr list \<Rightarrow> 'w State \<Rightarrow> (Value option \<times> 'w State) res" where
  "LogicalNotFn ev argv st =
     bindR (arg argv 0) (\<lambda>a.
     bindR (Evaluate ev a st) (\<lambda>(v, st).
       case v of
         None \<Rightarrow> Inr (None, st)
       | Some s \<Rightarrow> Inr (StringValue (Some (if BooleanString s then '''' else ''t'')), st)))"

text \<open>
  The functions of two string arguments evaluate the left one, then the right one, and return
  \<open>"t"\<close> or the empty string.
\<close>

definition string_test ::
  "(string \<Rightarrow> string \<Rightarrow> bool) \<Rightarrow> 'w eval \<Rightarrow> Expr list \<Rightarrow> 'w State \<Rightarrow> (Value option \<times> 'w State) res" where
  "string_test p ev argv st =
     bindR (arg argv 0) (\<lambda>a.
     bindR (Evaluate ev a st) (\<lambda>(l, st).
       case l of
         None \<Rightarrow> Inr (None, st)
       | Some l \<Rightarrow>
           bindR (arg argv 1) (\<lambda>b.
           bindR (Evaluate ev b st) (\<lambda>(r, st).
             case r of
               None \<Rightarrow> Inr (None, st)
             | Some r \<Rightarrow> Inr (StringValue (Some (if p l r then ''t'' else '''')), st)))))"

definition SubstringFn :: "'w eval \<Rightarrow> Expr list \<Rightarrow> 'w State \<Rightarrow> (Value option \<times> 'w State) res" where
  "SubstringFn = string_test (\<lambda>needle haystack. strstr haystack needle)"

definition EqualityFn :: "'w eval \<Rightarrow> Expr list \<Rightarrow> 'w State \<Rightarrow> (Value option \<times> 'w State) res" where
  "EqualityFn = string_test (\<lambda>left right. strcmp left right = 0)"

definition InequalityFn :: "'w eval \<Rightarrow> Expr list \<Rightarrow> 'w State \<Rightarrow> (Value option \<times> 'w State) res" where
  "InequalityFn = string_test (\<lambda>left right. strcmp left right \<noteq> 0)"

definition SequenceFn :: "'w eval \<Rightarrow> Expr list \<Rightarrow> 'w State \<Rightarrow> (Value option \<times> 'w State) res" where
  "SequenceFn ev argv st =
     bindR (arg argv 0) (\<lambda>a.
     bindR (ev a st) (\<lambda>(l, st).
       case l of
         None \<Rightarrow> Inr (None, st)
       | Some _ \<Rightarrow> bindR (arg argv 1) (\<lambda>a. ev a st)))"

text \<open>A string is an integer when it is not empty and \<open>strtol\<close> consumes all of it.\<close>

definition int_less :: "string \<Rightarrow> string \<Rightarrow> bool" where
  "int_less l r =
     (case strtol l of (l_int, l_end) \<Rightarrow>
        if l = [] \<or> l_end \<noteq> [] then False
        else case strtol r of (r_int, r_end) \<Rightarrow>
          if r = [] \<or> r_end \<noteq> [] then False else l_int < r_int)"

definition LessThanIntFn :: "'w eval \<Rightarrow> Expr list \<Rightarrow> 'w State \<Rightarrow> (Value option \<times> 'w State) res" where
  "LessThanIntFn ev argv st =
     (if length argv \<noteq> 2 then Inr (None, st\<lparr>errmsg := Some ''less_than_int expects 2 arguments''\<rparr>)
      else bindR (ReadArgs ev argv 2 st) (\<lambda>(args, st).
        case args of
          Some [l, r] \<Rightarrow> Inr (StringValue (Some (if int_less l r then ''t'' else '''')), st)
        | _ \<Rightarrow> Inr (None, st)))"

definition GreaterThanIntFn :: "'w eval \<Rightarrow> Expr list \<Rightarrow> 'w State \<Rightarrow> (Value option \<times> 'w State) res" where
  "GreaterThanIntFn ev argv st =
     (if length argv \<noteq> 2 then Inr (None, st\<lparr>errmsg := Some ''greater_than_int expects 2 arguments''\<rparr>)
      else
        bindR (arg argv 1) (\<lambda>a. bindR (arg argv 0) (\<lambda>b. LessThanIntFn ev [a, b] st)))"

section \<open>The evaluator\<close>

text \<open>
  The call through the function pointer of an expression, over an evaluator for its arguments; the
  evaluator ties the knot with the depth of the recursion as fuel, and \<open>EvaluateValue\<close> has fuel
  for every expression.
\<close>

definition call :: "'w extern \<Rightarrow> 'w eval \<Rightarrow> Expr \<Rightarrow> 'w State \<Rightarrow> (Value option \<times> 'w State) res" where
  "call ext ev e st =
     (case e of Expr fn name argv _ _ \<Rightarrow>
        (case fn of
           FLiteral \<Rightarrow> Literal name st
         | FConcat \<Rightarrow> ConcatFn ev argv st
         | FIfElse \<Rightarrow> IfElseFn ev argv st
         | FAbort \<Rightarrow> AbortFn ev argv st
         | FAssert \<Rightarrow> AssertFn ev argv st
         | FSleep \<Rightarrow> SleepFn ev argv st
         | FStdout \<Rightarrow> StdoutFn ev argv st
         | FLogicalAnd \<Rightarrow> LogicalAndFn ev argv st
         | FLogicalOr \<Rightarrow> LogicalOrFn ev argv st
         | FLogicalNot \<Rightarrow> LogicalNotFn ev argv st
         | FSubstring \<Rightarrow> SubstringFn ev argv st
         | FEquality \<Rightarrow> EqualityFn ev argv st
         | FInequality \<Rightarrow> InequalityFn ev argv st
         | FSequence \<Rightarrow> SequenceFn ev argv st
         | FLessThanInt \<Rightarrow> LessThanIntFn ev argv st
         | FGreaterThanInt \<Rightarrow> GreaterThanIntFn ev argv st
         | FExtern f \<Rightarrow> ext f name ev argv st))"

primrec eval_fuel :: "'w extern \<Rightarrow> nat \<Rightarrow> 'w eval" where
  "eval_fuel ext 0 = (\<lambda>e st. Inl Diverges)"
| "eval_fuel ext (Suc n) = call ext (eval_fuel ext n)"

definition EvaluateValue :: "'w extern \<Rightarrow> 'w eval" where
  "EvaluateValue ext e st = eval_fuel ext (Suc (size e)) e st"

section \<open>The function table\<close>

record FnTable =
  fn_entries :: nat
  fn_size :: nat
  fn_table :: "(string \<times> Function) option list"

definition fn_empty :: FnTable where
  "fn_empty = \<lparr>fn_entries = 0, fn_size = 0, fn_table = []\<rparr>"

definition RegisterFunction :: "string \<times> Function \<Rightarrow> FnTable \<Rightarrow> FnTable res" where
  "RegisterFunction nf t =
     (let t = (if fn_entries t \<ge> fn_size t
               then let n = fn_size t * 2 + 1 in
                    t\<lparr>fn_size := n, fn_table := take n (fn_table t @ replicate n None)\<rparr>
               else t)
      in bindR (rd (fn_table t) (int (fn_entries t))) (\<lambda>_.
           Inr (t\<lparr>fn_table := (fn_table t)[fn_entries t := Some nf], fn_entries := fn_entries t + 1\<rparr>)))"

definition fn_entry_compare :: "string \<times> Function \<Rightarrow> string \<times> Function \<Rightarrow> int" where
  "fn_entry_compare a b = strcmp (fst a) (fst b)"

definition FinishRegistration :: "FnTable \<Rightarrow> FnTable" where
  "FinishRegistration t =
     t\<lparr>fn_table := map Some (qsort fn_entry_compare (map the (take (fn_entries t) (fn_table t))))
                    @ drop (fn_entries t) (fn_table t)\<rparr>"

text \<open>The \<open>fn\<close> of the key is not initialised, and not read by the comparison.\<close>

definition FindFunction :: "FnTable \<Rightarrow> string \<Rightarrow> Function option" where
  "FindFunction t name =
     (let tab = map the (take (fn_entries t) (fn_table t)) in
      map_option (\<lambda>i. snd (tab ! i)) (bsearch fn_entry_compare (name, FLiteral) tab))"

definition builtins :: "(string \<times> Function) list" where
  "builtins =
     [(''ifelse'', FIfElse), (''abort'', FAbort), (''assert'', FAssert), (''concat'', FConcat),
      (''is_substring'', FSubstring), (''stdout'', FStdout), (''sleep'', FSleep),
      (''less_than_int'', FLessThanInt), (''greater_than_int'', FGreaterThanInt)]"

definition RegisterBuiltins :: "FnTable \<Rightarrow> FnTable res" where
  "RegisterBuiltins t = foldR RegisterFunction builtins t"

section \<open>The lexer\<close>

datatype token =
    T_STRING string | T_BAD
  | T_IF | T_THEN | T_ELSE | T_ENDIF | T_AND | T_OR | T_EQ | T_NE
  | T_CHAR char

type_synonym YYLTYPE = "int \<times> int"

record lexer =
  gLine :: int
  gColumn :: int
  gPos :: int
  yylloc :: YYLTYPE

definition lexer0 :: lexer where
  "lexer0 = \<lparr>gLine = 1, gColumn = 1, gPos = 0, yylloc = (0, 0)\<rparr>"

definition MAX_STRING_LEN :: nat where
  "MAX_STRING_LEN = 1024"

definition ADVANCE :: "nat \<Rightarrow> lexer \<Rightarrow> lexer" where
  "ADVANCE n lx =
     lx\<lparr>gColumn := gColumn lx + int n, gPos := gPos lx + int n,
        yylloc := (gPos lx, gPos lx + int n)\<rparr>"

definition bump :: "nat \<Rightarrow> lexer \<Rightarrow> lexer" where
  "bump n lx = lx\<lparr>gColumn := gColumn lx + int n, gPos := gPos lx + int n\<rparr>"

definition newline :: "nat \<Rightarrow> lexer \<Rightarrow> lexer" where
  "newline n lx = lx\<lparr>gLine := gLine lx + 1, gColumn := 1, gPos := gPos lx + int n\<rparr>"

text \<open>One rule of the state \<open>STR\<close>: the number of characters matched and the one they stand for.\<close>

definition str_rule :: "string \<Rightarrow> nat \<times> char" where
  "str_rule s =
     (if take 2 s = [CHR 0x5C, CHR ''n''] then (2, CHR 0x0A)
      else if take 2 s = [CHR 0x5C, CHR ''t''] then (2, CHR 0x09)
      else if take 2 s = [CHR 0x5C, CHR 0x22] then (2, CHR 0x22)
      else if take 2 s = [CHR 0x5C, CHR 0x5C] then (2, CHR 0x5C)
      else if take 2 s = [CHR 0x5C, CHR ''x''] \<and> length s \<ge> 4 \<and> is_digit 16 (s ! 2) \<and> is_digit 16 (s ! 3)
           then (4, char_of (nat (digits_val 16 [s ! 2, s ! 3])))
      else (1, hd s))"

text \<open>
  The state \<open>STR\<close> from behind the opening quote, with the characters stored so far: \<open>None\<close> at the
  end of the input, otherwise the string, the position and the rest of the input. Storing past the
  buffer is an access outside of it.
\<close>

function lex_str :: "lexer \<Rightarrow> string \<Rightarrow> string \<Rightarrow> ((string \<times> lexer \<times> string) option) res" where
  "lex_str lx buf s =
     (if s = [] then Inr None
      else if hd s = CHR 0x22 then
        (if length buf < MAX_STRING_LEN
         then let lx = bump 1 lx in
              Inr (Some (takeWhile (\<lambda>c. c \<noteq> CHR 0x00) buf, lx\<lparr>yylloc := (fst (yylloc lx), gPos lx)\<rparr>, tl s))
         else Inl OutOfBounds)
      else if length buf < MAX_STRING_LEN then
        (case str_rule s of (n, c) \<Rightarrow>
           lex_str (if hd s = CHR 0x0A then newline 1 lx else bump n lx) (buf @ [c]) (drop n s))
      else Inl OutOfBounds)"
  by pat_completeness auto

termination
  by (relation "measure (\<lambda>(_, _, s). length s)") (auto simp: str_rule_def split: if_splits)

declare lex_str.simps [simp del]

definition word_char :: "char \<Rightarrow> bool" where
  "word_char c \<longleftrightarrow>
     (let n = of_char c :: nat in
      (97 \<le> n \<and> n \<le> 122) \<or> (65 \<le> n \<and> n \<le> 90) \<or> (48 \<le> n \<and> n \<le> 57))
     \<or> c = CHR ''_'' \<or> c = CHR '':'' \<or> c = CHR ''/'' \<or> c = CHR ''.''"

definition word_token :: "string \<Rightarrow> token" where
  "word_token w =
     (if w = ''if'' then T_IF else if w = ''then'' then T_THEN
      else if w = ''else'' then T_ELSE else if w = ''endif'' then T_ENDIF
      else T_STRING w)"

definition op_token :: "string \<Rightarrow> (token \<times> nat) option" where
  "op_token s =
     (if take 2 s = ''&&'' then Some (T_AND, 2)
      else if take 2 s = ''||'' then Some (T_OR, 2)
      else if take 2 s = ''=='' then Some (T_EQ, 2)
      else if take 2 s = ''!='' then Some (T_NE, 2)
      else if hd s \<in> set ''+(),!;'' then Some (T_CHAR (hd s), 1)
      else None)"

text \<open>
  \<open>yylex\<close>: blanks, line ends and comments are skipped, otherwise a token with its location is
  returned; \<open>None\<close> is the end of the input. An unexpected character is \<open>BAD\<close> and advances nothing.
\<close>

function yylex :: "lexer \<Rightarrow> string \<Rightarrow> ((token \<times> lexer \<times> string) option) res" where
  "yylex lx s =
     (if s = [] then Inr None
      else if hd s = CHR 0x22 then
        bindR (lex_str (bump 1 (lx\<lparr>yylloc := (gPos lx, snd (yylloc lx))\<rparr>)) [] (tl s)) (\<lambda>r.
          Inr (map_option (\<lambda>(w, lx, s). (T_STRING w, lx, s)) r))
      else if word_char (hd s) then
        (let w = takeWhile word_char s in
         Inr (Some (word_token w, ADVANCE (length w) lx, drop (length w) s)))
      else case op_token s of
        Some (t, n) \<Rightarrow> Inr (Some (t, ADVANCE n lx, drop n s))
      | None \<Rightarrow>
          if hd s = CHR '' '' \<or> hd s = CHR 0x09 then
            (let w = takeWhile (\<lambda>c. c = CHR '' '' \<or> c = CHR 0x09) s in
             yylex (ADVANCE (length w) lx) (drop (length w) s))
          else if hd s = CHR 0x0A then yylex (newline 1 lx) (tl s)
          else if hd s = CHR ''#'' \<and> CHR 0x0A \<in> set s then
            (let n = length (takeWhile (\<lambda>c. c \<noteq> CHR 0x0A) s) + 1 in yylex (newline n lx) (drop n s))
          else Inr (Some (T_BAD, lx, tl s)))"
  by pat_completeness auto

termination
  by (relation "measure (\<lambda>(_, s). length s)") (auto simp: Let_def neq_Nil_conv)

declare yylex.simps [simp del]

text \<open>The tokens that successive calls of \<open>yylex\<close> hand to the parser, with their locations.\<close>

primrec lex_fuel :: "nat \<Rightarrow> lexer \<Rightarrow> string \<Rightarrow> ((token \<times> YYLTYPE) list) res" where
  "lex_fuel 0 lx s = Inl Diverges"
| "lex_fuel (Suc n) lx s =
     bindR (yylex lx s) (\<lambda>r.
       case r of
         None \<Rightarrow> Inr []
       | Some (t, lx, s) \<Rightarrow> bindR (lex_fuel n lx s) (\<lambda>ts. Inr ((t, yylloc lx) # ts)))"

definition lex :: "string \<Rightarrow> ((token \<times> YYLTYPE) list) res" where
  "lex s = lex_fuel (Suc (length s)) lexer0 s"

section \<open>The grammar and its actions\<close>

definition Build :: "Function \<Rightarrow> YYLTYPE \<Rightarrow> Expr list \<Rightarrow> Expr" where
  "Build fn loc args = Expr fn ''(operator)'' args (fst loc) (snd loc)"

fun set_span :: "YYLTYPE \<Rightarrow> Expr \<Rightarrow> Expr" where
  "set_span (s, t) (Expr fn name argv _ _) = Expr fn name argv s t"

definition binop :: "token \<Rightarrow> Function option" where
  "binop t =
     (if t = T_CHAR (CHR '';'') then Some FSequence
      else if t = T_CHAR (CHR ''+'') then Some FConcat
      else if t = T_EQ then Some FEquality
      else if t = T_NE then Some FInequality
      else if t = T_AND then Some FLogicalAnd
      else if t = T_OR then Some FLogicalOr
      else None)"

text \<open>
  \<open>expr T ts e loc\<close>: the tokens \<open>ts\<close> derive \<open>expr\<close> in the grammar, the actions build \<open>e\<close>, and \<open>loc\<close>
  is the location of the symbol, from the first of its symbols to the last one. Every tree the
  parser builds without a syntax error is one of these; which one, among the trees an operator
  expression has, is settled by the precedences of the grammar.
\<close>

inductive expr :: "FnTable \<Rightarrow> (token \<times> YYLTYPE) list \<Rightarrow> Expr \<Rightarrow> YYLTYPE \<Rightarrow> bool"
  and arglist :: "FnTable \<Rightarrow> (token \<times> YYLTYPE) list \<Rightarrow> Expr list \<Rightarrow> bool"
  for T :: FnTable where
  string: "expr T [(T_STRING s, l)] (Expr FLiteral s [] (fst l) (snd l)) l"
| paren: "expr T ts e l \<Longrightarrow> loc = (fst l1, snd l2) \<Longrightarrow>
    expr T ((T_CHAR (CHR ''(''), l1) # ts @ [(T_CHAR (CHR '')''), l2)]) (set_span loc e) loc"
| semi: "expr T ts e l \<Longrightarrow>
    expr T (ts @ [(T_CHAR (CHR '';''), l1)]) (set_span l e) (fst l, snd l1)"
| binary: "expr T ts1 e1 l1 \<Longrightarrow> expr T ts2 e2 l2 \<Longrightarrow> binop t = Some fn \<Longrightarrow> loc = (fst l1, snd l2) \<Longrightarrow>
    expr T (ts1 @ (t, l) # ts2) (Build fn loc [e1, e2]) loc"
| not: "expr T ts e l \<Longrightarrow> loc = (fst l1, snd l) \<Longrightarrow>
    expr T ((T_CHAR (CHR ''!''), l1) # ts) (Build FLogicalNot loc [e]) loc"
| if_then: "expr T ts1 e1 l1 \<Longrightarrow> expr T ts2 e2 l2 \<Longrightarrow> loc = (fst la, snd lc) \<Longrightarrow>
    expr T ((T_IF, la) # ts1 @ (T_THEN, lb) # ts2 @ [(T_ENDIF, lc)]) (Build FIfElse loc [e1, e2]) loc"
| if_else: "expr T ts1 e1 l1 \<Longrightarrow> expr T ts2 e2 l2 \<Longrightarrow> expr T ts3 e3 l3 \<Longrightarrow> loc = (fst la, snd ld) \<Longrightarrow>
    expr T ((T_IF, la) # ts1 @ (T_THEN, lb) # ts2 @ (T_ELSE, lc) # ts3 @ [(T_ENDIF, ld)])
      (Build FIfElse loc [e1, e2, e3]) loc"
| call: "arglist T ts as \<Longrightarrow> FindFunction T s = Some fn \<Longrightarrow>
    expr T ((T_STRING s, l1) # (T_CHAR (CHR ''(''), l2) # ts @ [(T_CHAR (CHR '')''), l3)])
      (Expr fn s as (fst l1) (snd l3)) (fst l1, snd l3)"
| args_empty: "arglist T [] []"
| args_one: "expr T ts e l \<Longrightarrow> arglist T ts [e]"
| args_more: "arglist T ts1 as \<Longrightarrow> expr T ts2 e l \<Longrightarrow> arglist T (ts1 @ (T_CHAR (CHR '',''), lc) # ts2) (as @ [e])"

section \<open>Notions used in the statements\<close>

text \<open>
  What a call of a function promises: it returns, keeps the script, sets an error message when it
  returns \<open>NULL\<close> and leaves the message alone otherwise.
\<close>

definition fine :: "'w State \<Rightarrow> ('a option \<times> 'w State) res \<Rightarrow> bool" where
  "fine st r \<longleftrightarrow>
     (\<exists>v st'. r = Inr (v, st') \<and> script st' = script st
        \<and> (v = None \<longrightarrow> errmsg st' \<noteq> None) \<and> (v \<noteq> None \<longrightarrow> errmsg st' = errmsg st))"

text \<open>
  The number of arguments a function reads without looking at \<open>argc\<close>, and expressions whose calls
  all have them and whose spans lie in a script of \<open>n\<close> characters.
\<close>

definition min_args :: "Function \<Rightarrow> nat" where
  "min_args fn =
     (case fn of
        FSleep \<Rightarrow> 1 | FLogicalNot \<Rightarrow> 1 | FLogicalAnd \<Rightarrow> 2 | FLogicalOr \<Rightarrow> 2 | FSubstring \<Rightarrow> 2
      | FEquality \<Rightarrow> 2 | FInequality \<Rightarrow> 2 | FSequence \<Rightarrow> 2 | _ \<Rightarrow> 0)"

fun enough_args :: "Expr \<Rightarrow> bool" where
  "enough_args (Expr fn name argv _ _) \<longleftrightarrow> min_args fn \<le> length argv \<and> (\<forall>a \<in> set argv. enough_args a)"

fun spans_in :: "int \<Rightarrow> Expr \<Rightarrow> bool" where
  "spans_in n (Expr fn name argv s t) \<longleftrightarrow> 0 \<le> s \<and> s \<le> t \<and> t \<le> n \<and> (\<forall>a \<in> set argv. spans_in n a)"

text \<open>
  The two rules a registered function follows: it keeps the promise when its arguments do, and it
  evaluates nothing but its arguments.
\<close>

definition ext_fine :: "'w extern \<Rightarrow> bool" where
  "ext_fine ext \<longleftrightarrow>
     (\<forall>f name ev argv st.
        (\<forall>a \<in> set argv. \<forall>st'. script st' = script st \<longrightarrow> fine st' (ev a st')) \<longrightarrow>
        fine st (ext f name ev argv st))"

definition ext_local :: "'w extern \<Rightarrow> bool" where
  "ext_local ext \<longleftrightarrow>
     (\<forall>f name ev ev' argv st.
        (\<forall>a \<in> set argv. ev a = ev' a) \<longrightarrow> ext f name ev argv st = ext f name ev' argv st)"

text \<open>A registered function that evaluates its arguments and returns the number of them.\<close>

definition count_args :: "'w extern" where
  "count_args f name ev argv st =
     bindR (ReadVarArgs ev argv st) (\<lambda>(r, st). Inr (StringValue (map_option (show_int \<circ> int \<circ> length) r), st))"

definition state0 :: "string \<Rightarrow> unit State" where
  "state0 s = \<lparr>cookie = (), script = s, errmsg = None, out = [], naps = []\<rparr>"

definition entries :: "FnTable \<Rightarrow> (string \<times> Function) list" where
  "entries t = map the (take (fn_entries t) (fn_table t))"

definition table_ok :: "FnTable \<Rightarrow> bool" where
  "table_ok t \<longleftrightarrow> fn_entries t \<le> fn_size t \<and> length (fn_table t) = fn_size t"

text \<open>What one call of \<open>yylex\<close> does to the position.\<close>

definition advances :: "lexer \<Rightarrow> string \<Rightarrow> token \<Rightarrow> lexer \<Rightarrow> string \<Rightarrow> bool" where
  "advances lx s t lx' s' \<longleftrightarrow>
     length s' < length s \<and> gPos lx \<le> gPos lx'
     \<and> (t \<noteq> T_BAD \<longrightarrow> gPos lx' = gPos lx + int (length s) - int (length s')
          \<and> gPos lx \<le> fst (yylloc lx') \<and> fst (yylloc lx') \<le> snd (yylloc lx') \<and> snd (yylloc lx') = gPos lx')"

text \<open>The locations of a token stream follow each other between two positions.\<close>

fun locs_ok :: "int \<Rightarrow> int \<Rightarrow> (token \<times> YYLTYPE) list \<Rightarrow> bool" where
  "locs_ok lo hi [] \<longleftrightarrow> lo \<le> hi"
| "locs_ok lo hi ((t, (s, e)) # ts) \<longleftrightarrow> lo \<le> s \<and> s \<le> e \<and> locs_ok e hi ts"

definition table0 :: FnTable where
  "table0 = \<lparr>fn_entries = 1, fn_size = 1, fn_table = [Some (''assert'', FAssert)]\<rparr>"

definition tree0 :: Expr where
  "tree0 = Expr FAssert ''assert''
     [Build FEquality (7, 13) [Expr FLiteral ''a'' [] 7 8, Expr FLiteral ''b'' [] 12 13]] 0 14"

text \<open>A string as a literal of the language.\<close>

definition escape :: "char \<Rightarrow> string" where
  "escape c =
     (if c = CHR 0x22 \<or> c = CHR 0x5C then [CHR 0x5C, c]
      else if c = CHR 0x0A then [CHR 0x5C, CHR ''n'']
      else if c = CHR 0x09 then [CHR 0x5C, CHR ''t'']
      else [c])"

definition quote :: "string \<Rightarrow> string" where
  "quote s = CHR 0x22 # List.concat (map escape s) @ [CHR 0x22]"

lemma bindR_cong: "m = m' \<Longrightarrow> (\<And>x. m' = Inr x \<Longrightarrow> f x = g x) \<Longrightarrow> bindR m f = bindR m' g"
  by (cases m') auto

lemma arg_in: "arg argv i = Inr a \<Longrightarrow> a \<in> set argv"
  by (auto simp: arg_def split: if_splits)

lemma arg_ok: "0 \<le> i \<Longrightarrow> i < int (length argv) \<Longrightarrow> \<exists>a \<in> set argv. arg argv i = Inr a"
  by (auto simp: arg_def rd_def)

lemma arg_case:
  "0 \<le> i \<Longrightarrow> i < int (length argv) \<Longrightarrow> (\<And>a. a \<in> set argv \<Longrightarrow> fine st (f a)) \<Longrightarrow>
   fine st (bindR (arg argv i) f)"
  using arg_ok[of i argv] by auto

lemma fine_value: "fine st (Inr (StringValue (Some s), st))"
  by (simp add: fine_def StringValue_def)

lemma fine_error: "fine st (Inr (None, st\<lparr>errmsg := Some m\<rparr>))"
  by (simp add: fine_def)

lemma fine_same: "fine st' r \<Longrightarrow> script st' = script st \<Longrightarrow> errmsg st' = errmsg st \<Longrightarrow> fine st r"
  unfolding fine_def by metis

lemma fine_case:
  assumes "fine st m"
    and "\<And>v st'. script st' = script st \<Longrightarrow> errmsg st' = errmsg st \<Longrightarrow> fine st' (g v st')"
  shows "fine st (bindR m (\<lambda>(v, st). case v of None \<Rightarrow> Inr (None, st) | Some x \<Rightarrow> g x st))"
proof -
  obtain v st' where m: "m = Inr (v, st')" "script st' = script st"
    "v = None \<longrightarrow> errmsg st' \<noteq> None" "v \<noteq> None \<longrightarrow> errmsg st' = errmsg st"
    using assms(1) by (auto simp: fine_def)
  show ?thesis
  proof (cases v)
    case None
    then show ?thesis using m by (simp add: fine_def)
  next
    case (Some x)
    then show ?thesis using m assms(2)[of st' x] fine_same[of st' _ st] by simp
  qed
qed

lemma fine_Evaluate: "fine st (ev e st) \<Longrightarrow> fine st (Evaluate ev e st)"
proof -
  assume "fine st (ev e st)"
  then obtain v st' where v: "ev e st = Inr (v, st')" "script st' = script st"
    "v = None \<longrightarrow> errmsg st' \<noteq> None" "v \<noteq> None \<longrightarrow> errmsg st' = errmsg st"
    by (auto simp: fine_def)
  consider "v = None" | s where "v = Some (VString s)" | n d where "v = Some (VBlob n d)"
    by (metis Value.exhaust option.exhaust)
  then show ?thesis using v by cases (simp_all add: Evaluate_def ErrorAbort_def fine_def)
qed

lemma fine_ReadVarArgs:
  "(\<And>a st'. a \<in> set argv \<Longrightarrow> script st' = script st \<Longrightarrow> fine st' (ev a st')) \<Longrightarrow>
   fine st (ReadVarArgs ev argv st)"
proof (induction argv arbitrary: st)
  case (Cons a as)
  have "fine st' (bindR (ReadVarArgs ev as st') (\<lambda>(r, st). Inr (map_option ((#) s) r, st)))"
    if "script st' = script st" for st' s
    using Cons.IH[of st'] Cons.prems that by (fastforce simp: fine_def)
  then show ?case using Cons.prems by (simp, intro fine_case fine_Evaluate) simp_all
qed (simp add: fine_def)

lemma fine_AssertFn:
  "(\<And>a st'. a \<in> set argv \<Longrightarrow> script st' = script st \<Longrightarrow> fine st' (ev a st')) \<Longrightarrow>
   (\<And>a. a \<in> set argv \<Longrightarrow> 0 \<le> start a \<and> start a \<le> finish a \<and> finish a \<le> int (length (script st))) \<Longrightarrow>
   fine st (AssertFn ev argv st)"
proof (induction argv arbitrary: st)
  case Nil
  then show ?case by (simp add: fine_value)
next
  case (Cons a as)
  have "fine st' (if BooleanString s then AssertFn ev as st'
      else bindR (region (script st') (start a) (finish a - start a)) (\<lambda>src.
             Inr (None, st'\<lparr>errmsg := Some (''assert failed: '' @ src)\<rparr>)))"
    if "script st' = script st" for st' s
    using Cons.IH[of st'] Cons.prems that by (auto simp: region_def fine_error)
  then show ?case using Cons.prems by (simp, intro fine_case fine_Evaluate) simp_all
qed

lemma fine_StdoutFn:
  "(\<And>a st'. a \<in> set argv \<Longrightarrow> script st' = script st \<Longrightarrow> fine st' (ev a st')) \<Longrightarrow>
   fine st (StdoutFn ev argv st)"
proof (induction argv arbitrary: st)
  case Nil
  then show ?case by (simp add: fine_value)
next
  case (Cons a as)
  have "fine st' (StdoutFn ev as (st'\<lparr>out := out st' @ s\<rparr>))" if "script st' = script st" for st' s
    by (rule fine_same[OF Cons.IH]) (use Cons.prems that in simp_all)
  then show ?case using Cons.prems by (simp, intro fine_case fine_Evaluate) simp_all
qed

lemma fine_string_test:
  assumes "\<And>a st'. a \<in> set argv \<Longrightarrow> script st' = script st \<Longrightarrow> fine st' (ev a st')" "2 \<le> length argv"
  shows "fine st (string_test p ev argv st)"
  unfolding string_test_def
  by (intro arg_case fine_case fine_Evaluate fine_value) (use assms in auto)

lemma fine_ConcatFn:
  assumes "\<And>a st'. a \<in> set argv \<Longrightarrow> script st' = script st \<Longrightarrow> fine st' (ev a st')"
  shows "fine st (ConcatFn ev argv st)"
proof (cases "argv = []")
  case False
  then show ?thesis
    using fine_ReadVarArgs[of argv st ev, OF assms] by (auto simp: ConcatFn_def fine_def StringValue_def)
qed (simp add: ConcatFn_def fine_value)

lemma fine_IfElseFn:
  assumes "\<And>a st'. a \<in> set argv \<Longrightarrow> script st' = script st \<Longrightarrow> fine st' (ev a st')"
  shows "fine st (IfElseFn ev argv st)"
proof (cases "length argv \<noteq> 2 \<and> length argv \<noteq> 3")
  case False
  have "fine st' (if BooleanString c then bindR (arg argv 1) (\<lambda>a. ev a st')
      else if length argv = 3 then bindR (arg argv 2) (\<lambda>a. ev a st') else Inr (StringValue (Some c), st'))"
    if "script st' = script st" for st' c
    using arg_case[of 1 argv st' "\<lambda>a. ev a st'"] arg_case[of 2 argv st' "\<lambda>a. ev a st'"]
      False assms that by (auto simp: fine_value)
  then show ?thesis
    unfolding IfElseFn_def if_not_P[OF False]
    by (intro arg_case fine_case fine_Evaluate) (use assms False in auto)
qed (simp add: IfElseFn_def fine_error)

lemma fine_AbortFn:
  assumes "\<And>a st'. a \<in> set argv \<Longrightarrow> script st' = script st \<Longrightarrow> fine st' (ev a st')"
  shows "fine st (AbortFn ev argv st)"
proof (cases "argv = []")
  case False
  obtain a where a: "a \<in> set argv" "arg argv 0 = Inr a" using arg_ok[of 0 argv] False by auto
  obtain v st' where "Evaluate ev a st = Inr (v, st')" "script st' = script st"
    using fine_Evaluate[of st ev a, OF assms] a by (auto simp: fine_def)
  then show ?thesis using False a by (simp add: AbortFn_def fine_def)
qed (simp add: AbortFn_def fine_error)

lemma fine_SleepFn:
  assumes "\<And>a st'. a \<in> set argv \<Longrightarrow> script st' = script st \<Longrightarrow> fine st' (ev a st')" "1 \<le> length argv"
  shows "fine st (SleepFn ev argv st)"
  unfolding SleepFn_def
proof (intro arg_case fine_case fine_Evaluate)
  show "fine st' (Inr (StringValue (Some v), st'\<lparr>naps := naps st' @ [fst (strtol v)]\<rparr>))" for st' :: "'a State" and v
    by (simp add: fine_def StringValue_def)
qed (use assms in auto)

lemma fine_logical:
  assumes "\<And>a st'. a \<in> set argv \<Longrightarrow> script st' = script st \<Longrightarrow> fine st' (ev a st')" "2 \<le> length argv"
  shows "fine st (LogicalAndFn ev argv st)" "fine st (LogicalOrFn ev argv st)"
    "fine st (SequenceFn ev argv st)"
proof -
  have *: "fine st' (bindR (arg argv 1) (\<lambda>a. ev a st'))" if "script st' = script st" for st'
    by (rule arg_case) (use assms that in auto)
  show "fine st (LogicalAndFn ev argv st)" "fine st (LogicalOrFn ev argv st)"
    unfolding LogicalAndFn_def LogicalOrFn_def
    by (intro arg_case fine_case fine_Evaluate; use assms * in \<open>auto simp: fine_value\<close>)+
  show "fine st (SequenceFn ev argv st)"
    unfolding SequenceFn_def by (intro arg_case fine_case; use assms * in auto)
qed

lemma fine_LogicalNotFn:
  assumes "\<And>a st'. a \<in> set argv \<Longrightarrow> script st' = script st \<Longrightarrow> fine st' (ev a st')" "1 \<le> length argv"
  shows "fine st (LogicalNotFn ev argv st)"
  unfolding LogicalNotFn_def
  by (intro arg_case fine_case fine_Evaluate fine_value) (use assms in auto)

lemma ReadArgs_two:
  "length argv = 2 \<Longrightarrow> ReadArgs ev argv 2 st = ReadVarArgs ev argv st"
  by (cases argv; cases "tl argv")
    (auto simp: ReadArgs_def ReadArgs_from.simps arg_def rd_def intro!: bindR_cong split: option.split)

lemma ReadVarArgs_length:
  "ReadVarArgs ev argv st = Inr (Some ss, st') \<Longrightarrow> length ss = length argv"
  by (induction argv arbitrary: st ss) (auto split: option.splits)

lemma fine_LessThanIntFn:
  assumes "\<And>a st'. a \<in> set argv \<Longrightarrow> script st' = script st \<Longrightarrow> fine st' (ev a st')"
  shows "fine st (LessThanIntFn ev argv st)"
proof (cases "length argv = 2")
  case True
  obtain v st' where v: "ReadVarArgs ev argv st = Inr (v, st')" "script st' = script st"
    "v = None \<longrightarrow> errmsg st' \<noteq> None" "v \<noteq> None \<longrightarrow> errmsg st' = errmsg st"
    using fine_ReadVarArgs[of argv st ev, OF assms] by (auto simp: fine_def)
  show ?thesis
  proof (cases v)
    case None
    then show ?thesis using v True by (simp add: LessThanIntFn_def ReadArgs_two fine_def)
  next
    case (Some ss)
    then obtain l r where "ss = [l, r]"
      using ReadVarArgs_length[of ev argv st ss st'] v True by (auto simp: length_Suc_conv numeral_2_eq_2)
    then show ?thesis
      using v True Some by (simp add: LessThanIntFn_def ReadArgs_two fine_def StringValue_def)
  qed
qed (simp add: LessThanIntFn_def fine_error)

lemma fine_GreaterThanIntFn:
  assumes "\<And>a st'. a \<in> set argv \<Longrightarrow> script st' = script st \<Longrightarrow> fine st' (ev a st')"
  shows "fine st (GreaterThanIntFn ev argv st)"
proof (cases "length argv = 2")
  case True
  then have "\<not> length argv \<noteq> 2" by simp
  then show ?thesis
    unfolding GreaterThanIntFn_def if_not_P[OF \<open>\<not> length argv \<noteq> 2\<close>]
    by (intro arg_case fine_LessThanIntFn) (use assms in auto)
qed (simp add: GreaterThanIntFn_def fine_error)

lemmas fine_builtins =
  fine_ConcatFn fine_IfElseFn fine_AbortFn fine_AssertFn fine_SleepFn fine_StdoutFn
  fine_logical fine_LogicalNotFn fine_string_test fine_LessThanIntFn fine_GreaterThanIntFn

lemma fine_call:
  assumes "enough_args e" "spans_in (int (length (script st))) e" "ext_fine ext"
    and ev: "\<And>a st'. enough_args a \<Longrightarrow> spans_in (int (length (script st'))) a \<Longrightarrow> size a < size e \<Longrightarrow> fine st' (ev a st')"
  shows "fine st (call ext ev e st)"
proof -
  obtain fn name argv s t where e: "e = Expr fn name argv s t" by (cases e)
  have arg: "fine st' (ev a st')" if "a \<in> set argv" "script st' = script st" for a st'
    using ev[of a st'] that assms(1,2) size_list_estimation'[of a argv "size a" size] by (auto simp: e)
  have span: "0 \<le> start a \<and> start a \<le> finish a \<and> finish a \<le> int (length (script st))"
    if "a \<in> set argv" for a
    using assms(2) that by (cases a) (auto simp: e)
  have ext: "fine st (ext f name ev argv st)" for f
    using assms(3) arg unfolding ext_fine_def by blast
  show ?thesis
    using assms(1) fine_builtins[of argv st ev, OF arg] arg span ext
    by (cases fn) (simp_all add: call_def e min_args_def Literal_def fine_value
        SubstringFn_def EqualityFn_def InequalityFn_def)
qed

lemma fine_eval_fuel:
  assumes "ext_fine ext"
  shows "size e < n \<Longrightarrow> enough_args e \<Longrightarrow> spans_in (int (length (script st))) e \<Longrightarrow>
    fine st (eval_fuel ext n e st)"
proof (induction n arbitrary: e st)
  case (Suc n)
  show ?case
    unfolding eval_fuel.simps
    by (rule fine_call) (use Suc assms in auto)
qed simp

lemma fine_EvaluateValue:
  "ext_fine ext \<Longrightarrow> enough_args e \<Longrightarrow> spans_in (int (length (script st))) e \<Longrightarrow> fine st (EvaluateValue ext e st)"
  by (simp add: EvaluateValue_def fine_eval_fuel del: eval_fuel.simps)

lemma Evaluate_cong: "ev a = ev' a \<Longrightarrow> Evaluate ev a = Evaluate ev' a"
  by (simp add: Evaluate_def fun_eq_iff)

lemma ReadVarArgs_cong:
  "(\<And>a. a \<in> set argv \<Longrightarrow> ev a = ev' a) \<Longrightarrow> ReadVarArgs ev argv st = ReadVarArgs ev' argv st"
proof (induction argv arbitrary: st)
  case (Cons a as)
  then show ?case using Evaluate_cong[of ev a ev'] by (simp cong: option.case_cong if_cong)
qed simp

lemma AssertFn_cong:
  "(\<And>a. a \<in> set argv \<Longrightarrow> ev a = ev' a) \<Longrightarrow> AssertFn ev argv st = AssertFn ev' argv st"
proof (induction argv arbitrary: st)
  case (Cons a as)
  then show ?case using Evaluate_cong[of ev a ev'] by (simp cong: option.case_cong if_cong)
qed simp

lemma StdoutFn_cong:
  "(\<And>a. a \<in> set argv \<Longrightarrow> ev a = ev' a) \<Longrightarrow> StdoutFn ev argv st = StdoutFn ev' argv st"
proof (induction argv arbitrary: st)
  case (Cons a as)
  then show ?case using Evaluate_cong[of ev a ev'] by (simp cong: option.case_cong if_cong)
qed simp

lemma arg_bind_cong: "(\<And>a. a \<in> set argv \<Longrightarrow> f a = g a) \<Longrightarrow> bindR (arg argv i) f = bindR (arg argv i) g"
  by (rule bindR_cong) (auto dest: arg_in)

lemma case_cong_none:
  "(\<And>x st. g x st = h x st) \<Longrightarrow>
   bindR m (\<lambda>(v, st). case v of None \<Rightarrow> Inr (None, st) | Some x \<Rightarrow> g x st) =
   bindR m (\<lambda>(v, st). case v of None \<Rightarrow> Inr (None, st) | Some x \<Rightarrow> h x st)"
  by (rule bindR_cong) (auto split: option.split)

lemma arg_eval_cong:
  assumes "\<And>a. a \<in> set argv \<Longrightarrow> ev a = ev' a"
  shows "bindR (arg argv i) (\<lambda>a. ev a st) = bindR (arg argv i) (\<lambda>a. ev' a st)"
    and "(\<And>x st. g x st = h x st) \<Longrightarrow>
      bindR (arg argv i) (\<lambda>a. bindR (Evaluate ev a st) (\<lambda>(v, st). case v of None \<Rightarrow> Inr (None, st) | Some x \<Rightarrow> g x st)) =
      bindR (arg argv i) (\<lambda>a. bindR (Evaluate ev' a st) (\<lambda>(v, st). case v of None \<Rightarrow> Inr (None, st) | Some x \<Rightarrow> h x st))"
    and "(\<And>x st. g2 x st = h2 x st) \<Longrightarrow>
      bindR (arg argv i) (\<lambda>a. bindR (ev a st) (\<lambda>(v, st). case v of None \<Rightarrow> Inr (None, st) | Some x \<Rightarrow> g2 x st)) =
      bindR (arg argv i) (\<lambda>a. bindR (ev' a st) (\<lambda>(v, st). case v of None \<Rightarrow> Inr (None, st) | Some x \<Rightarrow> h2 x st))"
proof -
  show "bindR (arg argv i) (\<lambda>a. ev a st) = bindR (arg argv i) (\<lambda>a. ev' a st)"
    by (rule arg_bind_cong) (simp add: assms)
next
  assume "\<And>x st. g x st = h x st"
  then have "g = h" by blast
  then show "bindR (arg argv i) (\<lambda>a. bindR (Evaluate ev a st) (\<lambda>(v, st). case v of None \<Rightarrow> Inr (None, st) | Some x \<Rightarrow> g x st)) =
      bindR (arg argv i) (\<lambda>a. bindR (Evaluate ev' a st) (\<lambda>(v, st). case v of None \<Rightarrow> Inr (None, st) | Some x \<Rightarrow> h x st))"
    by (intro arg_bind_cong) (simp add: Evaluate_cong[OF assms] cong: option.case_cong)
next
  assume "\<And>x st. g2 x st = h2 x st"
  then have "g2 = h2" by blast
  then show "bindR (arg argv i) (\<lambda>a. bindR (ev a st) (\<lambda>(v, st). case v of None \<Rightarrow> Inr (None, st) | Some x \<Rightarrow> g2 x st)) =
      bindR (arg argv i) (\<lambda>a. bindR (ev' a st) (\<lambda>(v, st). case v of None \<Rightarrow> Inr (None, st) | Some x \<Rightarrow> h2 x st))"
    by (intro arg_bind_cong) (simp add: assms cong: option.case_cong)
qed

lemma string_test_cong:
  "(\<And>a. a \<in> set argv \<Longrightarrow> ev a = ev' a) \<Longrightarrow> string_test p ev argv st = string_test p ev' argv st"
  unfolding string_test_def by (intro arg_eval_cong(2)) auto

lemma LessThanIntFn_cong:
  "(\<And>a. a \<in> set argv \<Longrightarrow> ev a = ev' a) \<Longrightarrow> LessThanIntFn ev argv st = LessThanIntFn ev' argv st"
  by (cases "length argv = 2") (simp_all add: LessThanIntFn_def ReadArgs_two ReadVarArgs_cong[of argv ev ev'])

lemma builtins_cong:
  assumes "\<And>a. a \<in> set argv \<Longrightarrow> ev a = ev' a"
  shows "ConcatFn ev argv st = ConcatFn ev' argv st"
    and "IfElseFn ev argv st = IfElseFn ev' argv st"
    and "AbortFn ev argv st = AbortFn ev' argv st"
    and "SleepFn ev argv st = SleepFn ev' argv st"
    and "LogicalAndFn ev argv st = LogicalAndFn ev' argv st"
    and "LogicalOrFn ev argv st = LogicalOrFn ev' argv st"
    and "LogicalNotFn ev argv st = LogicalNotFn ev' argv st"
    and "SequenceFn ev argv st = SequenceFn ev' argv st"
    and "GreaterThanIntFn ev argv st = GreaterThanIntFn ev' argv st"
proof -
  note c = arg_eval_cong[of argv ev ev', OF assms]
  show "ConcatFn ev argv st = ConcatFn ev' argv st"
    by (simp add: ConcatFn_def ReadVarArgs_cong[of argv ev ev', OF assms])
  show "IfElseFn ev argv st = IfElseFn ev' argv st"
    unfolding IfElseFn_def by (intro if_cong refl c(2)) (auto simp: c(1))
  have "bindR (arg argv 0) (\<lambda>a. Evaluate ev a st) = bindR (arg argv 0) (\<lambda>a. Evaluate ev' a st)"
    by (intro arg_bind_cong) (simp add: Evaluate_cong[OF assms])
  then show "AbortFn ev argv st = AbortFn ev' argv st" by (simp add: AbortFn_def)
  show "SleepFn ev argv st = SleepFn ev' argv st" unfolding SleepFn_def by (rule c(2)) simp_all
  show "LogicalAndFn ev argv st = LogicalAndFn ev' argv st"
    unfolding LogicalAndFn_def by (rule c(2)) (simp_all add: c(1))
  show "LogicalOrFn ev argv st = LogicalOrFn ev' argv st"
    unfolding LogicalOrFn_def by (rule c(2)) (simp_all add: c(1))
  show "LogicalNotFn ev argv st = LogicalNotFn ev' argv st" unfolding LogicalNotFn_def by (rule c(2)) simp_all
  show "SequenceFn ev argv st = SequenceFn ev' argv st"
    unfolding SequenceFn_def by (rule c(3)) (simp_all add: c(1))
  have "LessThanIntFn ev [a, b] st = LessThanIntFn ev' [a, b] st" if "a \<in> set argv" "b \<in> set argv" for a b
    by (rule LessThanIntFn_cong) (use assms that in auto)
  then show "GreaterThanIntFn ev argv st = GreaterThanIntFn ev' argv st"
    unfolding GreaterThanIntFn_def by (intro if_cong refl arg_bind_cong) simp
qed

lemma call_cong:
  assumes "ext_local ext" "\<And>a. size a < size e \<Longrightarrow> ev a = ev' a"
  shows "call ext ev e st = call ext ev' e st"
proof -
  obtain fn name argv s t where e: "e = Expr fn name argv s t" by (cases e)
  have arg: "ev a = ev' a" if "a \<in> set argv" for a
    using assms(2)[of a] that size_list_estimation'[of a argv "size a" size] by (auto simp: e)
  have ext: "ext f name ev argv st = ext f name ev' argv st" for f
    using assms(1) arg unfolding ext_local_def by blast
  show ?thesis
    using builtins_cong[of argv ev ev', OF arg] AssertFn_cong[of argv ev ev', OF arg]
      StdoutFn_cong[of argv ev ev', OF arg] string_test_cong[of argv ev ev', OF arg]
      LessThanIntFn_cong[of argv ev ev', OF arg] ext
    by (cases fn) (simp_all add: call_def e SubstringFn_def EqualityFn_def InequalityFn_def)
qed

lemma eval_fuel_enough:
  assumes "ext_local ext"
  shows "size e < n \<Longrightarrow> size e < m \<Longrightarrow> eval_fuel ext n e = eval_fuel ext m e"
proof (induction n arbitrary: m e)
  case (Suc n)
  obtain m' where m: "m = Suc m'" using Suc.prems by (cases m) auto
  have "call ext (eval_fuel ext n) e st = call ext (eval_fuel ext m') e st" for st
  proof (rule call_cong[OF assms])
    fix a :: Expr
    assume "size a < size e"
    then show "eval_fuel ext n a = eval_fuel ext m' a" using Suc.IH[of a m'] Suc.prems m by linarith
  qed
  then show ?case by (simp add: m fun_eq_iff)
qed simp

lemma EvaluateValue_unfold:
  assumes "ext_local ext"
  shows "EvaluateValue ext e st = call ext (EvaluateValue ext) e st"
proof -
  have "eval_fuel ext (size e) a = EvaluateValue ext a" if "size a < size e" for a
    using eval_fuel_enough[OF assms, of a "size e" "Suc (size a)"] that
    by (simp add: EvaluateValue_def fun_eq_iff)
  then show ?thesis
    using call_cong[OF assms, of e "eval_fuel ext (size e)" "EvaluateValue ext"]
    by (simp add: EvaluateValue_def)
qed


lemma count_args_local: "ext_local count_args"
  unfolding ext_local_def count_args_def
proof (intro allI impI)
  fix ev ev' :: "'a eval" and argv and st :: "'a State"
  assume "\<forall>a\<in>set argv. ev a = ev' a"
  then have "ReadVarArgs ev argv st = ReadVarArgs ev' argv st" by (intro ReadVarArgs_cong) blast
  then show "bindR (ReadVarArgs ev argv st) (\<lambda>(r, st). Inr (StringValue (map_option (show_int \<circ> int \<circ> length) r), st)) =
      bindR (ReadVarArgs ev' argv st) (\<lambda>(r, st). Inr (StringValue (map_option (show_int \<circ> int \<circ> length) r), st))"
    by simp
qed

lemma count_args_fine: "ext_fine count_args"
  unfolding ext_fine_def count_args_def
proof (intro allI impI)
  fix ev :: "'a eval" and argv and st :: "'a State"
  assume "\<forall>a\<in>set argv. \<forall>st'. script st' = script st \<longrightarrow> fine st' (ev a st')"
  then have "fine st (ReadVarArgs ev argv st)" by (intro fine_ReadVarArgs) blast
  then show "fine st (bindR (ReadVarArgs ev argv st)
      (\<lambda>(r, st). Inr (StringValue (map_option (show_int \<circ> int \<circ> length) r), st)))"
    by (auto simp: fine_def StringValue_def)
qed


section \<open>Comparison of integers\<close>

text \<open>
  C34: \<open>less_than_int\<close> and \<open>greater_than_int\<close> on arguments that evaluate to decimal numbers compare
  the numbers, saturated at the ends of the 32-bit type.
\<close>

theorem integer_comparison:
  assumes "ev a st = Inr (Some (VString (show_int i)), st)" "ev b st = Inr (Some (VString (show_int j)), st)"
  shows "LessThanIntFn ev [a, b] st = Inr (Some (VString (if clamp32 i < clamp32 j then ''t'' else '''')), st)
    \<and> GreaterThanIntFn ev [a, b] st = Inr (Some (VString (if clamp32 j < clamp32 i then ''t'' else '''')), st)"
proof -
  have "int_less (show_int x) (show_int y) \<longleftrightarrow> clamp32 x < clamp32 y" for x y
    by (simp add: int_less_def strtol_show_int)
  then show ?thesis
    using assms by (simp add: LessThanIntFn_def GreaterThanIntFn_def ReadArgs_two Evaluate_def
        arg_def rd_def StringValue_def)
qed

theorem integer_comparison_witness:
  "LessThanIntFn (EvaluateValue count_args) [Expr FLiteral ''3'' [] 14 15, Expr FLiteral ''14'' [] 17 19]
     (state0 ''less_than_int(3, 14)'') = Inr (Some (VString ''t''), state0 ''less_than_int(3, 14)'')"
proof -
  have s: "show_int 3 = ''3''" "show_int 14 = ''14''"
    by code_simp+
  show ?thesis
    using integer_comparison[of "EvaluateValue count_args" "Expr FLiteral ''3'' [] 14 15"
        "state0 ''less_than_int(3, 14)''" 3 "Expr FLiteral ''14'' [] 17 19" 14]
    by (simp add: s EvaluateValue_def call_def Literal_def StringValue_def clamp32_def)
qed

section \<open>Registration and lookup of functions\<close>

interpretation fe: comparison_function fn_entry_compare
  unfolding fn_entry_compare_def
  by unfold_locales (rule strcmp_flip, rule strcmp_trans)

lemma RegisterFunction_ok:
  assumes "table_ok t"
  shows "\<exists>t'. RegisterFunction nf t = Inr t' \<and> table_ok t' \<and> entries t' = entries t @ [nf]"
proof -
  have *: "map the (take (Suc n) (xs[n := Some nf])) = map the (take n xs) @ [nf]"
    if "n < length xs" for n and xs :: "(string \<times> Function) option list"
    using that by (simp add: take_Suc_conv_app_nth)
  show ?thesis
    using assms by (auto simp: RegisterFunction_def table_ok_def entries_def Let_def rd_def *)
qed

lemma foldR_RegisterFunction:
  "table_ok t \<Longrightarrow>
   \<exists>t'. foldR RegisterFunction nfs t = Inr t' \<and> table_ok t' \<and> entries t' = entries t @ nfs"
proof (induction nfs arbitrary: t)
  case (Cons nf nfs)
  obtain t1 where t1: "RegisterFunction nf t = Inr t1" "table_ok t1" "entries t1 = entries t @ [nf]"
    using RegisterFunction_ok[OF Cons.prems] by blast
  then show ?case using Cons.IH[OF t1(2)] by auto
qed simp

lemma entries_FinishRegistration:
  "table_ok t \<Longrightarrow> entries (FinishRegistration t) = qsort fn_entry_compare (entries t)"
proof -
  assume t: "table_ok t"
  have "length (qsort fn_entry_compare xs) = length xs" for xs
    using fe.mset_qsort[of xs] mset_eq_length by blast
  then show ?thesis
    using t by (simp add: FinishRegistration_def entries_def table_ok_def o_def)
qed

lemma FindFunction_sorted:
  assumes "sorted_wrt (\<lambda>a b. fn_entry_compare a b \<le> 0) (entries t)" "distinct (map fst (entries t))"
  shows "FindFunction t n = map_of (entries t) n"
proof -
  have F: "FindFunction t n = map_option (\<lambda>i. snd (entries t ! i)) (bsearch fn_entry_compare (n, FLiteral) (entries t))"
    by (simp add: FindFunction_def entries_def Let_def)
  show ?thesis
  proof (cases "bsearch fn_entry_compare (n, FLiteral) (entries t)")
    case None
    then have "n \<notin> fst ` set (entries t)"
      using fe.bsearch_sorted[OF assms(1), of "(n, FLiteral)"] by (force simp: fn_entry_compare_def)
    then show ?thesis using F None by (metis map_of_eq_None_iff option.map_disc_iff)
  next
    case (Some i)
    then have "i < length (entries t)" "fst (entries t ! i) = n"
      using fe.bsearch_sorted[OF assms(1), of "(n, FLiteral)"] by (auto simp: fn_entry_compare_def)
    then have "map_of (entries t) n = Some (snd (entries t ! i))"
      using map_of_eq_Some_iff[OF assms(2)] nth_mem by (metis prod.collapse)
    then show ?thesis using F Some by simp
  qed
qed

text \<open>
  C33: registering never writes outside the table, whatever the number of functions, and after
  \<open>FinishRegistration\<close> the binary search of \<open>FindFunction\<close> finds exactly the registered names, each
  with its function, provided no name is used twice.
\<close>

theorem FindFunction_correct:
  assumes "distinct (map fst (builtins @ nfs))"
  shows "\<exists>t. bindR (RegisterBuiltins fn_empty) (foldR RegisterFunction nfs) = Inr t
    \<and> (\<forall>n. FindFunction (FinishRegistration t) n = map_of (builtins @ nfs) n)"
proof -
  have "table_ok fn_empty" "entries fn_empty = []"
    by (simp_all add: table_ok_def fn_empty_def entries_def)
  then obtain t where t: "foldR RegisterFunction (builtins @ nfs) fn_empty = Inr t" "table_ok t"
    "entries t = builtins @ nfs"
    using foldR_RegisterFunction[of fn_empty "builtins @ nfs"] by auto
  have s: "entries (FinishRegistration t) = qsort fn_entry_compare (builtins @ nfs)"
    using entries_FinishRegistration t(2,3) by simp
  have m: "mset (map fst (entries (FinishRegistration t))) = mset (map fst (builtins @ nfs))"
    by (simp only: s mset_map fe.mset_qsort)
  then have d: "distinct (map fst (entries (FinishRegistration t)))"
    using assms by (metis distinct_count_atmost_1 set_mset_mset)
  have "FindFunction (FinishRegistration t) n = map_of (entries (FinishRegistration t)) n" for n
    by (rule FindFunction_sorted[OF _ d]) (simp only: s fe.qsort_sorted)
  moreover have "map_of (entries (FinishRegistration t)) = map_of (builtins @ nfs)"
  proof
    fix n
    have "set (entries (FinishRegistration t)) = set (builtins @ nfs)" using s fe.set_qsort by simp
    then show "map_of (entries (FinishRegistration t)) n = map_of (builtins @ nfs) n"
      using map_of_eq_Some_iff[OF d, of n] map_of_eq_Some_iff[OF assms, of n]
      by (metis not_None_eq)
  qed
  ultimately show ?thesis using t(1) by (auto simp: RegisterBuiltins_def foldR_append)
qed

theorem FindFunction_correct_witness:
  "\<exists>t. bindR (RegisterBuiltins fn_empty) (foldR RegisterFunction [(''mount'', FExtern ''MountFn'')]) = Inr t
    \<and> FindFunction (FinishRegistration t) ''mount'' = Some (FExtern ''MountFn'')
    \<and> FindFunction (FinishRegistration t) ''assert'' = Some FAssert
    \<and> FindFunction (FinishRegistration t) ''nosuch'' = None"
proof -
  have "distinct (map fst (builtins @ [(''mount'', FExtern ''MountFn'')]))" by code_simp
  from FindFunction_correct[OF this] obtain t where
    "bindR (RegisterBuiltins fn_empty) (foldR RegisterFunction [(''mount'', FExtern ''MountFn'')]) = Inr t"
    and f: "\<And>n. FindFunction (FinishRegistration t) n = map_of (builtins @ [(''mount'', FExtern ''MountFn'')]) n"
    by blast
  moreover have "map_of (builtins @ [(''mount'', FExtern ''MountFn'')]) ''mount'' = Some (FExtern ''MountFn'')"
    "map_of (builtins @ [(''mount'', FExtern ''MountFn'')]) ''assert'' = Some FAssert"
    "map_of (builtins @ [(''mount'', FExtern ''MountFn'')]) ''nosuch'' = None"
    by code_simp+
  ultimately show ?thesis by (intro exI[of _ t]) (simp only: f simp_thms)
qed

section \<open>Positions of tokens\<close>

lemma str_rule_bounds: "s \<noteq> [] \<Longrightarrow> 0 < fst (str_rule s) \<and> fst (str_rule s) \<le> length s"
proof -
  assume s: "s \<noteq> []"
  have "take 2 s = [a, b] \<Longrightarrow> 2 \<le> length s" for a b
    by (metis length_Cons length_take list.size(3) min.cobounded1 One_nat_def Suc_1)
  then show ?thesis using s by (auto simp: str_rule_def Suc_le_eq)
qed

lemma str_rule_newline: "hd s = CHR 0x0A \<Longrightarrow> s \<noteq> [] \<Longrightarrow> fst (str_rule s) = 1"
  by (cases s) (auto simp: str_rule_def)

lemma lex_str_pos:
  "lex_str lx buf s = Inr (Some (w, lx', s')) \<Longrightarrow>
   length s' < length s \<and> gPos lx' = gPos lx + int (length s) - int (length s')
   \<and> yylloc lx' = (fst (yylloc lx), gPos lx')"
proof (induction "length s" arbitrary: lx buf s rule: less_induct)
  case less
  have ne: "s \<noteq> []" using less.prems by (auto simp: lex_str.simps)
  show ?case
  proof (cases "hd s = CHR 0x22")
    case True
    then show ?thesis
      using less.prems ne lex_str.simps[of lx buf s] by (cases s) (auto simp: bump_def Let_def split: if_splits)
  next
    case False
    obtain n c where r: "str_rule s = (n, c)" by (cases "str_rule s")
    define lx1 where "lx1 = (if hd s = CHR 0x0A then newline 1 lx else bump n lx)"
    have n: "0 < n" "n \<le> length s" using str_rule_bounds[OF ne] r by auto
    have "lex_str lx1 (buf @ [c]) (drop n s) = Inr (Some (w, lx', s'))"
      using less.prems ne False r lex_str.simps[of lx buf s] by (simp add: lx1_def split: if_splits)
    then have "length s' < length (drop n s) \<and> gPos lx' = gPos lx1 + int (length (drop n s)) - int (length s')
       \<and> yylloc lx' = (fst (yylloc lx1), gPos lx')"
      using less.hyps[of "drop n s" lx1 "buf @ [c]"] n by simp
    moreover have "gPos lx1 = gPos lx + int n" "yylloc lx1 = yylloc lx"
      using str_rule_newline[OF _ ne] r by (auto simp: lx1_def newline_def bump_def)
    ultimately show ?thesis using n by auto
  qed
qed

lemma advances_ADVANCE: "0 < n \<Longrightarrow> n \<le> length s \<Longrightarrow> advances lx s t (ADVANCE n lx) (drop n s)"
  by (auto simp: advances_def ADVANCE_def)

lemma advances_skip:
  "advances lx1 (drop n s) t lx' s' \<Longrightarrow> n \<le> length s \<Longrightarrow> gPos lx1 = gPos lx + int n \<Longrightarrow> advances lx s t lx' s'"
  by (auto simp: advances_def)

lemma op_token_bounds: "s \<noteq> [] \<Longrightarrow> op_token s = Some (t, n) \<Longrightarrow> 0 < n \<and> n \<le> length s"
proof -
  assume a: "s \<noteq> []" "op_token s = Some (t, n)"
  have "take 2 s = [a, b] \<Longrightarrow> 2 \<le> length s" for a b
    by (metis length_Cons length_take list.size(3) min.cobounded1 One_nat_def Suc_1)
  then show ?thesis using a by (auto simp: op_token_def Suc_le_eq split: if_splits)
qed

lemma takeWhile_bounds: "s \<noteq> [] \<Longrightarrow> P (hd s) \<Longrightarrow> 0 < length (takeWhile P s) \<and> length (takeWhile P s) \<le> length s"
  by (cases s) (auto simp: length_takeWhile_le)

lemma takeWhile_stops: "x \<in> set s \<Longrightarrow> \<not> P x \<Longrightarrow> length (takeWhile P s) < length s"
  by (induction s) auto

lemma yylex_advances: "yylex lx s = Inr (Some (t, lx', s')) \<Longrightarrow> advances lx s t lx' s'"
proof (induction "length s" arbitrary: lx s rule: less_induct)
  case less
  note eq = yylex.simps[of lx s]
  have ne: "s \<noteq> []" using less.prems by (auto simp: eq)
  consider (quote) "hd s = CHR 0x22" | (word) "hd s \<noteq> CHR 0x22" "word_char (hd s)"
    | (op) t1 n where "hd s \<noteq> CHR 0x22" "\<not> word_char (hd s)" "op_token s = Some (t1, n)"
    | (other) "hd s \<noteq> CHR 0x22" "\<not> word_char (hd s)" "op_token s = None"
    by (cases "op_token s") auto
  then show ?case
  proof cases
    case quote
    define lx1 where "lx1 = bump 1 (lx\<lparr>yylloc := (gPos lx, snd (yylloc lx))\<rparr>)"
    obtain w where "lex_str lx1 [] (tl s) = Inr (Some (w, lx', s'))" and t: "t = T_STRING w"
      using less.prems ne quote by (auto simp: eq lx1_def split: option.splits)
    from lex_str_pos[OF this(1)] show ?thesis
      using ne t by (cases s) (auto simp: advances_def lx1_def bump_def)
  next
    case word
    then show ?thesis
      using less.prems ne takeWhile_bounds[OF ne, of word_char] by (auto simp: eq Let_def advances_ADVANCE)
  next
    case op
    then show ?thesis
      using less.prems ne op_token_bounds[OF ne op(3)] by (auto simp: eq advances_ADVANCE)
  next
    case other
    define blank where "blank = (\<lambda>c. c = CHR '' '' \<or> c = CHR 0x09)"
    define line where "line = length (takeWhile (\<lambda>c. c \<noteq> CHR 0x0A) s) + 1"
    consider (blank) "blank (hd s)" | (nl) "\<not> blank (hd s)" "hd s = CHR 0x0A"
      | (comment) "\<not> blank (hd s)" "hd s \<noteq> CHR 0x0A" "hd s = CHR ''#'' \<and> CHR 0x0A \<in> set s"
      | (bad) "\<not> blank (hd s)" "hd s \<noteq> CHR 0x0A" "\<not> (hd s = CHR ''#'' \<and> CHR 0x0A \<in> set s)"
      by blast
    then show ?thesis
    proof cases
      case blank
      define n where "n = length (takeWhile blank s)"
      have n: "0 < n" "n \<le> length s" using takeWhile_bounds[OF ne, of blank] blank by (auto simp: n_def)
      have "yylex (ADVANCE n lx) (drop n s) = Inr (Some (t, lx', s'))"
        using less.prems ne other blank by (simp add: eq Let_def n_def blank_def)
      then have "advances (ADVANCE n lx) (drop n s) t lx' s'" using less.hyps[of "drop n s"] n by simp
      then show ?thesis by (rule advances_skip) (use n in \<open>auto simp: ADVANCE_def\<close>)
    next
      case nl
      have "yylex (newline 1 lx) (drop 1 s) = Inr (Some (t, lx', s'))"
        using less.prems ne other nl by (simp add: eq blank_def drop_Suc)
      then have "advances (newline 1 lx) (drop 1 s) t lx' s'" using less.hyps[of "drop 1 s"] ne by simp
      then show ?thesis by (rule advances_skip) (use ne in \<open>auto simp: newline_def Suc_le_eq\<close>)
    next
      case comment
      have "length (takeWhile (\<lambda>c. c \<noteq> CHR 0x0A) s) < length s"
        using comment(3) takeWhile_stops[of "CHR 0x0A" s "\<lambda>c. c \<noteq> CHR 0x0A"] by simp
      then have n: "0 < line" "line \<le> length s" by (auto simp: line_def)
      have "yylex (newline line lx) (drop line s) = Inr (Some (t, lx', s'))"
        using less.prems ne other comment by (simp add: eq blank_def Let_def line_def)
      then have "advances (newline line lx) (drop line s) t lx' s'" using less.hyps[of "drop line s"] n by simp
      then show ?thesis by (rule advances_skip) (use n in \<open>auto simp: newline_def\<close>)
    next
      case bad
      then show ?thesis
        using less.prems ne other by (auto simp: eq blank_def advances_def)
    qed
  qed
qed

lemma locs_ok_le: "locs_ok lo hi ts \<Longrightarrow> lo \<le> hi"
  by (induction lo hi ts rule: locs_ok.induct) auto

lemma locs_ok_weaken: "locs_ok m hi ts \<Longrightarrow> lo \<le> m \<Longrightarrow> locs_ok lo hi ts"
  by (cases "(lo, hi, ts)" rule: locs_ok.cases) auto

lemma locs_ok_append: "locs_ok lo hi (a @ b) \<longleftrightarrow> (\<exists>m. locs_ok lo m a \<and> locs_ok m hi b)"
proof (induction lo hi a rule: locs_ok.induct)
  case (1 lo hi)
  then show ?case using locs_ok_weaken by auto
qed auto

lemma locs_ok_Cons:
  "locs_ok lo hi ((t, l) # ts) \<longleftrightarrow> lo \<le> fst l \<and> fst l \<le> snd l \<and> locs_ok (snd l) hi ts"
  by (cases l) simp

lemma lex_fuel_locs:
  "lex_fuel n lx s = Inr ts \<Longrightarrow> T_BAD \<notin> fst ` set ts \<Longrightarrow> locs_ok (gPos lx) (gPos lx + int (length s)) ts"
proof (induction n arbitrary: lx s ts)
  case (Suc n)
  obtain r where r: "yylex lx s = Inr r" using Suc.prems by auto
  show ?case
  proof (cases r)
    case None
    then show ?thesis using Suc.prems r by simp
  next
    case (Some x)
    obtain t lx' s' where x: "x = (t, lx', s')" by (cases x)
    obtain ts' where ts: "lex_fuel n lx' s' = Inr ts'" "ts = (t, yylloc lx') # ts'"
      using Suc.prems(1) r Some x by auto
    have a: "advances lx s t lx' s'" using yylex_advances r Some x by simp
    moreover have "locs_ok (gPos lx') (gPos lx' + int (length s')) ts'"
      using Suc.IH[OF ts(1)] Suc.prems(2) ts(2) by simp
    moreover have "T_BAD \<noteq> t" using Suc.prems(2) ts(2) by auto
    ultimately show ?thesis using ts(2) by (auto simp: advances_def locs_ok_Cons)
  qed
qed simp

lemma lex_str_fault: "lex_str lx buf s = Inl f \<Longrightarrow> f = OutOfBounds"
proof (induction "length s" arbitrary: lx buf s rule: less_induct)
  case less
  show ?case
  proof (cases "s \<noteq> [] \<and> hd s \<noteq> CHR 0x22 \<and> length buf < MAX_STRING_LEN")
    case True
    obtain n c where r: "str_rule s = (n, c)" by (cases "str_rule s")
    have "0 < n" using str_rule_bounds[of s] r True by simp
    moreover have "lex_str (if hd s = CHR 0x0A then newline 1 lx else bump n lx) (buf @ [c]) (drop n s) = Inl f"
      using less.prems True r lex_str.simps[of lx buf s] by simp
    ultimately show ?thesis using less.hyps[of "drop n s"] True by simp
  next
    case False
    then show ?thesis using less.prems lex_str.simps[of lx buf s] by (auto simp: Let_def split: if_splits)
  qed
qed

lemma bindR_eq_Inl: "bindR m f = Inl e \<longleftrightarrow> m = Inl e \<or> (\<exists>x. m = Inr x \<and> f x = Inl e)"
  by (cases m) auto

lemma yylex_fault: "yylex lx s = Inl f \<Longrightarrow> f = OutOfBounds"
proof (induction "length s" arbitrary: lx s rule: less_induct)
  case less
  note eq = yylex.simps[of lx s]
  have ne: "s \<noteq> []" using less.prems by (auto simp: eq)
  show ?case
  proof (cases "hd s = CHR 0x22")
    case True
    then show ?thesis using less.prems ne lex_str_fault by (auto simp: eq bindR_eq_Inl)
  next
    case False
    define blank where "blank = (\<lambda>c. c = CHR '' '' \<or> c = CHR 0x09)"
    define line where "line = length (takeWhile (\<lambda>c. c \<noteq> CHR 0x0A) s) + 1"
    have nw: "\<not> word_char (hd s)" and no: "op_token s = None"
      using less.prems ne False by (auto simp: eq Let_def split: option.splits if_splits)
    note eq' = eq[simplified ne False nw no if_False option.case]
    consider (blank) "blank (hd s)" | (nl) "\<not> blank (hd s)" "hd s = CHR 0x0A"
      | (comment) "\<not> blank (hd s)" "hd s \<noteq> CHR 0x0A" "hd s = CHR ''#'' \<and> CHR 0x0A \<in> set s"
      | (bad) "\<not> blank (hd s)" "hd s \<noteq> CHR 0x0A" "\<not> (hd s = CHR ''#'' \<and> CHR 0x0A \<in> set s)"
      by blast
    then show ?thesis
    proof cases
      case blank
      define n where "n = length (takeWhile blank s)"
      have "yylex (ADVANCE n lx) (drop n s) = Inl f"
        using less.prems blank by (simp add: eq' Let_def n_def blank_def)
      then show ?thesis using less.hyps[of "drop n s"] takeWhile_bounds[OF ne, of blank] blank ne by (simp add: n_def)
    next
      case nl
      have "yylex (newline 1 lx) (tl s) = Inl f" using less.prems nl by (simp add: eq' blank_def)
      then show ?thesis using less.hyps[of "tl s"] ne by simp
    next
      case comment
      have "yylex (newline line lx) (drop line s) = Inl f"
        using less.prems comment by (simp add: eq' blank_def Let_def line_def)
      then show ?thesis using less.hyps[of "drop line s"] ne by (simp add: line_def)
    next
      case bad
      then show ?thesis using less.prems by (auto simp: eq' blank_def)
    qed
  qed
qed

lemma lex_fuel_fault: "length s < n \<Longrightarrow> lex_fuel n lx s = Inl f \<Longrightarrow> f = OutOfBounds"
proof (induction n arbitrary: lx s)
  case (Suc n)
  show ?case
  proof (cases "yylex lx s")
    case (Inl g)
    then show ?thesis using Suc.prems yylex_fault[of lx s] by simp
  next
    case (Inr r)
    then obtain t lx' s' where r: "r = Some (t, lx', s')" using Suc.prems(2) by (cases r) auto
    then have "length s' < length s" using yylex_advances[of lx s t lx' s'] Inr by (simp add: advances_def)
    moreover have "lex_fuel n lx' s' = Inl f" using Suc.prems(2) Inr r by (simp add: bindR_eq_Inl)
    ultimately show ?thesis using Suc.IH[of s' lx'] Suc.prems(1) by simp
  qed
qed simp

section \<open>What the grammar builds\<close>

lemma spans_in_mono: "spans_in m e \<Longrightarrow> m \<le> n \<Longrightarrow> spans_in n e"
  by (induction e) auto

lemma spans_in_set_span: "spans_in n e \<Longrightarrow> 0 \<le> s \<Longrightarrow> s \<le> t \<Longrightarrow> t \<le> n \<Longrightarrow> spans_in n (set_span (s, t) e)"
  by (cases e) auto

lemma expr_not_bad:
  "expr T ts e l \<Longrightarrow> T_BAD \<notin> fst ` set ts"
  "arglist T ts as \<Longrightarrow> T_BAD \<notin> fst ` set ts"
  by (induction rule: expr_arglist.inducts) (auto simp: binop_def split: if_splits)

lemma expr_spans:
  "expr T ts e l \<Longrightarrow> 0 \<le> lo \<Longrightarrow> locs_ok lo hi ts \<Longrightarrow>
     spans_in hi e \<and> lo \<le> fst l \<and> fst l \<le> snd l \<and> snd l \<le> hi"
  "arglist T ts as \<Longrightarrow> 0 \<le> lo \<Longrightarrow> locs_ok lo hi ts \<Longrightarrow> \<forall>a \<in> set as. spans_in hi a"
proof (induction arbitrary: lo hi and lo hi rule: expr_arglist.inducts)
  case (string s l)
  then show ?case using locs_ok_le by (fastforce simp: locs_ok_Cons)
next
  case (paren ts e l loc l1 l2)
  obtain m where m: "lo \<le> fst l1" "fst l1 \<le> snd l1" "locs_ok (snd l1) m ts" "locs_ok m hi [(T_CHAR (CHR '')''), l2)]"
    using paren.prems by (auto simp: locs_ok_Cons locs_ok_append)
  have "spans_in m e \<and> snd l1 \<le> fst l \<and> fst l \<le> snd l \<and> snd l \<le> m"
    using paren.IH(2)[of "snd l1" m] m paren.prems by simp
  then show ?case
    using m paren.prems paren.hyps by (auto simp: locs_ok_Cons intro!: spans_in_set_span intro: spans_in_mono)
next
  case (semi ts e l l1)
  obtain m where m: "locs_ok lo m ts" "locs_ok m hi [(T_CHAR (CHR '';''), l1)]"
    using semi.prems by (auto simp: locs_ok_append)
  have "spans_in m e \<and> lo \<le> fst l \<and> fst l \<le> snd l \<and> snd l \<le> m" using semi.IH(2)[of lo m] m semi.prems by simp
  then show ?case
    using m semi.prems spans_in_set_span[of hi e "fst l" "snd l"] spans_in_mono[of m e hi]
    by (auto simp: locs_ok_Cons)
next
  case (binary ts1 e1 l1 ts2 e2 l2 t fn loc l)
  obtain m where m: "locs_ok lo m ts1" "m \<le> fst l" "fst l \<le> snd l" "locs_ok (snd l) hi ts2"
    using binary.prems by (auto simp: locs_ok_append locs_ok_Cons)
  have 1: "spans_in m e1 \<and> lo \<le> fst l1 \<and> fst l1 \<le> snd l1 \<and> snd l1 \<le> m"
    using binary.IH(2)[of lo m] m binary.prems by simp
  have 2: "spans_in hi e2 \<and> snd l \<le> fst l2 \<and> fst l2 \<le> snd l2 \<and> snd l2 \<le> hi"
    using binary.IH(4)[of "snd l" hi] m 1 binary.prems by simp
  show ?case using 1 2 m binary.prems binary.hyps spans_in_mono[of m e1 hi] by (auto simp: Build_def)
next
  case (not ts e l loc l1)
  have "spans_in hi e \<and> snd l1 \<le> fst l \<and> fst l \<le> snd l \<and> snd l \<le> hi"
    using not.IH(2)[of "snd l1" hi] not.prems by (simp add: locs_ok_Cons)
  then show ?case using not by (auto simp: Build_def locs_ok_Cons)
next
  case (if_then ts1 e1 l1 ts2 e2 l2 loc la lc lb)
  obtain m n where m: "lo \<le> fst la" "fst la \<le> snd la" "locs_ok (snd la) m ts1" "m \<le> fst lb" "fst lb \<le> snd lb"
    "locs_ok (snd lb) n ts2" "n \<le> fst lc" "fst lc \<le> snd lc" "snd lc \<le> hi"
    using if_then.prems by (auto simp: locs_ok_append locs_ok_Cons)
  have 1: "spans_in m e1 \<and> snd la \<le> fst l1 \<and> fst l1 \<le> snd l1 \<and> snd l1 \<le> m"
    using if_then.IH(2)[of "snd la" m] m if_then.prems by simp
  have 2: "spans_in n e2 \<and> snd lb \<le> fst l2 \<and> fst l2 \<le> snd l2 \<and> snd l2 \<le> n"
    using if_then.IH(4)[of "snd lb" n] m 1 if_then.prems by simp
  show ?case
    using 1 2 m if_then.prems if_then.hyps spans_in_mono[of m e1 hi] spans_in_mono[of n e2 hi]
    by (auto simp: Build_def)
next
  case (if_else ts1 e1 l1 ts2 e2 l2 ts3 e3 l3 loc la ld lb lc)
  obtain m n k where m: "lo \<le> fst la" "fst la \<le> snd la" "locs_ok (snd la) m ts1" "m \<le> fst lb" "fst lb \<le> snd lb"
    "locs_ok (snd lb) n ts2" "n \<le> fst lc" "fst lc \<le> snd lc" "locs_ok (snd lc) k ts3"
    "k \<le> fst ld" "fst ld \<le> snd ld" "snd ld \<le> hi"
    using if_else.prems by (auto simp: locs_ok_append locs_ok_Cons)
  have 1: "spans_in m e1 \<and> snd la \<le> fst l1 \<and> fst l1 \<le> snd l1 \<and> snd l1 \<le> m"
    using if_else.IH(2)[of "snd la" m] m if_else.prems by simp
  have 2: "spans_in n e2 \<and> snd lb \<le> fst l2 \<and> fst l2 \<le> snd l2 \<and> snd l2 \<le> n"
    using if_else.IH(4)[of "snd lb" n] m 1 if_else.prems by simp
  have 3: "spans_in k e3 \<and> snd lc \<le> fst l3 \<and> fst l3 \<le> snd l3 \<and> snd l3 \<le> k"
    using if_else.IH(6)[of "snd lc" k] m 1 2 if_else.prems by simp
  show ?case
    using 1 2 3 m if_else.prems if_else.hyps
      spans_in_mono[of m e1 hi] spans_in_mono[of n e2 hi] spans_in_mono[of k e3 hi]
    by (auto simp: Build_def)
next
  case (call ts as s fn l1 l2 l3)
  obtain m where m: "lo \<le> fst l1" "fst l1 \<le> snd l1" "snd l1 \<le> fst l2" "fst l2 \<le> snd l2" "locs_ok (snd l2) m ts"
    "m \<le> fst l3" "fst l3 \<le> snd l3" "snd l3 \<le> hi"
    using call.prems by (auto simp: locs_ok_append locs_ok_Cons)
  have "\<forall>a \<in> set as. spans_in m a" using call.IH(2)[of "snd l2" m] m call.prems by simp
  then show ?case using m locs_ok_le[OF m(5)] call.prems spans_in_mono[of m _ hi] by auto
next
  case args_empty
  then show ?case by simp
next
  case (args_one ts e l)
  then show ?case by simp
next
  case (args_more ts1 as ts2 e l lc)
  obtain m where m: "locs_ok lo m ts1" "m \<le> fst lc" "fst lc \<le> snd lc" "locs_ok (snd lc) hi ts2"
    using args_more.prems by (auto simp: locs_ok_append locs_ok_Cons)
  have "\<forall>a \<in> set as. spans_in m a" using args_more.IH(2)[of lo m] m args_more.prems by simp
  moreover have "spans_in hi e"
    using args_more.IH(4)[of "snd lc" hi] m args_more.prems locs_ok_le[OF m(1)] by simp
  ultimately show ?case using m locs_ok_le[OF m(4)] spans_in_mono[of m _ hi] by auto
qed

section \<open>Evaluating a parsed script\<close>


lemma EvaluateValue_count [simp]:
  "EvaluateValue count_args (Expr fn name argv s t) st = call count_args (EvaluateValue count_args) (Expr fn name argv s t) st"
  by (rule EvaluateValue_unfold[OF count_args_local])


text \<open>Without arguments \<open>sleep\<close> and \<open>is_substring\<close> read \<open>argv[0]\<close> of a \<open>NULL\<close> pointer.\<close>

lemma sleep_without_arguments:
  "EvaluateValue ext (Expr FSleep ''sleep'' [] 0 7) st = Inl NullDeref"
  "EvaluateValue ext (Expr FSubstring ''is_substring'' [] 0 14) st = Inl NullDeref"
  by (simp_all add: EvaluateValue_def call_def SleepFn_def SubstringFn_def string_test_def arg_def)

section \<open>String literals\<close>

lemma escape_first: "hd (escape c @ r) \<noteq> CHR 0x22 \<and> hd (escape c @ r) \<noteq> CHR 0x0A"
  by (simp add: escape_def)

lemma str_rule_escape: "str_rule (escape c @ r) = (length (escape c), c)"
  by (simp add: str_rule_def escape_def)

lemma lex_str_quoted:
  assumes "CHR 0x00 \<notin> set s" "CHR 0x00 \<notin> set buf"
  shows "if length (buf @ s) < MAX_STRING_LEN
    then \<exists>lx'. lex_str lx buf (List.concat (map escape s) @ CHR 0x22 # r) = Inr (Some (buf @ s, lx', r))
      \<and> yylloc lx' = (fst (yylloc lx), gPos lx + int (length (List.concat (map escape s))) + 1)
    else lex_str lx buf (List.concat (map escape s) @ CHR 0x22 # r) = Inl OutOfBounds"
  using assms
proof (induction s arbitrary: buf lx)
  case Nil
  have "takeWhile (\<lambda>c. c \<noteq> CHR 0x00) buf = buf" using Nil by (auto simp: takeWhile_eq_all_conv)
  then show ?case by (simp add: lex_str.simps bump_def)
next
  case (Cons c cs)
  have "escape c @ List.concat (map escape cs) @ CHR 0x22 # r \<noteq> []" by simp
  then have step: "lex_str lx buf (escape c @ List.concat (map escape cs) @ CHR 0x22 # r) =
      (if length buf < MAX_STRING_LEN
       then lex_str (bump (length (escape c)) lx) (buf @ [c]) (List.concat (map escape cs) @ CHR 0x22 # r)
       else Inl OutOfBounds)"
    using escape_first[of c "List.concat (map escape cs) @ CHR 0x22 # r"] str_rule_escape[of c]
      lex_str.simps[of lx buf "escape c @ List.concat (map escape cs) @ CHR 0x22 # r"] by simp
  show ?case
    using Cons.IH[of "buf @ [c]" "bump (length (escape c)) lx"] Cons.prems
    by (auto simp: step bump_def add.assoc)
qed

text \<open>
  C35: a string written as a literal is lexed back to itself, as one token that spans the literal,
  if it fits the 1024 bytes of the buffer with its terminator; a longer one is written past the
  buffer.
\<close>

theorem lex_quote_roundtrip:
  assumes "CHR 0x00 \<notin> set s"
  shows "lex (quote s) = (if length s < 1024 then Inr [(T_STRING s, (0, int (length (quote s))))] else Inl OutOfBounds)"
proof -
  define lx1 where "lx1 = bump 1 (lexer0\<lparr>yylloc := (0, 0)\<rparr>)"
  have y: "yylex lexer0 (quote s) =
      bindR (lex_str lx1 [] (List.concat (map escape s) @ [CHR 0x22])) (\<lambda>r.
        Inr (map_option (\<lambda>(w, lx, s). (T_STRING w, lx, s)) r))"
    by (subst yylex.simps) (simp add: quote_def lx1_def lexer0_def)
  have q: "if length s < 1024
    then \<exists>lx'. lex_str lx1 [] (List.concat (map escape s) @ [CHR 0x22]) = Inr (Some (s, lx', []))
      \<and> yylloc lx' = (0, int (length (quote s)))
    else lex_str lx1 [] (List.concat (map escape s) @ [CHR 0x22]) = Inl OutOfBounds"
    using lex_str_quoted[OF assms, of "[]" lx1 "[]"]
    by (simp add: MAX_STRING_LEN_def lx1_def bump_def lexer0_def quote_def add.commute split: if_splits)
  obtain n where n: "length (quote s) = Suc n" by (simp add: quote_def)
  have "yylex lx [] = Inr None" for lx by (simp add: yylex.simps)
  then show ?thesis using q by (auto simp: lex_def n y split: if_splits)
qed

theorem lex_quote_roundtrip_witness:
  "lex (quote ''a\"b'') = Inr [(T_STRING ''a\"b'', (0, 6))]"
proof -
  have "CHR 0x00 \<notin> set ''a\"b''" "length (quote ''a\"b'') = 6" by code_simp+
  then show ?thesis using lex_quote_roundtrip[of "''a\"b''"] by simp
qed

end
