(* ===== verification/Bs_Patch.thy ===== *)
theory Bs_Patch
  imports Prelude
begin

text \<open>
  Binary patches: the little-endian encoders of \<open>applypatch/utils.c\<close>, the patch
  application of \<open>applypatch/bspatch.c\<close>, and the patch generator of
  \<open>applypatch/bsdiff.c\<close> up to its suffix sort. The device's \<open>off_t\<close>, \<open>ssize_t\<close>
  and \<open>int\<close> are 32 bits wide; a value of these types is an \<open>int\<close>, and a
  computation that can leave the range is wrapped with \<open>s32\<close>. The generator
  runs on the build host with a 64-bit \<open>off_t\<close>; its positions stay within the
  files, so there they are plain integers.
\<close>

unbundle bit_operations_syntax

section \<open>Encoders (utils.c)\<close>

text \<open>A stdio stream opened for writing is the list of the bytes written.\<close>

definition Write4 :: "u32 \<Rightarrow> bytes \<Rightarrow> bytes" where
  "Write4 value f =
     f @ [ucast (value AND 0xff), ucast (drop_bit 8 value AND 0xff),
          ucast (drop_bit 16 value AND 0xff), ucast (drop_bit 24 value AND 0xff)]"

definition Write8 :: "u64 \<Rightarrow> bytes \<Rightarrow> bytes" where
  "Write8 value f =
     f @ [ucast (value AND 0xff), ucast (drop_bit 8 value AND 0xff),
          ucast (drop_bit 16 value AND 0xff), ucast (drop_bit 24 value AND 0xff),
          ucast (drop_bit 32 value AND 0xff), ucast (drop_bit 40 value AND 0xff),
          ucast (drop_bit 48 value AND 0xff), ucast (drop_bit 56 value AND 0xff)]"

text \<open>Reading at a position of a memory object; the result is the signed value.\<close>

definition Read2 :: "bytes \<Rightarrow> int \<Rightarrow> int res" where
  "Read2 m pv =
     bindR (region m pv 2) (\<lambda>p.
       Inr (sint (push_bit 8 (ucast (p ! 1)) OR ucast (p ! 0) :: u32)))"

definition Read4 :: "bytes \<Rightarrow> int \<Rightarrow> int res" where
  "Read4 m pv =
     bindR (region m pv 4) (\<lambda>p.
       Inr (sint (push_bit 24 (ucast (p ! 3)) OR push_bit 16 (ucast (p ! 2))
                  OR push_bit 8 (ucast (p ! 1)) OR ucast (p ! 0) :: u32)))"

definition Read8 :: "bytes \<Rightarrow> int \<Rightarrow> int res" where
  "Read8 m pv =
     bindR (region m pv 8) (\<lambda>p.
       Inr (sint (push_bit 56 (ucast (p ! 7)) OR push_bit 48 (ucast (p ! 6))
                  OR push_bit 40 (ucast (p ! 5)) OR push_bit 32 (ucast (p ! 4))
                  OR push_bit 24 (ucast (p ! 3)) OR push_bit 16 (ucast (p ! 2))
                  OR push_bit 8 (ucast (p ! 1)) OR ucast (p ! 0) :: u64)))"

section \<open>Applying a patch (bspatch.c)\<close>

definition BZ_OK :: int where "BZ_OK = 0"
definition BZ_STREAM_END :: int where "BZ_STREAM_END = 4"

text \<open>
  What the patcher uses of its environment: libbzip2 (a decompressor made from
  the compressed bytes, and one \<open>BZ2_bzDecompress\<close> call with the room left in the
  output, giving the return code, the bytes produced and the next state), and
  \<open>malloc\<close> (which sizes succeed, and the arbitrary contents of fresh memory).
\<close>

record 'z bzenv =
  bzDecompressInit :: "bytes \<Rightarrow> 'z"
  bzDecompress :: "'z \<Rightarrow> nat \<Rightarrow> int \<times> bytes \<times> 'z"
  malloc_ok :: "int \<Rightarrow> bool"
  fresh :: "nat \<Rightarrow> u8"

definition offtin :: "bytes \<Rightarrow> int" where
  "offtin buf =
     (let y = foldl (\<lambda>y b. s32 (s32 (y * 256) + int (unat b))) (int (unat (buf ! 7 AND 0x7F)))
                [buf ! 6, buf ! 5, buf ! 4, buf ! 3, buf ! 2, buf ! 1, buf ! 0]
      in if buf ! 7 AND 0x80 \<noteq> 0 then s32 (- y) else y)"

text \<open>
  \<open>FillBuffer\<close> into the object \<open>buf\<close> at offset \<open>pos\<close>; \<open>avail_out\<close> is unsigned.
\<close>

partial_function (option) fill_loop ::
  "('z, 'm) bzenv_scheme \<Rightarrow> bytes \<Rightarrow> nat \<Rightarrow> nat \<Rightarrow> 'z \<Rightarrow> (int \<times> bytes \<times> 'z) res option" where
  "fill_loop E buf pos avail_out z =
     (if avail_out = 0 then Some (Inr (0, buf, z))
      else case bzDecompress E z avail_out of (bzerr, p, z') \<Rightarrow>
        if length buf < pos + length p then Some (Inl OutOfBounds)
        else if bzerr \<noteq> BZ_OK \<and> bzerr \<noteq> BZ_STREAM_END then Some (Inr (- 1, store buf pos p, z'))
        else fill_loop E (store buf pos p) (pos + length p) (avail_out - length p) z')"

declare fill_loop.simps [code]

definition FillBuffer ::
  "('z, 'm) bzenv_scheme \<Rightarrow> bytes \<Rightarrow> int \<Rightarrow> int \<Rightarrow> 'z \<Rightarrow> (int \<times> bytes \<times> 'z) res" where
  "FillBuffer E buf pos n z =
     bindR (of_loop (fill_loop E buf (nat pos) (nat (n mod 2 ^ 32)) z)) id"

text \<open>
  The state of the loop of \<open>ApplyBSDiffPatchMem\<close>. The old data is the region of
  \<open>old_size\<close> bytes at offset \<open>base\<close> of the object \<open>mem\<close>.
\<close>

record 'z bspatch =
  oldpos :: int
  newpos :: int
  new_data :: bytes
  cstream :: 'z
  dstream :: 'z
  estream :: 'z

definition add_old :: "bytes \<Rightarrow> int \<Rightarrow> int \<Rightarrow> int \<Rightarrow> int \<Rightarrow> int \<Rightarrow> bytes \<Rightarrow> bytes res" where
  "add_old mem base old_size op np n =
     foldR (\<lambda>i new.
       if s32 (op + i) \<ge> 0 \<and> s32 (op + i) < old_size
       then bindR (rd mem (base + s32 (op + i))) (\<lambda>ob.
            bindR (rd new (np + i)) (\<lambda>nb. Inr (new[nat (np + i) := nb + ob])))
       else Inr new) [0 .. n - 1]"

definition bs_step ::
  "('z, 'm) bzenv_scheme \<Rightarrow> bytes \<Rightarrow> int \<Rightarrow> int \<Rightarrow> int \<Rightarrow> 'z bspatch \<Rightarrow> 'z bspatch option res" where
  "bs_step E mem base old_size new_size st =
     bindR (FillBuffer E (map (fresh E) [0..<24]) 0 24 (cstream st)) (\<lambda>(rc, buf, cz).
     if rc \<noteq> 0 then Inr None
     else let ctrl0 = offtin (take 8 buf);
              ctrl1 = offtin (take 8 (drop 8 buf));
              ctrl2 = offtin (take 8 (drop 16 buf)) in
     if s32 (newpos st + ctrl0) > new_size then Inr None
     else bindR (FillBuffer E (new_data st) (newpos st) ctrl0 (dstream st)) (\<lambda>(rcd, new, dz).
     if rcd \<noteq> 0 then Inr None
     else bindR (add_old mem base old_size (oldpos st) (newpos st) ctrl0 new) (\<lambda>new.
     let np = s32 (newpos st + ctrl0);
         op = s32 (oldpos st + ctrl0) in
     if s32 (np + ctrl1) > new_size then Inr None
     else bindR (FillBuffer E new np ctrl1 (estream st)) (\<lambda>(rce, new, ez).
     if rce \<noteq> 0 then Inr None
     else Inr (Some \<lparr> oldpos = s32 (op + ctrl2), newpos = s32 (np + ctrl1), new_data = new,
                      cstream = cz, dstream = dz, estream = ez \<rparr>)))))"

partial_function (option) bs_loop ::
  "('z, 'm) bzenv_scheme \<Rightarrow> bytes \<Rightarrow> int \<Rightarrow> int \<Rightarrow> int \<Rightarrow> 'z bspatch \<Rightarrow> bytes option res option" where
  "bs_loop E mem base old_size new_size st =
     (if newpos st < new_size
      then (case bs_step E mem base old_size new_size st of
              Inl e \<Rightarrow> Some (Inl e)
            | Inr None \<Rightarrow> Some (Inr None)
            | Inr (Some st') \<Rightarrow> bs_loop E mem base old_size new_size st')
      else Some (Inr (Some (new_data st))))"

declare bs_loop.simps [code]

definition BSDIFF40 :: bytes where
  "BSDIFF40 = [0x42, 0x53, 0x44, 0x49, 0x46, 0x46, 0x34, 0x30]"

text \<open>
  \<open>ApplyBSDiffPatchMem\<close>: \<open>None\<close> is a nonzero result, \<open>Some new\<close> success with
  \<open>*new_data\<close> of \<open>*new_size\<close> bytes. Setting up a decompressor on memory that is not
  part of the patch is an access out of bounds.
\<close>

definition ApplyBSDiffPatchMem ::
  "('z, 'm) bzenv_scheme \<Rightarrow> bytes \<Rightarrow> int \<Rightarrow> int \<Rightarrow> bytes \<Rightarrow> int \<Rightarrow> bytes option res" where
  "ApplyBSDiffPatchMem E mem base old_size patch patch_offset =
     bindR (region patch patch_offset 8) (\<lambda>magic.
     if memcmp magic BSDIFF40 8 \<noteq> 0 then Inr None
     else bindR (region patch (patch_offset + 8) 24) (\<lambda>hdr.
     let ctrl_len = offtin (take 8 hdr);
         data_len = offtin (take 8 (drop 8 hdr));
         new_size = offtin (take 8 (drop 16 hdr)) in
     if ctrl_len < 0 \<or> data_len < 0 \<or> new_size < 0 then Inr None
     else bindR (region patch (patch_offset + 32) ctrl_len) (\<lambda>cin.
          bindR (region patch (patch_offset + 32 + ctrl_len) data_len) (\<lambda>din.
          bindR (region patch (patch_offset + 32 + ctrl_len + data_len)
                   (int (length patch) - (patch_offset + 32 + ctrl_len + data_len))) (\<lambda>ein.
          if \<not> malloc_ok E new_size then Inr None
          else bindR (of_loop (bs_loop E mem base old_size new_size
                 \<lparr> oldpos = 0, newpos = 0, new_data = map (fresh E) [0..<nat new_size],
                   cstream = bzDecompressInit E cin, dstream = bzDecompressInit E din,
                   estream = bzDecompressInit E ein \<rparr>)) id)))))"

section \<open>Generating a patch (bsdiff.c)\<close>

definition offtout :: "int \<Rightarrow> bytes" where
  "offtout x =
     (let y = (if x < 0 then - x else x);
          b = map (\<lambda>k. word_of_int (y div 256 ^ k mod 256)) [0..<8]
      in if x < 0 then b[7 := b ! 7 OR 0x80] else b)"

fun matchlen :: "bytes \<Rightarrow> bytes \<Rightarrow> int" where
  "matchlen (a # as) (b # bs) = (if a \<noteq> b then 0 else 1 + matchlen as bs)"
| "matchlen _ _ = 0"

text \<open>
  \<open>search\<close> in the suffix array \<open>I\<close> for the longest match of \<open>new\<close>, with the
  length and the position of the match.
\<close>

function search :: "int list \<Rightarrow> bytes \<Rightarrow> bytes \<Rightarrow> int \<Rightarrow> int \<Rightarrow> (int \<times> int) res" where
  "search I old new st en =
     (if en - st < 2
      then bindR (rd I st) (\<lambda>is. bindR (rd I en) (\<lambda>ie.
           bindR (region old is (int (length old) - is)) (\<lambda>os.
           bindR (region old ie (int (length old) - ie)) (\<lambda>oe.
           let x = matchlen os new; y = matchlen oe new in
           Inr (if x > y then (x, is) else (y, ie))))))
      else let x = st + (en - st) div 2 in
           bindR (rd I x) (\<lambda>ix.
           bindR (region old ix (int (length old) - ix)) (\<lambda>ox.
           if memcmp ox new (min (length ox) (length new)) < 0
           then search I old new x en
           else search I old new st x)))"
  by pat_completeness auto
termination
  by (relation "measure (\<lambda>(I, old, new, st, en). nat (en - st))") auto

declare search.simps [simp del]

definition same_at :: "bytes \<Rightarrow> bytes \<Rightarrow> int \<Rightarrow> int \<Rightarrow> int res" where
  "same_at old new i j =
     bindR (rd old i) (\<lambda>a. bindR (rd new j) (\<lambda>b. Inr (if a = b then 1 else 0)))"

text \<open>The loop over \<open>scsc\<close>, and the loop over \<open>scan\<close> around it.\<close>

definition count_old :: "bytes \<Rightarrow> bytes \<Rightarrow> int \<Rightarrow> int \<Rightarrow> int \<Rightarrow> int \<Rightarrow> int res" where
  "count_old old new lastoffset scsc bound oldscore =
     foldR (\<lambda>k score.
       if k + lastoffset < int (length old)
       then bindR (same_at old new (k + lastoffset) k) (\<lambda>d. Inr (score + d))
       else Inr score) [scsc .. bound - 1] oldscore"

function scan_loop ::
  "int list \<Rightarrow> bytes \<Rightarrow> bytes \<Rightarrow> int \<Rightarrow> int \<Rightarrow> int \<Rightarrow> int \<Rightarrow> int \<Rightarrow> int \<Rightarrow> (int \<times> int \<times> int \<times> int) res" where
  "scan_loop I old new lastoffset scan scsc oldscore len pos =
     (if scan < int (length new)
      then bindR (region new scan (int (length new) - scan)) (\<lambda>rest.
           bindR (search I old rest 0 (int (length old))) (\<lambda>(len, pos).
           bindR (count_old old new lastoffset scsc (scan + len) oldscore) (\<lambda>oldscore.
           if (len = oldscore \<and> len \<noteq> 0) \<or> len > oldscore + 8
           then Inr (scan, oldscore, len, pos)
           else bindR (if scan + lastoffset < int (length old)
                       then same_at old new (scan + lastoffset) scan else Inr 0) (\<lambda>d.
                scan_loop I old new lastoffset (scan + 1) (max scsc (scan + len)) (oldscore - d) len pos))))
      else Inr (scan, oldscore, len, pos))"
  by pat_completeness auto
termination
  by (relation "measure (\<lambda>(I, old, new, lo, scan, _). nat (int (length new) - scan))") auto

declare scan_loop.simps [simp del]

text \<open>How far the previous match extends forwards, and the next one backwards.\<close>

definition forward_len :: "bytes \<Rightarrow> bytes \<Rightarrow> int \<Rightarrow> int \<Rightarrow> int \<Rightarrow> int res" where
  "forward_len old new lastscan lastpos scan =
     bindR (foldR (\<lambda>i (s, Sf, lenf).
         bindR (same_at old new (lastpos + i) (lastscan + i)) (\<lambda>d.
         let s = s + d; i = i + 1 in
         Inr (if s * 2 - i > Sf * 2 - lenf then (s, s, i) else (s, Sf, lenf))))
       [0 .. min (scan - lastscan) (int (length old) - lastpos) - 1] (0, 0, 0))
     (\<lambda>(s, Sf, lenf). Inr lenf)"

definition backward_len :: "bytes \<Rightarrow> bytes \<Rightarrow> int \<Rightarrow> int \<Rightarrow> int \<Rightarrow> int res" where
  "backward_len old new lastscan scan pos =
     (if scan < int (length new)
      then bindR (foldR (\<lambda>i (s, Sb, lenb).
               bindR (same_at old new (pos - i) (scan - i)) (\<lambda>d.
               let s = s + d in
               Inr (if s * 2 - i > Sb * 2 - lenb then (s, s, i) else (s, Sb, lenb))))
             [1 .. min (scan - lastscan) pos] (0, 0, 0))
           (\<lambda>(s, Sb, lenb). Inr lenb)
      else Inr 0)"

definition overlap_len :: "bytes \<Rightarrow> bytes \<Rightarrow> int \<Rightarrow> int \<Rightarrow> int \<Rightarrow> int \<Rightarrow> int \<Rightarrow> int \<Rightarrow> int \<Rightarrow> int res" where
  "overlap_len old new lastscan lastpos scan pos lenf lenb overlap =
     bindR (foldR (\<lambda>i (s, Ss, lens).
         bindR (same_at old new (lastpos + lenf - overlap + i) (lastscan + lenf - overlap + i)) (\<lambda>d.
         bindR (same_at old new (pos - lenb + i) (scan - lenb + i)) (\<lambda>d'.
         let s = s + d - d' in
         Inr (if s > Ss then (s, s, i + 1) else (s, Ss, lens)))))
       [0 .. overlap - 1] (0, 0, 0))
     (\<lambda>(s, Ss, lens). Inr lens)"

definition split_lens :: "bytes \<Rightarrow> bytes \<Rightarrow> int \<Rightarrow> int \<Rightarrow> int \<Rightarrow> int \<Rightarrow> (int \<times> int) res" where
  "split_lens old new lastscan lastpos scan pos =
     bindR (forward_len old new lastscan lastpos scan) (\<lambda>lenf.
     bindR (backward_len old new lastscan scan pos) (\<lambda>lenb.
     if lastscan + lenf > scan - lenb
     then let overlap = (lastscan + lenf) - (scan - lenb) in
          bindR (overlap_len old new lastscan lastpos scan pos lenf lenb overlap) (\<lambda>lens.
          Inr (lenf + lens - overlap, lenb - lens))
     else Inr (lenf, lenb)))"

record bsdiff_state =
  d_scan :: int
  d_len :: int
  d_pos :: int
  lastscan :: int
  lastpos :: int
  lastoffset :: int
  db :: bytes
  eb :: bytes
  ctrl :: bytes

text \<open>
  The part of the loop body that emits a control triple; \<open>db\<close> and \<open>eb\<close> are blocks of
  \<open>newsize + 1\<close> bytes of which the lists hold what is filled.
\<close>

definition emit :: "bytes \<Rightarrow> bytes \<Rightarrow> int \<Rightarrow> int \<Rightarrow> bsdiff_state \<Rightarrow> bsdiff_state res" where
  "emit old new scan pos S =
     bindR (split_lens old new (lastscan S) (lastpos S) scan pos) (\<lambda>(lenf, lenb).
     let elen = (scan - lenb) - (lastscan S + lenf) in
     bindR (region new (lastscan S) lenf) (\<lambda>dn.
     bindR (region old (lastpos S) lenf) (\<lambda>od.
     bindR (region new (lastscan S + lenf) elen) (\<lambda>en.
     if length (db S) + length dn > length new + 1 \<or> length (eb S) + length en > length new + 1
     then Inl OutOfBounds
     else Inr (S\<lparr> db := db S @ map2 (-) dn od,
                 eb := eb S @ en,
                 ctrl := ctrl S @ offtout lenf @ offtout elen
                           @ offtout ((pos - lenb) - (lastpos S + lenf)),
                 lastscan := scan - lenb,
                 lastpos := pos - lenb,
                 lastoffset := pos - scan \<rparr>)))))"

definition diff_step :: "int list \<Rightarrow> bytes \<Rightarrow> bytes \<Rightarrow> bsdiff_state \<Rightarrow> bsdiff_state res" where
  "diff_step I old new S =
     (let scan0 = d_scan S + d_len S in
      bindR (scan_loop I old new (lastoffset S) scan0 scan0 0 (d_len S) (d_pos S))
        (\<lambda>(scan, oldscore, len, pos).
         bindR (if len \<noteq> oldscore \<or> scan = int (length new) then emit old new scan pos S else Inr S)
           (\<lambda>S. Inr (S\<lparr> d_scan := scan, d_len := len, d_pos := pos \<rparr>))))"

partial_function (option) diff_loop :: "int list \<Rightarrow> bytes \<Rightarrow> bytes \<Rightarrow> bsdiff_state \<Rightarrow> bsdiff_state res option" where
  "diff_loop I old new S =
     (if d_scan S < int (length new)
      then (case diff_step I old new S of
              Inl e \<Rightarrow> Some (Inl e)
            | Inr S' \<Rightarrow> diff_loop I old new S')
      else Some (Inr S))"

declare diff_loop.simps [code]

text \<open>
  \<open>bsdiff\<close> with the caller's suffix array: the contents of the patch file.
  \<open>bzcompress\<close> is what \<open>BZ2_bzWrite\<close> and \<open>BZ2_bzWriteClose\<close> write for a block.
\<close>

definition bsdiff :: "(bytes \<Rightarrow> bytes) \<Rightarrow> int list \<Rightarrow> bytes \<Rightarrow> bytes \<Rightarrow> bytes res" where
  "bsdiff bzcompress I old new =
     bindR (bindR (of_loop (diff_loop I old new
         \<lparr> d_scan = 0, d_len = 0, d_pos = 0, lastscan = 0, lastpos = 0, lastoffset = 0,
           db = [], eb = [], ctrl = [] \<rparr>)) id)
     (\<lambda>S. let c = bzcompress (ctrl S); d = bzcompress (db S); e = bzcompress (eb S) in
       Inr (BSDIFF40 @ offtout (int (length c)) @ offtout (int (length d))
              @ offtout (int (length new)) @ c @ d @ e))"

section \<open>Notions used in the statements\<close>

text \<open>
  \<open>yields z d\<close> says that the decompressor in state \<open>z\<close> still has the bytes \<open>d\<close> to
  deliver. The documented behaviour of \<open>BZ2_bzDecompress\<close> with the whole
  compressed input available: a call fills the room it is given, if there is that
  much data left.
\<close>

definition bz_decodes :: "('z, 'm) bzenv_scheme \<Rightarrow> ('z \<Rightarrow> bytes \<Rightarrow> bool) \<Rightarrow> bool" where
  "bz_decodes E yields \<longleftrightarrow>
     (\<forall>z d n. yields z d \<longrightarrow> 0 < n \<longrightarrow> n \<le> length d \<longrightarrow>
        (\<exists>c z'. bzDecompress E z n = (c, take n d, z') \<and> (c = BZ_OK \<or> c = BZ_STREAM_END)
                \<and> yields z' (drop n d)))"

text \<open>
  The patch format of the comment in \<open>ApplyBSDiffPatchMem\<close>: a list of triples, for
  each of which \<open>x\<close> bytes of the diff block are added to the old file, \<open>y\<close> bytes of
  the extra block are copied, and the old file is advanced by \<open>z\<close>.
\<close>

definition old_byte :: "bytes \<Rightarrow> int \<Rightarrow> u8" where
  "old_byte old i = (if 0 \<le> i \<and> i < int (length old) then old ! nat i else 0)"

fun bs_apply :: "bytes \<Rightarrow> int \<Rightarrow> (int \<times> int \<times> int) list \<Rightarrow> bytes \<Rightarrow> bytes \<Rightarrow> bytes" where
  "bs_apply old op [] d e = []"
| "bs_apply old op ((x, y, z) # cs) d e =
     map (\<lambda>i. d ! i + old_byte old (s32 (op + int i))) [0..<nat x] @ take (nat y) e
     @ bs_apply old (s32 (op + x + z)) cs (drop (nat x) d) (drop (nat y) e)"

definition enc_ctrl :: "(int \<times> int \<times> int) list \<Rightarrow> bytes" where
  "enc_ctrl cs = concat (map (\<lambda>(x, y, z). offtout x @ offtout y @ offtout z) cs)"

definition ctrl_ok :: "(int \<times> int \<times> int) list \<Rightarrow> bool" where
  "ctrl_ok cs \<longleftrightarrow>
     list_all (\<lambda>(x, y, z). 0 \<le> x \<and> x < 2 ^ 31 \<and> 0 \<le> y \<and> y < 2 ^ 31 \<and> - (2 ^ 31) < z \<and> z < 2 ^ 31) cs"

fun ctrl_diff :: "(int \<times> int \<times> int) list \<Rightarrow> int" where
  "ctrl_diff [] = 0" | "ctrl_diff ((x, y, z) # cs) = x + ctrl_diff cs"

fun ctrl_extra :: "(int \<times> int \<times> int) list \<Rightarrow> int" where
  "ctrl_extra [] = 0" | "ctrl_extra ((x, y, z) # cs) = y + ctrl_extra cs"

definition suffix_ok :: "int list \<Rightarrow> bytes \<Rightarrow> bool" where
  "suffix_ok I old \<longleftrightarrow>
     length I = Suc (length old) \<and> list_all (\<lambda>i. 0 \<le> i \<and> i \<le> int (length old)) I"

fun ctrl_end :: "int \<Rightarrow> (int \<times> int \<times> int) list \<Rightarrow> int" where
  "ctrl_end op [] = op"
| "ctrl_end op ((x, y, z) # cs) = ctrl_end (s32 (op + x + z)) cs"

text \<open>What has been emitted describes the part of the new file before \<open>lastscan\<close>.\<close>

definition diff_inv :: "bytes \<Rightarrow> bytes \<Rightarrow> bsdiff_state \<Rightarrow> (int \<times> int \<times> int) list \<Rightarrow> bool" where
  "diff_inv old new S cs \<longleftrightarrow>
     ctrl S = enc_ctrl cs \<and> ctrl_ok cs \<and> ctrl_end 0 cs = lastpos S
     \<and> ctrl_diff cs = int (length (db S)) \<and> ctrl_extra cs = int (length (eb S))
     \<and> int (length (db S) + length (eb S)) = lastscan S
     \<and> bs_apply old 0 cs (db S) (eb S) = take (nat (lastscan S)) new
     \<and> lastscan S \<le> int (length new)
     \<and> 0 \<le> lastpos S \<and> lastpos S \<le> int (length old)"

definition scan_inv :: "bytes \<Rightarrow> bytes \<Rightarrow> bsdiff_state \<Rightarrow> bool" where
  "scan_inv old new S \<longleftrightarrow>
     lastscan S \<le> d_scan S \<and> d_scan S \<le> int (length new) \<and> 0 \<le> d_len S
     \<and> (d_scan S < int (length new) \<longrightarrow> d_scan S + d_len S \<le> int (length new))
     \<and> 0 \<le> d_pos S \<and> d_pos S \<le> int (length old) \<and> 0 \<le> d_scan S + lastoffset S
     \<and> (d_scan S = int (length new) \<longrightarrow> lastscan S = d_scan S)"

text \<open>A codec that stores its input, for concrete runs.\<close>

definition store_env :: "bytes bzenv" where
  "store_env = \<lparr> bzDecompressInit = id,
     bzDecompress = (\<lambda>z n. (if length z \<le> n then BZ_STREAM_END else BZ_OK, take n z, drop n z)),
     malloc_ok = (\<lambda>_. True), fresh = (\<lambda>_. 0xAA) \<rparr>"

section \<open>Encodings\<close>

lemma bit_byte_of:
  fixes v :: "'a::len word"
  assumes "k + 8 \<le> LENGTH('a)" "8 \<le> LENGTH('a)"
  shows "bit (push_bit k (ucast (ucast (drop_bit k v AND 0xff) :: u8)) :: 'a word) n
           \<longleftrightarrow> k \<le> n \<and> n < k + 8 \<and> bit v n"
proof -
  have m: "(0xff :: 'a word) = mask 8" by (simp add: mask_eq_exp_minus_1)
  show ?thesis
    using assms unfolding m by (auto simp: bit_simps)
qed

lemma bit_byte_0:
  fixes v :: "'a::len word"
  assumes "8 \<le> LENGTH('a)"
  shows "bit (ucast (ucast (v AND 0xff) :: u8) :: 'a word) n \<longleftrightarrow> n < 8 \<and> bit v n"
  using bit_byte_of[of 0 v n] assms by simp

lemma join_ranges: "k \<le> m \<Longrightarrow> (k \<le> n \<and> n < m \<and> B \<or> n < k \<and> B) \<longleftrightarrow> n < (m::nat) \<and> B"
  by auto

lemma Read4_Write4: "Read4 (Write4 v f) (int (length f)) = Inr (sint v)"
proof -
  have "push_bit 24 (ucast (ucast (drop_bit 24 v AND 0xff) :: u8)) OR
        push_bit 16 (ucast (ucast (drop_bit 16 v AND 0xff) :: u8)) OR
        push_bit 8 (ucast (ucast (drop_bit 8 v AND 0xff) :: u8)) OR
        ucast (ucast (v AND 0xff) :: u8) = v" (is "?l = v")
  proof (rule bit_word_eqI)
    fix n assume "n < LENGTH(32)"
    then have "n < 32" by simp
    then show "bit ?l n = bit v n"
      by (auto simp add: bit_or_iff bit_byte_of bit_byte_0 join_ranges)
  qed
  then show ?thesis by (simp add: Read4_def Write4_def region_def)
qed

lemma Read8_Write8: "Read8 (Write8 v f) (int (length f)) = Inr (sint v)"
proof -
  have "push_bit 56 (ucast (ucast (drop_bit 56 v AND 0xff) :: u8)) OR
        push_bit 48 (ucast (ucast (drop_bit 48 v AND 0xff) :: u8)) OR
        push_bit 40 (ucast (ucast (drop_bit 40 v AND 0xff) :: u8)) OR
        push_bit 32 (ucast (ucast (drop_bit 32 v AND 0xff) :: u8)) OR
        push_bit 24 (ucast (ucast (drop_bit 24 v AND 0xff) :: u8)) OR
        push_bit 16 (ucast (ucast (drop_bit 16 v AND 0xff) :: u8)) OR
        push_bit 8 (ucast (ucast (drop_bit 8 v AND 0xff) :: u8)) OR
        ucast (ucast (v AND 0xff) :: u8) = v" (is "?l = v")
  proof (rule bit_word_eqI)
    fix n assume "n < LENGTH(64)"
    then have "n < 64" by simp
    then show "bit ?l n = bit v n"
      by (auto simp add: bit_or_iff bit_byte_of bit_byte_0 join_ranges)
  qed
  then show ?thesis by (simp add: Read8_def Write8_def region_def)
qed

lemma offtin_step:
  assumes "0 \<le> y" "y < 2 ^ 31"
  shows "s32 (s32 (y div 256 ^ Suc k * 256) + y div 256 ^ k mod 256) = y div 256 ^ k"
proof -
  have "y div 256 ^ Suc k * 256 + y div 256 ^ k mod 256 = y div 256 ^ k"
    by (simp only: power_Suc2 zdiv_zmult2_eq[of 256] zero_le_numeral div_mult_mod_eq)
  moreover have "0 \<le> y div 256 ^ k" using assms(1) by (simp add: pos_imp_zdiv_nonneg_iff)
  moreover have "y div 256 ^ k < 2 ^ 31"
  proof -
    have "y div 256 ^ k \<le> y div 1" using assms(1) by (intro zdiv_mono2) auto
    then show ?thesis using assms(2) by simp
  qed
  ultimately show ?thesis by (simp only: s32_add) (simp add: s32_id)
qed

lemma length_offtout [simp]: "length (offtout x) = 8"
  by (simp add: offtout_def Let_def)

lemma unat_byte: "int (unat (word_of_int (v mod 256) :: u8)) = v mod 256"
  by (simp add: unsigned_of_int take_bit_eq_mod)

lemma offtin_offtout:
  assumes "- (2 ^ 31) < x" "x < 2 ^ 31"
  shows "offtin (offtout x) = x"
proof -
  define y where "y = (if x < 0 then - x else x)"
  have y: "0 \<le> y" "y < 2 ^ 31" using assms by (auto simp: y_def)
  define b where "b k = (word_of_int (y div 256 ^ k mod 256) :: u8)" for k
  have o: "offtout x = map b [0..<7] @ [if x < 0 then b 7 OR 0x80 else b 7]"
    by (simp add: offtout_def Let_def b_def y_def [symmetric] upt_rec[of _ 8] upt_rec)
  have b7: "b 7 = 0" using y by (simp add: b_def)
  have st: "s32 (s32 (y div 256 ^ Suc k * 256) + int (unat (b k))) = y div 256 ^ k" for k
    unfolding b_def unat_byte using offtin_step[OF y] .
  have "foldl (\<lambda>y b. s32 (s32 (y * 256) + int (unat b))) (y div 256 ^ Suc k) (map b (rev [0..<Suc k])) = y" for k
  proof (induction k)
    case 0
    then show ?case using st[of 0] by simp
  next
    case (Suc k)
    have "rev [0..<Suc (Suc k)] = Suc k # rev [0..<Suc k]" by simp
    then show ?case using Suc.IH by (simp only: list.map foldl.simps st)
  qed
  moreover have "rev [0..<Suc 6] = [6, 5, 4, 3, 2, 1, 0 :: nat]" by code_simp
  moreover have "Suc 6 = 7" by simp
  ultimately have "foldl (\<lambda>y b. s32 (s32 (y * 256) + int (unat b))) (y div 256 ^ 7)
          [b 6, b 5, b 4, b 3, b 2, b 1, b 0] = y"
    by (metis (no_types, lifting) list.map)
  moreover have "y div 256 ^ 7 = 0" using y by simp
  ultimately have f: "foldl (\<lambda>y b. s32 (s32 (y * 256) + int (unat b))) 0
          [b 6, b 5, b 4, b 3, b 2, b 1, b 0] = y" by simp
  have nth: "offtout x ! 7 = (if x < 0 then 0x80 else 0)" 
    "offtout x ! 6 = b 6" "offtout x ! 5 = b 5" "offtout x ! 4 = b 4" "offtout x ! 3 = b 3"
    "offtout x ! 2 = b 2" "offtout x ! 1 = b 1" "offtout x ! 0 = b 0"
    unfolding o by (simp_all add: b7 nth_append numeral_2_eq_2)
  have z: "int (unat ((if x < 0 then 0x80 else 0) AND 0x7F :: u8)) = 0" by simp
  have "offtin (offtout x) = (if (if x < 0 then 0x80 else 0) AND 0x80 \<noteq> (0 :: u8) then s32 (- y) else y)"
    unfolding offtin_def nth Let_def z f ..
  also have "\<dots> = x" using y by (simp add: y_def s32_id split: if_splits)
  finally show ?thesis .
qed

section \<open>Filling a buffer\<close>

lemma fill_loop_0: "fill_loop E buf pos 0 z = Some (Inr (0, buf, z))"
  by (subst fill_loop.simps) simp

lemma FillBuffer_yields:
  assumes bz: "bz_decodes E yields" and y: "yields z d"
    and n: "0 \<le> n" "n < 2 ^ 31" "n \<le> int (length d)"
    and buf: "buf = a @ b @ c" "int (length a) = pos" "int (length b) = n"
  shows "\<exists>z'. FillBuffer E buf pos n z = Inr (0, a @ take (nat n) d @ c, z') \<and> yields z' (drop (nat n) d)"
proof (cases "n = 0")
  case True
  then show ?thesis using buf y by (simp add: FillBuffer_def fill_loop_0)
next
  case False
  have nn: "nat (n mod 2 ^ 32) = nat n" using n by simp
  obtain cc z' where st: "bzDecompress E z (nat n) = (cc, take (nat n) d, z')"
    "cc = BZ_OK \<or> cc = BZ_STREAM_END" "yields z' (drop (nat n) d)"
  proof -
    have "0 < nat n" "nat n \<le> length d" using False n by auto
    then show thesis using bz[unfolded bz_decodes_def, rule_format, OF y, of "nat n"] that by blast
  qed
  have len: "length (take (nat n) d) = nat n" using n by auto
  have p: "nat pos = length a" using buf by simp
  have sb: "store buf (nat pos) (take (nat n) d) = a @ take (nat n) d @ c"
    unfolding buf(1) p using buf(3) len by (intro store_append) auto
  have l: "length buf = length a + nat n + length c" using buf by simp
  have "fill_loop E buf (nat pos) (nat n) z = Some (Inr (0, a @ take (nat n) d @ c, z'))"
  proof (subst fill_loop.simps, unfold st(1) prod.case, unfold sb len)
    show "(if nat n = 0 then Some (Inr (0, buf, z))
           else if length buf < nat pos + nat n then Some (Inl OutOfBounds)
           else if cc \<noteq> BZ_OK \<and> cc \<noteq> BZ_STREAM_END then Some (Inr (- 1, a @ take (nat n) d @ c, z'))
           else fill_loop E (a @ take (nat n) d @ c) (nat pos + nat n) (nat n - nat n) z')
          = Some (Inr (0, a @ take (nat n) d @ c, z'))"
      using False n l p st(2) by (auto simp: fill_loop_0)
  qed
  then show ?thesis using st(3) nn by (simp add: FillBuffer_def)
qed

section \<open>One control triple\<close>

lemma add_old_spec:
  assumes mem: "old = take (nat old_size) (drop (nat base) mem)" "0 \<le> base" "0 \<le> old_size"
      "base + old_size \<le> int (length mem)"
    and new: "int (length a) = np" "int (length d) = n"
  shows "add_old mem base old_size op np n (a @ d @ c) =
    Inr (a @ map (\<lambda>i. d ! i + old_byte old (s32 (op + int i))) [0..<length d] @ c)"
proof -
  define f where "f = (\<lambda>i new.
       if s32 (op + i) \<ge> 0 \<and> s32 (op + i) < old_size
       then bindR (rd mem (base + s32 (op + i))) (\<lambda>ob.
            bindR (rd new (np + i)) (\<lambda>nb. Inr (new[nat (np + i) := nb + ob])))
       else Inr new)"
  define g where "g i = d ! i + old_byte old (s32 (op + int i))" for i
  define P where "P k s \<longleftrightarrow> s = a @ map g [0..<k] @ drop k d @ c" for k s
  have lo: "length old = nat old_size" using mem by simp
  have len: "length [0 .. n - 1] = length d" using new by simp
  have "\<exists>s'. foldR f [0 .. n - 1] (a @ d @ c) = Inr s' \<and> P (length [0 .. n - 1]) s'"
  proof (rule foldR_invariant[where P = P])
    show "P 0 (a @ d @ c)" by (simp add: P_def)
  next
    fix i s assume i: "i < length [0 .. n - 1]" and "P i s"
    have id: "i < length d" using i by (simp only: len)
    then have s: "s = a @ map g [0..<i] @ d ! i # drop (Suc i) d @ c"
      using \<open>P i s\<close> by (simp add: P_def Cons_nth_drop_Suc)
    have e: "[0 .. n - 1] ! i = int i" using i by (simp add: nth_upto)
    have at: "nat (np + int i) = length a + i" "0 \<le> np + int i" "np + int i < int (length s)"
      using new(1) s by auto
    have nth: "s ! (length a + i) = d ! i" unfolding s by (simp add: nth_append)
    have up: "s[length a + i := v] = a @ map g [0..<i] @ v # drop (Suc i) d @ c" for v
      unfolding s by (simp add: list_update_append)
    have "f (int i) s = Inr (a @ map g [0..<i] @ g i # drop (Suc i) d @ c)"
    proof (cases "s32 (op + int i) \<ge> 0 \<and> s32 (op + int i) < old_size")
      case True
      have "nat base \<le> length mem" using mem by linarith
      then have "mem ! nat (base + s32 (op + int i)) = old_byte old (s32 (op + int i))"
        using True mem lo by (simp add: old_byte_def nat_add_distrib)
      then show ?thesis using True mem(2,4) at nth up by (simp add: f_def rd_Inr g_def)
    next
      case False
      then have "old_byte old (s32 (op + int i)) = 0" using lo mem(3) by (auto simp: old_byte_def)
      then show ?thesis using False s by (auto simp: f_def g_def)
    qed
    then show "\<exists>s'. f ([0 .. n - 1] ! i) s = Inr s' \<and> P (Suc i) s'"
      unfolding e P_def by simp
  qed
  then show ?thesis unfolding add_old_def f_def [symmetric] len P_def g_def by simp
qed

lemma enc_ctrl_Cons:
  "enc_ctrl ((x, y, z) # cs) = (offtout x @ offtout y @ offtout z) @ enc_ctrl cs"
  by (simp add: enc_ctrl_def)

lemma bs_step_spec:
  assumes bz: "bz_decodes E yields"
    and mem: "old = take (nat old_size) (drop (nat base) mem)" "0 \<le> base" "0 \<le> old_size"
      "base + old_size \<le> int (length mem)"
    and str: "yields (cstream st) (enc_ctrl ((x, y, z) # cs))" "yields (dstream st) d" "yields (estream st) e"
    and xyz: "ctrl_ok [(x, y, z)]" "x \<le> int (length d)" "y \<le> int (length e)"
    and new: "new_data st = a @ b" "int (length a) = newpos st" "int (length (a @ b)) = new_size"
      "new_size < 2 ^ 31" "newpos st + x + y \<le> new_size"
  shows "\<exists>cz dz ez. bs_step E mem base old_size new_size st = Inr (Some
      \<lparr> oldpos = s32 (oldpos st + x + z), newpos = newpos st + x + y,
        new_data = a @ map (\<lambda>i. d ! i + old_byte old (s32 (oldpos st + int i))) [0..<nat x]
                     @ take (nat y) e @ drop (nat x + nat y) b,
        cstream = cz, dstream = dz, estream = ez \<rparr>)
    \<and> yields cz (enc_ctrl cs) \<and> yields dz (drop (nat x) d) \<and> yields ez (drop (nat y) e)"
proof -
  have r: "0 \<le> x" "x < 2 ^ 31" "0 \<le> y" "y < 2 ^ 31" "- (2 ^ 31) < z" "z < 2 ^ 31"
    using xyz(1) by (auto simp: ctrl_ok_def)
  define c0 where "c0 = map (fresh E) [0..<24]"
  have "\<exists>cz. FillBuffer E c0 0 24 (cstream st) = Inr (0, [] @ take (nat 24) (enc_ctrl ((x, y, z) # cs)) @ [], cz)
      \<and> yields cz (drop (nat 24) (enc_ctrl ((x, y, z) # cs)))"
    by (rule FillBuffer_yields[OF bz str(1), where b = c0]) (auto simp: enc_ctrl_Cons c0_def)
  then obtain cz where cz: "FillBuffer E c0 0 24 (cstream st) = Inr (0, offtout x @ offtout y @ offtout z, cz)"
    "yields cz (enc_ctrl cs)"
    by (auto simp: enc_ctrl_Cons)
  have dec: "offtin (offtout x) = x" "offtin (offtout y) = y" "offtin (offtout z) = z"
    using r by (auto intro!: offtin_offtout)
  have split: "drop (nat x) b = take (nat y) (drop (nat x) b) @ drop (nat x + nat y) b"
    by (metis append_take_drop_id drop_drop add.commute)
  have lb: "nat x + nat y \<le> length b" using new r by simp
  obtain dz where dz: "FillBuffer E (a @ b) (newpos st) x (dstream st)
      = Inr (0, a @ take (nat x) d @ drop (nat x) b, dz)" "yields dz (drop (nat x) d)"
    using FillBuffer_yields[OF bz str(2) r(1,2) xyz(2), of "a @ b" a "take (nat x) b" "drop (nat x) b" "newpos st"]
      new(2) lb r by auto
  define dm where "dm = map (\<lambda>i. d ! i + old_byte old (s32 (oldpos st + int i))) [0..<nat x]"
  have ld: "length (take (nat x) d) = nat x" using xyz(2) r by simp
  have ad: "add_old mem base old_size (oldpos st) (newpos st) x (a @ take (nat x) d @ drop (nat x) b)
      = Inr (a @ dm @ drop (nat x) b)"
    using add_old_spec[OF mem new(2), of "take (nat x) d" x "oldpos st" "drop (nat x) b"] ld r
    by (simp add: dm_def cong: map_cong)
  have np: "s32 (newpos st + x) = newpos st + x" "s32 (newpos st + x + y) = newpos st + x + y"
    using new r by (simp_all add: s32_id)
  obtain ez where ez: "FillBuffer E (a @ dm @ drop (nat x) b) (newpos st + x) y (estream st)
      = Inr (0, a @ dm @ take (nat y) e @ drop (nat x + nat y) b, ez)" "yields ez (drop (nat y) e)"
    using FillBuffer_yields[OF bz str(3) r(3,4) xyz(3), of "a @ dm @ drop (nat x) b" "a @ dm"
        "take (nat y) (drop (nat x) b)" "drop (nat x + nat y) b" "newpos st + x"]
      split new(2) lb r by (auto simp: dm_def add.commute)
  have "bs_step E mem base old_size new_size st = Inr (Some
      \<lparr> oldpos = s32 (oldpos st + x + z), newpos = newpos st + x + y,
        new_data = a @ dm @ take (nat y) e @ drop (nat x + nat y) b,
        cstream = cz, dstream = dz, estream = ez \<rparr>)"
    unfolding bs_step_def c0_def [symmetric] cz(1) new(1)
    using dz(1) ad ez(1) np new(5) r by (simp add: dec s32_add)
  then show ?thesis using cz(2) dz(2) ez(2) unfolding dm_def by blast
qed

section \<open>All control triples\<close>

lemma ctrl_nonneg: "ctrl_ok cs \<Longrightarrow> 0 \<le> ctrl_diff cs \<and> 0 \<le> ctrl_extra cs"
  by (induction cs) (auto simp: ctrl_ok_def)

lemma ctrl_ok_Cons: "ctrl_ok (c # cs) \<longleftrightarrow> ctrl_ok [c] \<and> ctrl_ok cs"
  by (simp add: ctrl_ok_def)

lemma bs_apply_zero: "ctrl_ok cs \<Longrightarrow> ctrl_diff cs + ctrl_extra cs = 0 \<Longrightarrow> bs_apply old op cs d e = []"
proof (induction cs arbitrary: op d e)
  case (Cons c cs)
  obtain x y z where c: "c = (x, y, z)" by (metis prod_cases3)
  have "0 \<le> x" "0 \<le> y" using Cons.prems(1) by (auto simp: c ctrl_ok_def)
  moreover have "ctrl_ok cs" using Cons.prems(1) by (simp add: ctrl_ok_def)
  ultimately have "x = 0" "y = 0" "ctrl_diff cs + ctrl_extra cs = 0"
    using Cons.prems(2) ctrl_nonneg[of cs] by (auto simp: c)
  then show ?case using Cons.IH \<open>ctrl_ok cs\<close> by (simp add: c)
qed simp

lemma bs_loop_done:
  "newpos st \<ge> new_size \<Longrightarrow> bs_loop E mem base old_size new_size st = Some (Inr (Some (new_data st)))"
  by (subst bs_loop.simps) simp

lemma bs_loop_next:
  "newpos st < new_size \<Longrightarrow> bs_step E mem base old_size new_size st = Inr (Some st') \<Longrightarrow>
   bs_loop E mem base old_size new_size st = bs_loop E mem base old_size new_size st'"
  by (subst bs_loop.simps) simp

lemma bs_loop_spec:
  assumes bz: "bz_decodes E yields"
    and mem: "old = take (nat old_size) (drop (nat base) mem)" "0 \<le> base" "0 \<le> old_size"
      "base + old_size \<le> int (length mem)"
    and new_size: "new_size < 2 ^ 31"
  shows "\<lbrakk> yields (cstream st) (enc_ctrl cs); yields (dstream st) d; yields (estream st) e;
      ctrl_ok cs; ctrl_diff cs = int (length d); ctrl_extra cs = int (length e);
      new_data st = a @ b; int (length a) = newpos st; int (length b) = ctrl_diff cs + ctrl_extra cs;
      int (length (a @ b)) = new_size \<rbrakk> \<Longrightarrow>
    bs_loop E mem base old_size new_size st = Some (Inr (Some (a @ bs_apply old (oldpos st) cs d e)))"
proof (induction cs arbitrary: st d e a b)
  case Nil
  then show ?case by (simp add: bs_loop_done)
next
  case (Cons c cs)
  obtain x y z where c: "c = (x, y, z)" by (metis prod_cases3)
  show ?case
  proof (cases "newpos st < new_size")
    case False
    moreover have "int (length a) + int (length b) = new_size" using Cons.prems(10) by simp
    ultimately have "int (length b) = 0" using Cons.prems(8) by linarith
    then have "b = []" "ctrl_diff (c # cs) + ctrl_extra (c # cs) = 0" using Cons.prems(9) by auto
    moreover from this have "bs_apply old (oldpos st) (c # cs) d e = []"
      using bs_apply_zero Cons.prems(4) by blast
    ultimately show ?thesis using \<open>\<not> newpos st < new_size\<close> Cons.prems(7) by (simp add: bs_loop_done)
  next
    case True
    have ok: "ctrl_ok [(x, y, z)]" "ctrl_ok cs" using Cons.prems(4) ctrl_ok_Cons[of c cs] c by auto
    have r: "0 \<le> x" "0 \<le> y" using ok(1) by (auto simp: ctrl_ok_def)
    have nn: "0 \<le> ctrl_diff cs" "0 \<le> ctrl_extra cs" using ctrl_nonneg[OF ok(2)] by auto
    have le: "x \<le> int (length d)" "y \<le> int (length e)"
      using Cons.prems(5,6) nn by (auto simp: c)
    have np: "newpos st + x + y \<le> new_size" using Cons.prems(8-10) nn by (simp add: c)
    define dm where "dm = map (\<lambda>i. d ! i + old_byte old (s32 (oldpos st + int i))) [0..<nat x]"
    obtain cz dz ez where st: "bs_step E mem base old_size new_size st = Inr (Some
        \<lparr> oldpos = s32 (oldpos st + x + z), newpos = newpos st + x + y,
          new_data = a @ dm @ take (nat y) e @ drop (nat x + nat y) b,
          cstream = cz, dstream = dz, estream = ez \<rparr>)"
      "yields cz (enc_ctrl cs)" "yields dz (drop (nat x) d)" "yields ez (drop (nat y) e)"
      using bs_step_spec[OF bz mem Cons.prems(1)[unfolded c] Cons.prems(2,3) ok(1) le Cons.prems(7,8,10) new_size np]
      unfolding dm_def by blast
    define st' where "st' = \<lparr> oldpos = s32 (oldpos st + x + z), newpos = newpos st + x + y,
          new_data = a @ dm @ take (nat y) e @ drop (nat x + nat y) b,
          cstream = cz, dstream = dz, estream = ez \<rparr>"
    have "bs_loop E mem base old_size new_size st' =
      Some (Inr (Some ((a @ dm @ take (nat y) e) @ bs_apply old (oldpos st') cs (drop (nat x) d) (drop (nat y) e))))"
    proof (rule Cons.IH[of _ _ _ _ "drop (nat x + nat y) b"])
      show "int (length (a @ dm @ take (nat y) e)) = newpos st'"
        using Cons.prems(8) r le by (simp add: st'_def dm_def)
      show "int (length (drop (nat x + nat y) b)) = ctrl_diff cs + ctrl_extra cs"
        using Cons.prems(9) r nn by (auto simp: c)
      show "int (length ((a @ dm @ take (nat y) e) @ drop (nat x + nat y) b)) = new_size"
        using Cons.prems(9,10) r nn le by (auto simp: c dm_def)
    qed (use st ok Cons.prems(5,6) r le in \<open>auto simp: st'_def c\<close>)
    moreover have "bs_loop E mem base old_size new_size st = bs_loop E mem base old_size new_size st'"
      unfolding st'_def by (rule bs_loop_next[OF True st(1)])
    ultimately show ?thesis by (simp add: c dm_def st'_def)
  qed
qed

section \<open>A whole patch\<close>

lemma length_BSDIFF40 [simp]: "length BSDIFF40 = 8"
  by (simp add: BSDIFF40_def)

lemma ApplyBSDiffPatchMem_spec:
  assumes bz: "bz_decodes E yields"
    and mem: "old = take (nat old_size) (drop (nat base) mem)" "0 \<le> base" "0 \<le> old_size"
      "base + old_size \<le> int (length mem)"
    and patch: "patch = pre @ BSDIFF40 @ offtout (int (length c)) @ offtout (int (length d))
                  @ offtout new_size @ c @ d @ e" "int (length pre) = patch_offset"
      "length c < 2 ^ 31" "length d < 2 ^ 31" "0 \<le> new_size" "new_size < 2 ^ 31"
    and str: "yields (bzDecompressInit E c) (enc_ctrl cs)" "yields (bzDecompressInit E d) ds"
      "yields (bzDecompressInit E e) es"
    and cs: "ctrl_ok cs" "ctrl_diff cs = int (length ds)" "ctrl_extra cs = int (length es)"
      "ctrl_diff cs + ctrl_extra cs = new_size"
    and m: "malloc_ok E new_size"
  shows "ApplyBSDiffPatchMem E mem base old_size patch patch_offset = Inr (Some (bs_apply old 0 cs ds es))"
proof -
  have dec: "offtin (offtout (int (length c))) = int (length c)" "offtin (offtout (int (length d))) = int (length d)"
    "offtin (offtout new_size) = new_size"
    using patch by (auto intro!: offtin_offtout)
  have magic: "region patch patch_offset 8 = Inr BSDIFF40"
    unfolding patch(1) using patch(2) by (intro region_append) auto
  have hdr: "region patch (patch_offset + 8) 24
      = Inr (offtout (int (length c)) @ offtout (int (length d)) @ offtout new_size)"
    using patch(2) region_append[of "pre @ BSDIFF40" "patch_offset + 8" 24
        "offtout (int (length c)) @ offtout (int (length d)) @ offtout new_size" "c @ d @ e"]
    unfolding patch(1) by simp
  define H where "H = pre @ BSDIFF40 @ offtout (int (length c)) @ offtout (int (length d)) @ offtout new_size"
  have H: "patch = H @ c @ d @ e" "int (length H) = patch_offset + 32"
    using patch(2) by (simp_all add: H_def patch(1))
  have cin: "region patch (patch_offset + 32) (int (length c)) = Inr c"
    unfolding H(1) using H(2) by (intro region_append) auto
  have din: "region patch (patch_offset + 32 + int (length c)) (int (length d)) = Inr d"
    using H(2) region_append[of "H @ c" "patch_offset + 32 + int (length c)" "int (length d)" d e]
    unfolding H(1) by simp
  have ein: "region patch (patch_offset + 32 + int (length c) + int (length d))
      (int (length patch) - (patch_offset + 32 + int (length c) + int (length d))) = Inr e"
    using H(2) region_append[of "H @ c @ d" "patch_offset + 32 + int (length c) + int (length d)" "int (length e)" e "[]"]
    unfolding H(1) by (simp add: H(2) [symmetric])
  define st where "st = \<lparr> oldpos = 0, newpos = 0, new_data = map (fresh E) [0..<nat new_size],
                   cstream = bzDecompressInit E c, dstream = bzDecompressInit E d,
                   estream = bzDecompressInit E e \<rparr>"
  have "bs_loop E mem base old_size new_size st = Some (Inr (Some ([] @ bs_apply old (oldpos st) cs ds es)))"
    by (rule bs_loop_spec[OF bz mem patch(6)]) (use str cs patch(5) in \<open>auto simp: st_def\<close>)
  then have lp: "bs_loop E mem base old_size new_size st = Some (Inr (Some (bs_apply old 0 cs ds es)))"
    by (simp add: st_def)
  show ?thesis
    unfolding ApplyBSDiffPatchMem_def magic
    using patch(5) m by (simp add: memcmp_take hdr dec cin din ein st_def [symmetric] lp Let_def)
qed

section \<open>The generator stays inside the files\<close>

lemma suffix_rd:
  assumes "suffix_ok I old" "0 \<le> k" "k \<le> int (length old)"
  shows "\<exists>i. rd I k = Inr i \<and> 0 \<le> i \<and> i \<le> int (length old)"
  using assms by (auto simp: suffix_ok_def list_all_length rd_def)

lemma matchlen_bounds: "0 \<le> matchlen a b \<and> matchlen a b \<le> int (length b)"
  by (induction a b rule: matchlen.induct) auto

lemma search_ok:
  assumes "suffix_ok I old" "0 \<le> st" "st \<le> en" "en \<le> int (length old)"
  shows "\<exists>len pos. search I old new st en = Inr (len, pos) \<and> 0 \<le> len \<and> len \<le> int (length new)
           \<and> 0 \<le> pos \<and> pos \<le> int (length old)"
  using assms
proof (induction I old new st en rule: search.induct)
  case (1 I old new st en)
  show ?case
  proof (cases "en - st < 2")
    case True
    obtain i j where ij: "rd I st = Inr i" "0 \<le> i" "i \<le> int (length old)"
        "rd I en = Inr j" "0 \<le> j" "j \<le> int (length old)"
      using suffix_rd[OF "1.prems"(1), of st] suffix_rd[OF "1.prems"(1), of en] "1.prems" by auto
    then have "region old i (int (length old) - i) = Inr (drop (nat i) old)"
      "region old j (int (length old) - j) = Inr (drop (nat j) old)" by auto
    then show ?thesis
      using ij True matchlen_bounds[of "drop (nat i) old" new] matchlen_bounds[of "drop (nat j) old" new]
      by (subst search.simps) (simp add: Let_def del: rd_eq_Inr region_eq_Inr)
  next
    case False
    define x where "x = st + (en - st) div 2"
    have x: "st \<le> x" "x \<le> en" "0 \<le> x" "x \<le> int (length old)" using "1.prems" False by (auto simp: x_def)
    obtain i where i: "rd I x = Inr i" "0 \<le> i" "i \<le> int (length old)"
      using suffix_rd[OF "1.prems"(1) x(3,4)] by auto
    have r: "region old i (int (length old) - i) = Inr (drop (nat i) old)" using i by auto
    have e: "search I old new st en =
      (if memcmp (drop (nat i) old) new (min (length (drop (nat i) old)) (length new)) < 0
       then search I old new x en else search I old new st x)"
      using False i r by (subst search.simps) (simp add: x_def [symmetric] Let_def del: rd_eq_Inr region_eq_Inr)
    show ?thesis
      using "1.IH"(1)[OF False x_def, of "drop (nat i) old"] "1.IH"(2)[OF False x_def, of "drop (nat i) old"]
        "1.prems" x
      unfolding e by (simp del: length_drop)
  qed
qed

lemma same_at_ok:
  assumes "0 \<le> i" "i < int (length old)" "0 \<le> j" "j < int (length new)"
  shows "\<exists>d. same_at old new i j = Inr d \<and> 0 \<le> d"
  using assms by (auto simp: same_at_def rd_Inr)

lemma count_old_ok:
  assumes "0 \<le> scsc" "0 \<le> scsc + lo" "bound \<le> int (length new)"
  shows "\<exists>r. count_old old new lo scsc bound score = Inr r \<and> score \<le> r"
proof -
  define f where "f = (\<lambda>k score. if k + lo < int (length old)
       then bindR (same_at old new (k + lo) k) (\<lambda>d. Inr (score + d)) else Inr score)"
  have "\<exists>r. foldR f [scsc .. bound - 1] score = Inr r \<and> (\<lambda>_ r. score \<le> r) (length [scsc .. bound - 1]) r"
  proof (rule foldR_invariant)
    fix i s assume i: "i < length [scsc .. bound - 1]" and s: "score \<le> s"
    have k: "[scsc .. bound - 1] ! i = scsc + int i" using i by (simp add: nth_upto)
    have "scsc + int i < int (length new)" using i assms(3) by simp
    then obtain d where "scsc + int i + lo < int (length old) \<Longrightarrow>
        same_at old new (scsc + int i + lo) (scsc + int i) = Inr d \<and> 0 \<le> d"
      using same_at_ok[of "scsc + int i + lo" old "scsc + int i" new] assms by fastforce
    then show "\<exists>s'. f ([scsc .. bound - 1] ! i) s = Inr s' \<and> score \<le> s'"
      using s unfolding k by (cases "scsc + int i + lo < int (length old)") (auto simp: f_def)
  qed simp
  then show ?thesis by (simp add: count_old_def f_def)
qed

lemma scan_loop_ok:
  assumes "suffix_ok I old" "0 \<le> scan" "scan \<le> int (length new)" "0 \<le> scsc" "0 \<le> scsc + lo" "0 \<le> scan + lo"
    "0 \<le> pos" "pos \<le> int (length old)" "0 \<le> len"
  shows "\<exists>scan' sc len' pos'. scan_loop I old new lo scan scsc score len pos = Inr (scan', sc, len', pos')
    \<and> scan \<le> scan' \<and> scan' \<le> int (length new) \<and> 0 \<le> pos' \<and> pos' \<le> int (length old) \<and> 0 \<le> len'
    \<and> (scan' < int (length new) \<longrightarrow> scan' + len' \<le> int (length new))
    \<and> (scan' < int (length new) \<longrightarrow> 0 \<le> score \<longrightarrow> scan < scan' + len')"
  using assms
proof (induction "nat (int (length new) - scan)" arbitrary: scan scsc score len pos rule: less_induct)
  case less
  show ?case
  proof (cases "scan < int (length new)")
    case False
    then show ?thesis using less.prems by (subst scan_loop.simps) auto
  next
    case True
    have rest: "region new scan (int (length new) - scan) = Inr (drop (nat scan) new)"
      using less.prems True by auto
    obtain l p where se: "search I old (drop (nat scan) new) 0 (int (length old)) = Inr (l, p)"
      "0 \<le> l" "l \<le> int (length new) - scan" "0 \<le> p" "p \<le> int (length old)"
      using search_ok[OF less.prems(1), of 0 "int (length old)" "drop (nat scan) new"] True less.prems(2) by auto
    obtain sc where co: "count_old old new lo scsc (scan + l) score = Inr sc" "score \<le> sc"
      using count_old_ok[of scsc lo "scan + l" new old score] less.prems se by auto
    show ?thesis
    proof (cases "(l = sc \<and> l \<noteq> 0) \<or> l > sc + 8")
      case True
      then have "scan_loop I old new lo scan scsc score len pos = Inr (scan, sc, l, p)"
        using \<open>scan < int (length new)\<close> rest se co
        by (subst scan_loop.simps) (simp del: region_eq_Inr)
      then show ?thesis using True se co less.prems by auto
    next
      case False
      obtain d where d: "(if scan + lo < int (length old) then same_at old new (scan + lo) scan else Inr 0) = Inr d"
        using same_at_ok[of "scan + lo" old scan new] less.prems \<open>scan < int (length new)\<close>
        by (cases "scan + lo < int (length old)") auto
      have e: "scan_loop I old new lo scan scsc score len pos =
         scan_loop I old new lo (scan + 1) (max scsc (scan + l)) (sc - d) l p"
        using \<open>scan < int (length new)\<close> rest se co False d
        by (subst scan_loop.simps) (auto simp del: region_eq_Inr)
      have "nat (int (length new) - (scan + 1)) < nat (int (length new) - scan)"
        using \<open>scan < int (length new)\<close> by simp
      from less.hyps[OF this less.prems(1), of "max scsc (scan + l)" p l "sc - d"]
      show ?thesis unfolding e using less.prems \<open>scan < int (length new)\<close> se by fastforce
    qed
  qed
qed

lemma forward_len_ok:
  assumes "0 \<le> ls" "ls \<le> scan" "scan \<le> int (length new)" "0 \<le> lp" "lp \<le> int (length old)"
  shows "\<exists>lenf. forward_len old new ls lp scan = Inr lenf \<and> 0 \<le> lenf
           \<and> lenf \<le> scan - ls \<and> lenf \<le> int (length old) - lp"
proof -
  define n where "n = min (scan - ls) (int (length old) - lp)"
  define f :: "int \<Rightarrow> int \<times> int \<times> int \<Rightarrow> (int \<times> int \<times> int) res" where
    "f = (\<lambda>i (s, Sf, lenf). bindR (same_at old new (lp + i) (ls + i)) (\<lambda>d.
         let s = s + d; i = i + 1 in
         Inr (if s * 2 - i > Sf * 2 - lenf then (s, s, i) else (s, Sf, lenf))))"
  have n: "0 \<le> n" using assms by (simp add: n_def)
  have "\<exists>s'. foldR f [0 .. n - 1] (0, 0, 0) = Inr s' \<and>
      (\<lambda>_ s. 0 \<le> snd (snd s) \<and> snd (snd s) \<le> n) (length [0 .. n - 1]) s'"
  proof (rule foldR_invariant)
    fix i and s :: "int \<times> int \<times> int"
    assume i: "i < length [0 .. n - 1]" and s: "0 \<le> snd (snd s) \<and> snd (snd s) \<le> n"
    have k: "[0 .. n - 1] ! i = int i" using i by (simp add: nth_upto)
    have "int i < n" using i by simp
    then obtain d where "same_at old new (lp + int i) (ls + int i) = Inr d"
      using same_at_ok[of "lp + int i" old "ls + int i" new] assms by (auto simp: n_def)
    then show "\<exists>s'. f ([0 .. n - 1] ! i) s = Inr s' \<and> 0 \<le> snd (snd s') \<and> snd (snd s') \<le> n"
      using s \<open>int i < n\<close> unfolding k by (cases s) (auto simp: f_def Let_def)
  qed (use n in simp)
  then show ?thesis unfolding forward_len_def f_def [symmetric] n_def [symmetric] by (auto simp: n_def)
qed

lemma backward_len_ok:
  assumes "0 \<le> ls" "ls \<le> scan" "scan \<le> int (length new)" "0 \<le> pos" "pos \<le> int (length old)"
  shows "\<exists>lenb. backward_len old new ls scan pos = Inr lenb \<and> 0 \<le> lenb \<and> lenb \<le> scan - ls \<and> lenb \<le> pos
           \<and> (scan = int (length new) \<longrightarrow> lenb = 0)"
proof (cases "scan < int (length new)")
  case False
  then show ?thesis using assms by (simp add: backward_len_def)
next
  case True
  define n where "n = min (scan - ls) pos"
  define f :: "int \<Rightarrow> int \<times> int \<times> int \<Rightarrow> (int \<times> int \<times> int) res" where
    "f = (\<lambda>i (s, Sb, lenb). bindR (same_at old new (pos - i) (scan - i)) (\<lambda>d.
         let s = s + d in
         Inr (if s * 2 - i > Sb * 2 - lenb then (s, s, i) else (s, Sb, lenb))))"
  have n: "0 \<le> n" using assms by (simp add: n_def)
  have "\<exists>s'. foldR f [1 .. n] (0, 0, 0) = Inr s' \<and>
      (\<lambda>_ s. 0 \<le> snd (snd s) \<and> snd (snd s) \<le> n) (length [1 .. n]) s'"
  proof (rule foldR_invariant)
    fix i and s :: "int \<times> int \<times> int"
    assume i: "i < length [1 .. n]" and s: "0 \<le> snd (snd s) \<and> snd (snd s) \<le> n"
    have k: "[1 .. n] ! i = 1 + int i" using i by (simp add: nth_upto)
    have "1 + int i \<le> n" using i by simp
    then obtain d where "same_at old new (pos - (1 + int i)) (scan - (1 + int i)) = Inr d"
      using same_at_ok[of "pos - (1 + int i)" old "scan - (1 + int i)" new] assms by (auto simp: n_def)
    then show "\<exists>s'. f ([1 .. n] ! i) s = Inr s' \<and> 0 \<le> snd (snd s') \<and> snd (snd s') \<le> n"
      using s \<open>1 + int i \<le> n\<close> unfolding k by (cases s) (auto simp: f_def Let_def)
  qed (use n in simp)
  then show ?thesis using True
    unfolding backward_len_def f_def [symmetric] n_def [symmetric] by (auto simp: n_def)
qed

lemma overlap_len_ok:
  assumes "0 \<le> lp + lenf - ov" "lp + lenf \<le> int (length old)"
    and "0 \<le> ls + lenf - ov" "ls + lenf \<le> int (length new)"
    and "0 \<le> pos - lenb" "pos - lenb + ov \<le> int (length old)"
    and "0 \<le> scan - lenb" "scan - lenb + ov \<le> int (length new)" and "0 \<le> ov"
  shows "\<exists>lens. overlap_len old new ls lp scan pos lenf lenb ov = Inr lens \<and> 0 \<le> lens \<and> lens \<le> ov"
proof -
  define f :: "int \<Rightarrow> int \<times> int \<times> int \<Rightarrow> (int \<times> int \<times> int) res" where
    "f = (\<lambda>i (s, Ss, lens).
         bindR (same_at old new (lp + lenf - ov + i) (ls + lenf - ov + i)) (\<lambda>d.
         bindR (same_at old new (pos - lenb + i) (scan - lenb + i)) (\<lambda>d'.
         let s = s + d - d' in
         Inr (if s > Ss then (s, s, i + 1) else (s, Ss, lens)))))"
  have "\<exists>s'. foldR f [0 .. ov - 1] (0, 0, 0) = Inr s' \<and>
      (\<lambda>_ s. 0 \<le> snd (snd s) \<and> snd (snd s) \<le> ov) (length [0 .. ov - 1]) s'"
  proof (rule foldR_invariant)
    fix i and s :: "int \<times> int \<times> int"
    assume i: "i < length [0 .. ov - 1]" and s: "0 \<le> snd (snd s) \<and> snd (snd s) \<le> ov"
    have k: "[0 .. ov - 1] ! i = int i" using i by (simp add: nth_upto)
    have "int i < ov" using i by simp
    then obtain d d' where "same_at old new (lp + lenf - ov + int i) (ls + lenf - ov + int i) = Inr d"
      "same_at old new (pos - lenb + int i) (scan - lenb + int i) = Inr d'"
      using same_at_ok[of "lp + lenf - ov + int i" old "ls + lenf - ov + int i" new]
        same_at_ok[of "pos - lenb + int i" old "scan - lenb + int i" new] assms by auto
    then show "\<exists>s'. f ([0 .. ov - 1] ! i) s = Inr s' \<and> 0 \<le> snd (snd s') \<and> snd (snd s') \<le> ov"
      using s \<open>int i < ov\<close> unfolding k by (cases s) (auto simp: f_def Let_def)
  qed (use assms(9) in simp)
  then show ?thesis unfolding overlap_len_def f_def [symmetric] by auto
qed

lemma split_lens_ok:
  assumes "0 \<le> ls" "ls \<le> scan" "scan \<le> int (length new)" "0 \<le> lp" "lp \<le> int (length old)"
    "0 \<le> pos" "pos \<le> int (length old)"
  shows "\<exists>lenf lenb. split_lens old new ls lp scan pos = Inr (lenf, lenb) \<and> 0 \<le> lenf
    \<and> lp + lenf \<le> int (length old) \<and> 0 \<le> lenb \<and> lenb \<le> pos \<and> ls + lenf \<le> scan - lenb
    \<and> (scan = int (length new) \<longrightarrow> lenb = 0)"
proof -
  obtain f where f: "forward_len old new ls lp scan = Inr f" "0 \<le> f" "f \<le> scan - ls" "f \<le> int (length old) - lp"
    using forward_len_ok[OF assms(1-5)] by auto
  obtain b where b: "backward_len old new ls scan pos = Inr b" "0 \<le> b" "b \<le> scan - ls" "b \<le> pos"
      "scan = int (length new) \<longrightarrow> b = 0"
    using backward_len_ok[OF assms(1-3,6,7)] by auto
  show ?thesis
  proof (cases "ls + f > scan - b")
    case False
    then show ?thesis using f b by (auto simp: split_lens_def)
  next
    case True
    define ov where "ov = (ls + f) - (scan - b)"
    obtain l where l: "overlap_len old new ls lp scan pos f b ov = Inr l" "0 \<le> l" "l \<le> ov"
      using overlap_len_ok[of lp f ov old ls new pos b scan] True f b assms by (auto simp: ov_def)
    then have "split_lens old new ls lp scan pos = Inr (f + l - ov, b - l)"
      using True f b by (simp add: split_lens_def ov_def Let_def)
    then show ?thesis using True f b l by (auto simp: ov_def)
  qed
qed

section \<open>What the generator emits\<close>

lemma ctrl_end_append: "ctrl_end op (cs @ cs') = ctrl_end (ctrl_end op cs) cs'"
  by (induction op cs rule: ctrl_end.induct) auto

lemma ctrl_diff_append [simp]: "ctrl_diff (cs @ cs') = ctrl_diff cs + ctrl_diff cs'"
  by (induction cs rule: ctrl_diff.induct) auto

lemma ctrl_extra_append [simp]: "ctrl_extra (cs @ cs') = ctrl_extra cs + ctrl_extra cs'"
  by (induction cs rule: ctrl_extra.induct) auto

lemma ctrl_ok_append: "ctrl_ok (cs @ cs') \<longleftrightarrow> ctrl_ok cs \<and> ctrl_ok cs'"
  by (simp add: ctrl_ok_def)

lemma enc_ctrl_append: "enc_ctrl (cs @ cs') = enc_ctrl cs @ enc_ctrl cs'"
  by (simp add: enc_ctrl_def)

lemma bs_apply_append:
  assumes "ctrl_ok cs" "ctrl_diff cs = int (length d)" "ctrl_extra cs = int (length e)"
  shows "bs_apply old op (cs @ cs') (d @ d') (e @ e') = bs_apply old op cs d e @ bs_apply old (ctrl_end op cs) cs' d' e'"
  using assms
proof (induction cs arbitrary: op d e)
  case (Cons c cs)
  obtain x y z where c: "c = (x, y, z)" by (metis prod_cases3)
  have ok: "0 \<le> x" "0 \<le> y" "ctrl_ok cs" using Cons.prems(1) by (auto simp: c ctrl_ok_def)
  have le: "nat x \<le> length d" "nat y \<le> length e"
    using Cons.prems(2,3) ctrl_nonneg[OF ok(3)] ok by (auto simp: c)
  have "bs_apply old (s32 (op + x + z)) (cs @ cs') (drop (nat x) d @ d') (drop (nat y) e @ e') =
    bs_apply old (s32 (op + x + z)) cs (drop (nat x) d) (drop (nat y) e)
    @ bs_apply old (ctrl_end (s32 (op + x + z)) cs) cs' d' e'"
    using Cons.IH[OF ok(3), of "drop (nat x) d" "drop (nat y) e"] Cons.prems(2,3) le ok by (simp add: c)
  then show ?case using le by (simp add: c nth_append)
qed simp

lemma emit_ok:
  assumes inv: "diff_inv old new S cs" and len: "length old < 2 ^ 31" "length new < 2 ^ 31"
    and scan: "lastscan S \<le> scan" "scan \<le> int (length new)" and pos: "0 \<le> pos" "pos \<le> int (length old)"
  shows "\<exists>S' cs'. emit old new scan pos S = Inr S' \<and> diff_inv old new S' cs'
    \<and> lastscan S' \<le> scan \<and> (scan = int (length new) \<longrightarrow> lastscan S' = scan)
    \<and> lastoffset S' = pos - scan"
proof -
  define ls where "ls = lastscan S"
  define lp where "lp = lastpos S"
  have I: "ctrl S = enc_ctrl cs" "ctrl_ok cs" "ctrl_end 0 cs = lp" "ctrl_diff cs = int (length (db S))"
    "ctrl_extra cs = int (length (eb S))" "int (length (db S) + length (eb S)) = ls"
    "bs_apply old 0 cs (db S) (eb S) = take (nat ls) new" "0 \<le> lp" "lp \<le> int (length old)" "0 \<le> ls"
    using inv by (auto simp: diff_inv_def ls_def lp_def)
  obtain f b where sl: "split_lens old new ls lp scan pos = Inr (f, b)" "0 \<le> f" "lp + f \<le> int (length old)"
      "0 \<le> b" "b \<le> pos" "ls + f \<le> scan - b" "scan = int (length new) \<longrightarrow> b = 0"
    using split_lens_ok[OF I(10) scan(1)[folded ls_def] scan(2) I(8,9) pos] by auto
  define el where "el = (scan - b) - (ls + f)"
  define dn where "dn = take (nat f) (drop (nat ls) new)"
  define od where "od = take (nat f) (drop (nat lp) old)"
  define en where "en = take (nat el) (drop (nat (ls + f)) new)"
  have rg: "region new ls f = Inr dn" "region old lp f = Inr od" "region new (ls + f) el = Inr en"
    using sl scan I by (auto simp: dn_def od_def en_def el_def)
  have ln: "int (length dn) = f" "int (length od) = f" "int (length en) = el"
    using sl scan I by (auto simp: dn_def od_def en_def el_def)
  define t where "t = (f, el, (pos - b) - (lp + f))"
  define S' where "S' = S\<lparr> db := db S @ map2 (-) dn od, eb := eb S @ en,
                 ctrl := ctrl S @ offtout f @ offtout el @ offtout ((pos - b) - (lp + f)),
                 lastscan := scan - b, lastpos := pos - b, lastoffset := pos - scan \<rparr>"
  have fits: "\<not> (length (db S) + length dn > length new + 1 \<or> length (eb S) + length en > length new + 1)"
    using ln sl scan I(6) by (auto simp: el_def)
  have em: "emit old new scan pos S = Inr S'"
    using sl(1) rg fits unfolding emit_def ls_def [symmetric] lp_def [symmetric]
    by (simp add: el_def [symmetric] S'_def Let_def del: region_eq_Inr)
  have t: "ctrl_ok [t]" using sl scan I len pos by (auto simp: ctrl_ok_def t_def el_def)
  have tend: "ctrl_end lp [t] = pos - b" using sl pos len by (simp add: t_def s32_id)
  have byte: "map2 (-) dn od ! i + old_byte old (s32 (lp + int i)) = dn ! i" if "i < nat f" for i
  proof -
    have "lp + int i < int (length old)" using that sl by linarith
    then have "old_byte old (s32 (lp + int i)) = od ! i"
      using that I(8,9) len(1) by (simp add: old_byte_def s32_id od_def nat_add_distrib)
    then show ?thesis using that ln by simp
  qed
  have "bs_apply old lp [t] (map2 (-) dn od) en = dn @ en"
    using byte ln by (simp add: t_def) (auto intro!: nth_equalityI)
  then have ap: "bs_apply old 0 (cs @ [t]) (db S @ map2 (-) dn od) (eb S @ en) = take (nat ls) new @ dn @ en"
    using bs_apply_append[OF I(2,4,5)] I(3,7) by simp
  have "take (nat (scan - b)) new = take (nat ls) new @ dn @ en"
  proof -
    have "nat (scan - b) = nat ls + (nat f + nat el)" "nat (ls + f) = nat f + nat ls" using sl I by (auto simp: el_def)
    then show ?thesis by (simp only: take_add dn_def en_def drop_drop)
  qed
  then have "diff_inv old new S' (cs @ [t])"
    using I t tend ap ln sl scan pos
    by (simp add: diff_inv_def S'_def ctrl_ok_append ctrl_end_append enc_ctrl_append)
       (auto simp: t_def enc_ctrl_def el_def)
  then show ?thesis using em sl by (intro exI[of _ S'] exI[of _ "cs @ [t]"]) (auto simp: S'_def)
qed

section \<open>The whole generator\<close>

lemma diff_step_ok:
  assumes sx: "suffix_ok I old" and len: "length old < 2 ^ 31" "length new < 2 ^ 31"
    and inv: "diff_inv old new S cs" "scan_inv old new S" and go: "d_scan S < int (length new)"
  shows "\<exists>S' cs'. diff_step I old new S = Inr S' \<and> diff_inv old new S' cs' \<and> scan_inv old new S'
    \<and> (d_scan S' < int (length new) \<longrightarrow> d_scan S + d_len S < d_scan S' + d_len S')"
proof -
  define s0 where "s0 = d_scan S + d_len S"
  have ls: "0 \<le> lastscan S" using inv(1) by (auto simp: diff_inv_def)
  have s0: "lastscan S \<le> s0" "0 \<le> s0" "s0 \<le> int (length new)" "0 \<le> s0 + lastoffset S" "d_scan S \<le> s0"
    using inv(2) go ls by (auto simp: scan_inv_def s0_def)
  obtain sc sco l p where sl: "scan_loop I old new (lastoffset S) s0 s0 0 (d_len S) (d_pos S) = Inr (sc, sco, l, p)"
    "s0 \<le> sc" "sc \<le> int (length new)" "0 \<le> p" "p \<le> int (length old)" "0 \<le> l"
    "sc < int (length new) \<longrightarrow> sc + l \<le> int (length new)"
    "sc < int (length new) \<longrightarrow> s0 < sc + l"
    using scan_loop_ok[OF sx, of s0 new s0 "lastoffset S" "d_pos S" "d_len S" 0] s0 inv(2)
    by (auto simp: scan_inv_def)
  have "\<exists>S1 cs1. (if l \<noteq> sco \<or> sc = int (length new) then emit old new sc p S else Inr S) = Inr S1
    \<and> diff_inv old new S1 cs1 \<and> lastscan S1 \<le> sc \<and> (sc = int (length new) \<longrightarrow> lastscan S1 = sc)
    \<and> 0 \<le> sc + lastoffset S1"
  proof (cases "l \<noteq> sco \<or> sc = int (length new)")
    case True
    then show ?thesis using emit_ok[OF inv(1) len, of sc p] sl s0 by auto
  next
    case False
    then show ?thesis using inv(1) s0 sl by auto
  qed
  then obtain S1 cs1 where S1: "(if l \<noteq> sco \<or> sc = int (length new) then emit old new sc p S else Inr S) = Inr S1"
    "diff_inv old new S1 cs1" "lastscan S1 \<le> sc" "sc = int (length new) \<longrightarrow> lastscan S1 = sc"
    "0 \<le> sc + lastoffset S1" by blast
  have "diff_step I old new S = Inr (S1\<lparr> d_scan := sc, d_len := l, d_pos := p \<rparr>)"
    unfolding diff_step_def s0_def [symmetric] Let_def sl(1) using S1(1) by simp
  moreover have "diff_inv old new (S1\<lparr> d_scan := sc, d_len := l, d_pos := p \<rparr>) cs1"
    using S1(2) by (simp add: diff_inv_def)
  moreover have "scan_inv old new (S1\<lparr> d_scan := sc, d_len := l, d_pos := p \<rparr>)"
    using S1 sl by (simp add: scan_inv_def)
  ultimately show ?thesis using sl(8) s0(5) by (fastforce simp: s0_def)
qed

lemma diff_loop_ok:
  assumes sx: "suffix_ok I old" and len: "length old < 2 ^ 31" "length new < 2 ^ 31"
    and inv: "diff_inv old new S cs" "scan_inv old new S"
  shows "\<exists>S' cs'. diff_loop I old new S = Some (Inr S') \<and> diff_inv old new S' cs'
    \<and> lastscan S' = int (length new)"
  using inv
proof (induction "if d_scan S < int (length new) then Suc (nat (int (length new) - (d_scan S + d_len S))) else 0"
    arbitrary: S cs rule: less_induct)
  case less
  show ?case
  proof (cases "d_scan S < int (length new)")
    case False
    then have "lastscan S = int (length new)" using less.prems(2) by (auto simp: scan_inv_def)
    then show ?thesis using False less.prems(1) by (subst diff_loop.simps) auto
  next
    case True
    obtain S1 cs1 where S1: "diff_step I old new S = Inr S1" "diff_inv old new S1 cs1" "scan_inv old new S1"
      "d_scan S1 < int (length new) \<longrightarrow> d_scan S + d_len S < d_scan S1 + d_len S1"
      using diff_step_ok[OF sx len less.prems True] by blast
    have "diff_loop I old new S = diff_loop I old new S1"
      using True S1(1) by (subst diff_loop.simps) simp
    moreover have "\<exists>S' cs'. diff_loop I old new S1 = Some (Inr S') \<and> diff_inv old new S' cs'
        \<and> lastscan S' = int (length new)"
      using S1(3,4) True by (intro less.hyps[OF _ S1(2,3)]) (auto simp: scan_inv_def)
    ultimately show ?thesis by simp
  qed
qed

lemma bsdiff_start:
  "diff_inv old new \<lparr> d_scan = 0, d_len = 0, d_pos = 0, lastscan = 0, lastpos = 0, lastoffset = 0,
     db = [], eb = [], ctrl = [] \<rparr> []"
  "scan_inv old new \<lparr> d_scan = 0, d_len = 0, d_pos = 0, lastscan = 0, lastpos = 0, lastoffset = 0,
     db = [], eb = [], ctrl = [] \<rparr>"
  by (simp_all add: diff_inv_def scan_inv_def enc_ctrl_def ctrl_ok_def)

lemma bsdiff_spec:
  assumes sx: "suffix_ok I old" and len: "length old < 2 ^ 31" "length new < 2 ^ 31"
  shows "\<exists>cs ds es. bsdiff bz I old new =
      Inr (BSDIFF40 @ offtout (int (length (bz (enc_ctrl cs)))) @ offtout (int (length (bz ds)))
           @ offtout (int (length new)) @ bz (enc_ctrl cs) @ bz ds @ bz es)
    \<and> ctrl_ok cs \<and> ctrl_diff cs = int (length ds) \<and> ctrl_extra cs = int (length es)
    \<and> ctrl_diff cs + ctrl_extra cs = int (length new) \<and> bs_apply old 0 cs ds es = new"
proof -
  obtain S cs where S: "diff_loop I old new \<lparr> d_scan = 0, d_len = 0, d_pos = 0, lastscan = 0, lastpos = 0,
      lastoffset = 0, db = [], eb = [], ctrl = [] \<rparr> = Some (Inr S)" "diff_inv old new S cs"
      "lastscan S = int (length new)"
    using diff_loop_ok[OF sx len bsdiff_start] by blast
  then show ?thesis
    by (intro exI[of _ cs] exI[of _ "db S"] exI[of _ "eb S"]) (auto simp: bsdiff_def diff_inv_def Let_def)
qed

section \<open>Properties\<close>

lemma bsdiff_applies:
  assumes "bz_decodes E yields" and "\<And>d. yields (bzDecompressInit E (bzcompress d)) d"
    and "suffix_ok I old" and "length old < 2 ^ 31" and "length new < 2 ^ 31"
    and "malloc_ok E (int (length new))"
  shows "\<exists>patch. bsdiff bzcompress I old new = Inr patch \<and> take 8 patch = BSDIFF40 \<and>
    (length patch < 2 ^ 31 \<longrightarrow>
     ApplyBSDiffPatchMem E old 0 (int (length old)) patch 0 = Inr (Some new))"
proof -
  obtain cs ds es where b: "bsdiff bzcompress I old new =
      Inr (BSDIFF40 @ offtout (int (length (bzcompress (enc_ctrl cs)))) @ offtout (int (length (bzcompress ds)))
           @ offtout (int (length new)) @ bzcompress (enc_ctrl cs) @ bzcompress ds @ bzcompress es)"
    "ctrl_ok cs" "ctrl_diff cs = int (length ds)" "ctrl_extra cs = int (length es)"
    "ctrl_diff cs + ctrl_extra cs = int (length new)" "bs_apply old 0 cs ds es = new"
    using bsdiff_spec[OF assms(3-5)] by blast
  show ?thesis
    using ApplyBSDiffPatchMem_spec[OF assms(1), of old "int (length old)" 0 old _ "[]" _ _ _ _ 0 cs ds es]
      b assms(2,5,6) by (auto simp: BSDIFF40_def)
qed

text \<open>
  C2: Round trip of the patch tools. For any old and new file, any suffix array with
  positions inside the old file, and a libbzip2 that decompresses what it
  compressed, \<open>bsdiff\<close> terminates without leaving its buffers, and applying the patch
  it writes to the old file gives exactly the new file (for patches below 2 GiB, the
  range of the device's \<open>off_t\<close>).
\<close>

theorem bsdiff_roundtrip:
  assumes "bz_decodes E yields" and "\<And>d. yields (bzDecompressInit E (bzcompress d)) d"
    and "suffix_ok I old" and "length old < 2 ^ 31" and "length new < 2 ^ 31"
    and "malloc_ok E (int (length new))"
  shows "\<exists>patch. bsdiff bzcompress I old new = Inr patch \<and>
    (length patch < 2 ^ 31 \<longrightarrow>
     ApplyBSDiffPatchMem E old 0 (int (length old)) patch 0 = Inr (Some new))"
  using bsdiff_applies[OF assms] by blast

lemma store_env_decodes: "bz_decodes store_env (=)"
  by (auto simp: bz_decodes_def store_env_def)

lemma sample_steps:
  "diff_step [2, 0, 1] [1, 2] [1, 3, 2]
     \<lparr> d_scan = 0, d_len = 0, d_pos = 0, lastscan = 0, lastpos = 0, lastoffset = 0,
       db = [], eb = [], ctrl = [] \<rparr>
   = Inr \<lparr> d_scan = 0, d_len = 1, d_pos = 0, lastscan = 0, lastpos = 0, lastoffset = 0,
       db = [], eb = [], ctrl = [] \<rparr>"
  "diff_step [2, 0, 1] [1, 2] [1, 3, 2]
     \<lparr> d_scan = 0, d_len = 1, d_pos = 0, lastscan = 0, lastpos = 0, lastoffset = 0,
       db = [], eb = [], ctrl = [] \<rparr>
   = Inr \<lparr> d_scan = 3, d_len = 1, d_pos = 1, lastscan = 3, lastpos = 1, lastoffset = - 2,
       db = [0], eb = [3, 2], ctrl = [1, 0, 0, 0, 0, 0, 0, 0, 2, 0, 0, 0, 0, 0, 0, 0,
         0, 0, 0, 0, 0, 0, 0, 0] \<rparr>"
  by code_simp+

theorem bsdiff_roundtrip_witness:
  "\<exists>patch. bsdiff id [2, 0, 1] [1, 2] [1, 3, 2] = Inr patch \<and>
    ApplyBSDiffPatchMem store_env [1, 2] 0 2 patch 0 = Inr (Some [1, 3, 2])"
proof -
  have "\<exists>p. bsdiff id [2, 0, 1] [1, 2] [1, 3, 2] = Inr p \<and> length p < 2 ^ 31"
    unfolding bsdiff_def
    by (subst diff_loop.simps, simp add: sample_steps, subst diff_loop.simps, simp add: sample_steps,
        subst diff_loop.simps) simp
  then show ?thesis
    using bsdiff_roundtrip[of store_env "(=)" id "[2, 0, 1]" "[1, 2]" "[1, 3, 2]"] store_env_decodes
    by (auto simp: suffix_ok_def store_env_def)
qed

text \<open>
  C18: \<open>ApplyBSDiffPatchMem\<close> implements the patch format: when the three blocks of a
  patch decompress to the encoded triples \<open>cs\<close>, the diff bytes and the extra bytes,
  and the triples account for all of them and for the declared size of the new file,
  the result is the file the triples describe. It does not depend on the contents of
  the memory \<open>malloc\<close> returned, and the old data may be any part of a larger object.
\<close>

theorem ApplyBSDiffPatchMem_correct:
  assumes "bz_decodes E yields"
    and "0 \<le> base" "0 \<le> old_size" "base + old_size \<le> int (length mem)"
    and "length c < 2 ^ 31" "length d < 2 ^ 31"
    and "yields (bzDecompressInit E c) (enc_ctrl cs)" "yields (bzDecompressInit E d) ds"
      "yields (bzDecompressInit E e) es"
    and "ctrl_ok cs" "ctrl_diff cs = int (length ds)" "ctrl_extra cs = int (length es)"
      "length ds + length es < 2 ^ 31"
    and "malloc_ok E (int (length ds + length es))"
  shows "ApplyBSDiffPatchMem E mem base old_size
      (pre @ BSDIFF40 @ offtout (int (length c)) @ offtout (int (length d))
        @ offtout (int (length ds + length es)) @ c @ d @ e) (int (length pre))
    = Inr (Some (bs_apply (take (nat old_size) (drop (nat base) mem)) 0 cs ds es))"
  using assms(5,6,10-14)
  by (intro ApplyBSDiffPatchMem_spec[OF assms(1) refl assms(2-4) refl refl _ _ _ _ assms(7-9)]) auto

theorem ApplyBSDiffPatchMem_correct_witness:
  "ApplyBSDiffPatchMem store_env [9, 1, 2, 9] 1 2
      ([7] @ BSDIFF40 @ offtout 24 @ offtout 2 @ offtout 3 @ enc_ctrl [(2, 1, 0)] @ [0, 5] @ [4]) 1
    = Inr (Some [1, 7, 4])"
  using ApplyBSDiffPatchMem_correct[of store_env "(=)" 1 2 "[9, 1, 2, 9]" "enc_ctrl [(2, 1, 0)]" "[0, 5]"
      "[(2, 1, 0)]" "[0, 5]" "[4]" "[4]" "[7]"] store_env_decodes
  by (simp add: store_env_def ctrl_ok_def enc_ctrl_def old_byte_def s32_id upt_rec)



lemma fill_loop_stuck:
  assumes "fill_loop E buf pos n z = Some y"
  shows "bzDecompress E z n = (BZ_OK, [], z) \<Longrightarrow> pos \<le> length buf \<Longrightarrow> n = 0"
  using assms
proof (induction E buf pos n z y rule: fill_loop.raw_induct[rotated 1, consumes 1, case_names step])
  case (step loop E buf pos n z y)
  show ?case
  proof (rule ccontr)
    assume "n \<noteq> 0"
    then have "loop E buf pos n z = Some y" using step(2-4) by simp
    then show False using step(1) step(3,4) \<open>n \<noteq> 0\<close> by blast
  qed
qed

text \<open>
  C29: A decompressor that has run out of input reports \<open>BZ_OK\<close> and produces nothing;
  \<open>FillBuffer\<close> then never returns. So a truncated patch does not end in an error but
  hangs the installation.
\<close>

theorem FillBuffer_hangs_on_truncated_input:
  assumes "bzDecompress E z (nat (n mod 2 ^ 32)) = (BZ_OK, [], z)"
    and "n mod 2 ^ 32 \<noteq> 0" and "nat pos \<le> length buf"
  shows "FillBuffer E buf pos n z = Inl Diverges"
proof (cases "fill_loop E buf (nat pos) (nat (n mod 2 ^ 32)) z")
  case None
  then show ?thesis by (simp add: FillBuffer_def)
next
  case (Some y)
  have "0 \<le> n mod 2 ^ 32" by simp
  then have False using fill_loop_stuck[OF Some assms(1,3)] assms(2) by simp
  then show ?thesis ..
qed

theorem FillBuffer_hangs_on_truncated_input_witness:
  "FillBuffer (store_env\<lparr> bzDecompress := \<lambda>z n. (BZ_OK, take n z, drop n z) \<rparr>) [0, 0, 0] 0 3 [] = Inl Diverges"
  by (rule FillBuffer_hangs_on_truncated_input) (simp_all add: store_env_def)

end
