(* ===== verification/Img_Patch.thy ===== *)
theory Img_Patch
  imports Bs_Patch
begin

text \<open>
  Patching of whole files and images (\<open>applypatch/bspatch.c\<close>, \<open>applypatch/imgpatch.c\<close>) into an output
  sink (\<open>FileSink\<close> and \<open>MemorySink\<close> of \<open>applypatch/applypatch.c\<close>), with the hash of the output computed
  on the way. The compression library and the hash functions of mincrypt are fields of an environment.
  What a sink promises is a locale; \<open>MemorySink\<close> and \<open>FileSink\<close> are interpretations.
\<close>

unbundle bit_operations_syntax

section \<open>Environment\<close>

text \<open>
  \<open>inflate\<close> is the one call on a region of compressed data with room for the given number of bytes: its
  result and its output. \<open>deflateInit2\<close> takes the five parameters and the data; a call of \<open>deflate\<close>
  gives the result, at most as many bytes as there is room for, and the new stream.
\<close>

record ('z, 'y, 'c) imgenv = "'z bzenv" +
  inflateInit2 :: int
  inflate :: "bytes \<Rightarrow> nat \<Rightarrow> int \<times> bytes"
  deflateInit2 :: "int \<Rightarrow> int \<Rightarrow> int \<Rightarrow> int \<Rightarrow> int \<Rightarrow> bytes \<Rightarrow> 'y"
  deflate :: "'y \<Rightarrow> nat \<Rightarrow> int \<times> bytes \<times> 'y"
  SHA_init :: 'c
  SHA_update :: "'c \<Rightarrow> bytes \<Rightarrow> 'c"
  SHA_final :: "'c \<Rightarrow> bytes"

definition Z_OK :: int where "Z_OK = 0"
definition Z_STREAM_END :: int where "Z_STREAM_END = 1"

type_synonym 'k SinkFn = "bytes \<Rightarrow> 'k \<Rightarrow> int \<times> 'k"

text \<open>Conversion to the 32-bit unsigned \<open>size_t\<close>.\<close>

definition size_t :: "int \<Rightarrow> int" where
  "size_t x = x mod 2 ^ 32"

section \<open>Sinks\<close>

record MemorySinkInfo =
  mbuffer :: bytes
  mpos :: nat

definition MemorySink :: "MemorySinkInfo SinkFn" where
  "MemorySink data msi =
     (if int (length (mbuffer msi)) - int (mpos msi) < int (length data) then (- 1, msi)
      else (int (length data),
            msi\<lparr>mbuffer := store (mbuffer msi) (mpos msi) data, mpos := mpos msi + length data\<rparr>))"

text \<open>
  The file behind a descriptor: what has been written and the number of system calls so far. \<open>wr n k\<close> is
  what \<open>write\<close> returns when the call with number \<open>n\<close> is asked to write \<open>k\<close> bytes.
\<close>

record out_file =
  written_data :: bytes
  wcalls :: nat

definition sys_write :: "(nat \<Rightarrow> nat \<Rightarrow> int) \<Rightarrow> bytes \<Rightarrow> out_file \<Rightarrow> int \<times> out_file" where
  "sys_write wr data f =
     (let n = wr (wcalls f) (length data); n = (if n > int (length data) then int (length data) else n) in
      (n, f\<lparr>written_data := written_data f @ take (nat n) data, wcalls := wcalls f + 1\<rparr>))"

function FileSink :: "(nat \<Rightarrow> nat \<Rightarrow> int) \<Rightarrow> out_file SinkFn" where
  "FileSink wr data f =
     (if data = [] then (0, f)
      else case sys_write wr data f of (wrote, f) \<Rightarrow>
        if wrote \<le> 0 then (0, f)
        else case FileSink wr (drop (nat wrote) data) f of (done, f) \<Rightarrow> (wrote + done, f))"
  by pat_completeness auto

termination
  by (relation "measure (\<lambda>(wr, data, f). length data)") auto

declare FileSink.simps [simp del]

section \<open>Applying a bsdiff patch to a sink\<close>

definition ApplyBSDiffPatch ::
  "('z, 'y, 'c, 'm) imgenv_scheme \<Rightarrow> 'k SinkFn \<Rightarrow> bytes \<Rightarrow> int \<Rightarrow> int \<Rightarrow> bytes \<Rightarrow> int \<Rightarrow> 'k \<Rightarrow> 'c
   \<Rightarrow> (int \<times> 'k \<times> 'c) res" where
  "ApplyBSDiffPatch E sink mem base old_size patch patch_offset k ctx =
     bindR (ApplyBSDiffPatchMem E mem base old_size patch patch_offset) (\<lambda>r.
       case r of
         None \<Rightarrow> Inr (- 1, k, ctx)
       | Some new \<Rightarrow>
           (case sink new k of (n, k) \<Rightarrow>
              if n < int (length new) then Inr (1, k, ctx)
              else Inr (0, k, SHA_update E ctx new)))"

section \<open>Image patches\<close>

definition CHUNK_NORMAL :: int where "CHUNK_NORMAL = 0"
definition CHUNK_DEFLATE :: int where "CHUNK_DEFLATE = 2"
definition CHUNK_RAW :: int where "CHUNK_RAW = 3"

definition IMGDIFF2 :: bytes where
  "IMGDIFF2 = [0x49, 0x4D, 0x47, 0x44, 0x49, 0x46, 0x46, 0x32]"

text \<open>
  The three kinds of chunks, from behind the type field: the result, the new position in the patch, the
  sink and the hash. The result of \<open>ApplyBSDiffPatch\<close> is dropped by the code.
\<close>

definition normal_chunk ::
  "('z, 'y, 'c, 'm) imgenv_scheme \<Rightarrow> 'k SinkFn \<Rightarrow> bytes \<Rightarrow> bytes \<Rightarrow> int \<Rightarrow> 'k \<Rightarrow> 'c \<Rightarrow> (int \<times> int \<times> 'k \<times> 'c) res" where
  "normal_chunk E sink old patch hdr k ctx =
     (let pos = s32 (hdr + 24) in
      if pos > int (length patch) then Inr (- 1, pos, k, ctx)
      else
        bindR (Read8 patch hdr) (\<lambda>src_start.
        bindR (Read8 patch (hdr + 8)) (\<lambda>src_len.
        bindR (Read8 patch (hdr + 16)) (\<lambda>patch_offset.
        bindR (ApplyBSDiffPatch E sink old (size_t src_start) (s32 src_len) patch (s32 patch_offset) k ctx)
          (\<lambda>(_, k, ctx). Inr (0, pos, k, ctx))))))"

definition raw_chunk ::
  "('z, 'y, 'c, 'm) imgenv_scheme \<Rightarrow> 'k SinkFn \<Rightarrow> bytes \<Rightarrow> int \<Rightarrow> 'k \<Rightarrow> 'c \<Rightarrow> (int \<times> int \<times> 'k \<times> 'c) res" where
  "raw_chunk E sink patch hdr k ctx =
     (let pos = s32 (hdr + 4) in
      if pos > int (length patch) then Inr (- 1, pos, k, ctx)
      else
        bindR (Read4 patch hdr) (\<lambda>data_len.
        if s32 (pos + data_len) > int (length patch) then Inr (- 1, pos, k, ctx)
        else bindR (region patch pos data_len) (\<lambda>data.
          let ctx = SHA_update E ctx data in
          case sink data k of (n, k) \<Rightarrow>
            if n \<noteq> data_len then Inr (- 1, pos, k, ctx)
            else Inr (0, s32 (pos + data_len), k, ctx))))"

partial_function (option) deflate_loop ::
  "('z, 'y, 'c, 'm) imgenv_scheme \<Rightarrow> 'k SinkFn \<Rightarrow> nat \<Rightarrow> 'y \<Rightarrow> 'k \<Rightarrow> 'c \<Rightarrow> (int \<times> 'k \<times> 'c) option" where
  "deflate_loop E sink temp_size z k ctx =
     (case deflate E z temp_size of (ret, have, z) \<Rightarrow>
        (case sink have k of (n, k) \<Rightarrow>
           if n \<noteq> int (length have) then Some (- 1, k, ctx)
           else if ret \<noteq> Z_STREAM_END then deflate_loop E sink temp_size z k (SHA_update E ctx have)
           else Some (0, k, SHA_update E ctx have)))"

declare deflate_loop.simps [code]

text \<open>The recompression of the patched data, which reuses the source buffer if it is large enough.\<close>

definition recompress ::
  "('z, 'y, 'c, 'm) imgenv_scheme \<Rightarrow> 'k SinkFn \<Rightarrow> bytes \<Rightarrow> int \<Rightarrow> int \<Rightarrow> bytes \<Rightarrow> 'k \<Rightarrow> 'c \<Rightarrow> (int \<times> 'k \<times> 'c) res" where
  "recompress E sink patch hdr expanded_len data k ctx =
     bindR (Read4 patch (hdr + 40)) (\<lambda>level.
     bindR (Read4 patch (hdr + 44)) (\<lambda>method.
     bindR (Read4 patch (hdr + 48)) (\<lambda>windowBits.
     bindR (Read4 patch (hdr + 52)) (\<lambda>memLevel.
     bindR (Read4 patch (hdr + 56)) (\<lambda>strategy.
     if s32 expanded_len < 32768 \<and> \<not> malloc_ok E 32768 then Inl NullDeref
     else of_loop (deflate_loop E sink (nat (if s32 expanded_len < 32768 then 32768 else s32 expanded_len))
            (deflateInit2 E level method windowBits memLevel strategy data) k ctx))))))"

definition deflate_chunk ::
  "('z, 'y, 'c, 'm) imgenv_scheme \<Rightarrow> 'k SinkFn \<Rightarrow> bytes \<Rightarrow> bytes \<Rightarrow> int \<Rightarrow> 'k \<Rightarrow> 'c \<Rightarrow> (int \<times> int \<times> 'k \<times> 'c) res" where
  "deflate_chunk E sink old patch hdr k ctx =
     (let pos = s32 (hdr + 60) in
      if pos > int (length patch) then Inr (- 1, pos, k, ctx)
      else
        bindR (Read8 patch hdr) (\<lambda>src_start.
        bindR (Read8 patch (hdr + 8)) (\<lambda>src_len.
        bindR (Read8 patch (hdr + 16)) (\<lambda>patch_offset.
        bindR (Read8 patch (hdr + 24)) (\<lambda>expanded_len.
        if \<not> malloc_ok E (size_t expanded_len) \<or> inflateInit2 E \<noteq> Z_OK then Inr (- 1, pos, k, ctx)
        else bindR (region old (size_t src_start) (size_t src_len)) (\<lambda>input.
          case inflate E input (nat (size_t expanded_len)) of (ret, expanded_source) \<Rightarrow>
            if ret \<noteq> Z_STREAM_END then Inr (- 1, pos, k, ctx)
            else if int (length expanded_source) \<noteq> size_t expanded_len then Inr (- 1, pos, k, ctx)
            else bindR (ApplyBSDiffPatchMem E expanded_source 0 (s32 expanded_len) patch (s32 patch_offset)) (\<lambda>r.
              case r of
                None \<Rightarrow> Inr (- 1, pos, k, ctx)
              | Some data \<Rightarrow>
                  bindR (recompress E sink patch hdr (size_t expanded_len) data k ctx)
                    (\<lambda>(rc, k, ctx). Inr (rc, pos, k, ctx)))))))))"

function image_chunks ::
  "('z, 'y, 'c, 'm) imgenv_scheme \<Rightarrow> 'k SinkFn \<Rightarrow> bytes \<Rightarrow> bytes \<Rightarrow> int \<Rightarrow> int \<Rightarrow> int \<Rightarrow> 'k \<Rightarrow> 'c
   \<Rightarrow> (int \<times> 'k \<times> 'c) res" where
  "image_chunks E sink old patch num_chunks i pos k ctx =
     (if i < num_chunks then
        (if s32 (pos + 4) > int (length patch) then Inr (- 1, k, ctx)
         else bindR (Read4 patch pos) (\<lambda>type.
           let pos = s32 (pos + 4) in
           bindR (if type = CHUNK_NORMAL then normal_chunk E sink old patch pos k ctx
                  else if type = CHUNK_RAW then raw_chunk E sink patch pos k ctx
                  else if type = CHUNK_DEFLATE then deflate_chunk E sink old patch pos k ctx
                  else Inr (- 1, pos, k, ctx)) (\<lambda>(rc, pos, k, ctx).
             if rc \<noteq> 0 then Inr (- 1, k, ctx)
             else image_chunks E sink old patch num_chunks (i + 1) pos k ctx)))
      else Inr (0, k, ctx))"
  by pat_completeness auto

termination
  by (relation "measure (\<lambda>(_, _, _, _, n, i, _, _, _). nat (n - i))") auto

declare image_chunks.simps [simp del]

definition ApplyImagePatch ::
  "('z, 'y, 'c, 'm) imgenv_scheme \<Rightarrow> 'k SinkFn \<Rightarrow> bytes \<Rightarrow> bytes \<Rightarrow> 'k \<Rightarrow> 'c \<Rightarrow> (int \<times> 'k \<times> 'c) res" where
  "ApplyImagePatch E sink old patch k ctx =
     (if length patch < 12 then Inr (- 1, k, ctx)
      else if memcmp (take 8 patch) IMGDIFF2 8 \<noteq> 0 then Inr (- 1, k, ctx)
      else bindR (Read4 patch 8) (\<lambda>num_chunks. image_chunks E sink old patch num_chunks 0 12 k ctx))"

section \<open>Notions used in the statements\<close>

text \<open>Hashing is incremental: the hash context depends on the concatenation of the data only.\<close>

definition sha_stream :: "('z, 'y, 'c, 'm) imgenv_scheme \<Rightarrow> bool" where
  "sha_stream E \<longleftrightarrow>
     (\<forall>c. SHA_update E c [] = c) \<and> (\<forall>c a b. SHA_update E (SHA_update E c a) b = SHA_update E c (a @ b))"

text \<open>The same bytes went into the output and into the hash.\<close>

definition emits ::
  "('z, 'y, 'c, 'm) imgenv_scheme \<Rightarrow> ('k \<Rightarrow> bytes) \<Rightarrow> bytes \<Rightarrow> 'k \<Rightarrow> 'c \<Rightarrow> 'k \<Rightarrow> 'c \<Rightarrow> bool" where
  "emits E content data k ctx k' ctx' \<longleftrightarrow> content k' = content k @ data \<and> ctx' = SHA_update E ctx data"

definition msi_content :: "MemorySinkInfo \<Rightarrow> bytes" where
  "msi_content msi = take (mpos msi) (mbuffer msi)"

text \<open>A descriptor whose writes are never cut short makes the file an atomic sink, and a working one has room.\<close>

definition whole_writes :: "(nat \<Rightarrow> nat \<Rightarrow> int) \<Rightarrow> bool" where
  "whole_writes wr \<longleftrightarrow> (\<forall>n k. wr n k \<le> 0 \<or> wr n k \<ge> int k)"

definition full_writes :: "(nat \<Rightarrow> nat \<Rightarrow> int) \<Rightarrow> bool" where
  "full_writes wr \<longleftrightarrow> (\<forall>n k. wr n k \<ge> int k)"

text \<open>
  The format of an image patch: a header, the chunk records, and behind them the data that the records
  refer to by offset.
\<close>

datatype img_chunk =
    Normal u64 u64 u64
  | Raw bytes
  | Deflate u64 u64 u64 u64 u64 u32 u32 u32 u32 u32

definition enc4 :: "u32 \<Rightarrow> bytes" where
  "enc4 v = Write4 v []"

definition enc8 :: "u64 \<Rightarrow> bytes" where
  "enc8 v = Write8 v []"

fun chunk_record :: "img_chunk \<Rightarrow> bytes" where
  "chunk_record (Normal src_start src_len patch_offset) = enc4 0 @ enc8 src_start @ enc8 src_len @ enc8 patch_offset"
| "chunk_record (Raw data) = enc4 3 @ enc4 (of_nat (length data)) @ data"
| "chunk_record (Deflate src_start src_len patch_offset expanded_len target_len level method wbits mlevel strategy) =
     enc4 2 @ enc8 src_start @ enc8 src_len @ enc8 patch_offset @ enc8 expanded_len @ enc8 target_len
     @ enc4 level @ enc4 method @ enc4 wbits @ enc4 mlevel @ enc4 strategy"

definition img_patch :: "img_chunk list \<Rightarrow> bytes \<Rightarrow> bytes" where
  "img_patch cs tail = IMGDIFF2 @ enc4 (of_nat (length cs)) @ List.concat (map chunk_record cs) @ tail"

text \<open>The whole output of a compressor that is called with \<open>m\<close> bytes of room until it ends.\<close>

inductive deflates :: "('z, 'y, 'c, 'm) imgenv_scheme \<Rightarrow> nat \<Rightarrow> 'y \<Rightarrow> bytes \<Rightarrow> bool" for E m where
  last: "deflate E z m = (Z_STREAM_END, a, z') \<Longrightarrow> deflates E m z a"
| more: "deflate E z m = (ret, a, z') \<Longrightarrow> ret \<noteq> Z_STREAM_END \<Longrightarrow> deflates E m z' b \<Longrightarrow> deflates E m z (a @ b)"

text \<open>The bytes a chunk stands for.\<close>

fun chunk_output :: "('z, 'y, 'c, 'm) imgenv_scheme \<Rightarrow> bytes \<Rightarrow> bytes \<Rightarrow> img_chunk \<Rightarrow> bytes \<Rightarrow> bool" where
  "chunk_output E old patch (Normal src_start src_len patch_offset) out \<longleftrightarrow>
     ApplyBSDiffPatchMem E old (size_t (sint src_start)) (s32 (sint src_len)) patch (s32 (sint patch_offset))
       = Inr (Some out)"
| "chunk_output E old patch (Raw data) out \<longleftrightarrow> out = data"
| "chunk_output E old patch
     (Deflate src_start src_len patch_offset expanded_len target_len level method wbits mlevel strategy) out \<longleftrightarrow>
     malloc_ok E (size_t (sint expanded_len)) \<and> malloc_ok E 32768 \<and> inflateInit2 E = Z_OK
     \<and> (\<exists>input source data.
          region old (size_t (sint src_start)) (size_t (sint src_len)) = Inr input
          \<and> inflate E input (nat (size_t (sint expanded_len))) = (Z_STREAM_END, source)
          \<and> int (length source) = size_t (sint expanded_len)
          \<and> ApplyBSDiffPatchMem E source 0 (s32 (sint expanded_len)) patch (s32 (sint patch_offset)) = Inr (Some data)
          \<and> deflates E (nat (if s32 (size_t (sint expanded_len)) < 32768 then 32768 else s32 (size_t (sint expanded_len))))
               (deflateInit2 E (sint level) (sint method) (sint wbits) (sint mlevel) (sint strategy) data) out)"

text \<open>An environment for concrete runs: codecs that store, and a hash that keeps the data.\<close>

definition img_env0 :: "(bytes, bytes, bytes) imgenv" where
  "img_env0 =
     \<lparr>bzDecompressInit = bzDecompressInit store_env, bzDecompress = bzDecompress store_env,
      malloc_ok = malloc_ok store_env, fresh = fresh store_env, inflateInit2 = 0,
      inflate = (\<lambda>d n. (1, take n d)), deflateInit2 = (\<lambda>_ _ _ _ _ d. d),
      deflate = (\<lambda>z n. (if length z \<le> n then 1 else 0, take n z, drop n z)),
      SHA_init = [], SHA_update = (@), SHA_final = (\<lambda>c. take 20 (c @ replicate 20 0))\<rparr>"

definition tail0 :: bytes where
  "tail0 = BSDIFF40 @ offtout 24 @ offtout 2 @ offtout 3 @ enc_ctrl [(2, 1, 0)] @ [0, 5] @ [4]"

lemma emits_Nil: "sha_stream E \<Longrightarrow> emits E content [] k ctx k ctx"
  by (simp add: emits_def sha_stream_def)

lemma emits_same: "sha_stream E \<Longrightarrow> content k' = content k \<Longrightarrow> emits E content [] k ctx k' ctx"
  by (simp add: emits_def sha_stream_def)

lemma emits_append:
  "sha_stream E \<Longrightarrow> emits E content a k ctx k1 ctx1 \<Longrightarrow> emits E content b k1 ctx1 k2 ctx2 \<Longrightarrow>
   emits E content (a @ b) k ctx k2 ctx2"
  by (simp add: emits_def sha_stream_def)

section \<open>The contract of a sink\<close>

text \<open>
  A sink reports at most the bytes it was given, and has appended them all when it reports them all. An
  atomic sink has appended nothing otherwise. A sink with room takes everything that fits.
\<close>

locale output_sink =
  fixes sink :: "'k SinkFn" and content :: "'k \<Rightarrow> bytes"
  assumes sink_le: "sink d k = (n, k') \<Longrightarrow> n \<le> int (length d)"
    and sink_full: "sink d k = (int (length d), k') \<Longrightarrow> content k' = content k @ d"
begin

lemma bsdiff_emits:
  assumes "ApplyBSDiffPatch E sink mem base old_size patch off k ctx = Inr (0, k', ctx')"
  shows "\<exists>new. ApplyBSDiffPatchMem E mem base old_size patch off = Inr (Some new) \<and> emits E content new k ctx k' ctx'"
proof -
  obtain r where r: "ApplyBSDiffPatchMem E mem base old_size patch off = Inr r"
    using assms by (auto simp: ApplyBSDiffPatch_def)
  then obtain new where new: "r = Some new" using assms by (cases r) (auto simp: ApplyBSDiffPatch_def)
  obtain n k1 where s: "sink new k = (n, k1)" by (cases "sink new k")
  have "\<not> n < int (length new)" "k' = k1" "ctx' = SHA_update E ctx new"
    using assms r new s by (auto simp: ApplyBSDiffPatch_def split: if_splits)
  then show ?thesis
    using r new s sink_le[OF s] sink_full[of new k k1] by (auto simp: emits_def)
qed

lemma deflate_emits:
  assumes "deflate_loop E s m z k ctx = Some y"
  shows "sha_stream E \<Longrightarrow> s = sink \<Longrightarrow> y = (0, k', ctx') \<Longrightarrow> \<exists>out. emits E content out k ctx k' ctx'"
  using assms
proof (induction E s m z k ctx y rule: deflate_loop.raw_induct[rotated 1, consumes 1, case_names step])
  case (step loop E s m z k ctx y)
  obtain ret hv z1 where d: "deflate E z m = (ret, hv, z1)" by (cases "deflate E z m")
  obtain n k1 where s: "s hv k = (n, k1)" by (cases "s hv k")
  have n: "n = int (length hv)"
    using step.hyps step.prems d s by (auto split: if_splits)
  then have e: "emits E content hv k ctx k1 (SHA_update E ctx hv)"
    using s sink_full[of hv k k1] step.prems by (simp add: emits_def)
  show ?case
  proof (cases "ret = Z_STREAM_END")
    case True
    then show ?thesis using step.hyps step.prems d s n e by auto
  next
    case False
    then have "loop E s m z1 k1 (SHA_update E ctx hv) = Some y" using step.hyps d s n by simp
    then show ?thesis using step.IH step.prems emits_append[OF step.prems(1) e] by blast
  qed
qed

lemma recompress_emits:
  assumes "sha_stream E" "recompress E sink patch hdr n data k ctx = Inr (0, k', ctx')"
  shows "\<exists>out. emits E content out k ctx k' ctx'"
  using assms deflate_emits[OF _ assms(1) refl refl] by (auto simp: recompress_def split: if_splits)

lemma deflate_chunk_emits:
  assumes "sha_stream E" "deflate_chunk E sink old patch hdr k ctx = Inr (0, pos, k', ctx')"
  shows "\<exists>out. emits E content out k ctx k' ctx'"
proof -
  obtain n data where "recompress E sink patch hdr n data k ctx = Inr (0, k', ctx')"
    using assms(2) by (fastforce simp: deflate_chunk_def Let_def split: if_splits prod.splits option.splits)
  then show ?thesis using recompress_emits[OF assms(1)] by blast
qed

lemma raw_chunk_emits:
  assumes "raw_chunk E sink patch hdr k ctx = Inr (0, pos, k', ctx')"
  shows "\<exists>out. emits E content out k ctx k' ctx'"
proof -
  obtain len data where d: "Read4 patch hdr = Inr len" "region patch (s32 (hdr + 4)) len = Inr data"
    using assms by (auto simp: raw_chunk_def Let_def simp del: region_eq_Inr split: if_splits)
  obtain n k1 where s: "sink data k = (n, k1)" by (cases "sink data k")
  have "n = len" "k' = k1" "ctx' = SHA_update E ctx data"
    using assms d s by (auto simp: raw_chunk_def Let_def simp del: region_eq_Inr split: if_splits)
  moreover have "len = int (length data)" using d(2) by auto
  ultimately show ?thesis using s sink_full[of data k k1] by (auto simp: emits_def)
qed

end

locale atomic_sink = output_sink +
  assumes sink_atomic: "sink d k = (n, k') \<Longrightarrow> n \<noteq> int (length d) \<Longrightarrow> content k' = content k"
begin

lemma bsdiff_emits_any:
  assumes "sha_stream E" "ApplyBSDiffPatch E sink mem base old_size patch off k ctx = Inr (rc, k', ctx')"
  shows "\<exists>out. emits E content out k ctx k' ctx'"
proof (cases "rc = 0")
  case True
  then show ?thesis using bsdiff_emits[of E mem base old_size patch off k ctx k' ctx'] assms(2) by auto
next
  case False
  obtain r where r: "ApplyBSDiffPatchMem E mem base old_size patch off = Inr r"
    using assms by (auto simp: ApplyBSDiffPatch_def)
  show ?thesis
  proof (cases r)
    case None
    then show ?thesis using r assms emits_Nil[OF assms(1), of content k ctx] by (auto simp: ApplyBSDiffPatch_def)
  next
    case (Some new)
    obtain n k1 where s: "sink new k = (n, k1)" by (cases "sink new k")
    then have "n < int (length new)" "k' = k1" "ctx' = ctx"
      using assms(2) r Some False by (auto simp: ApplyBSDiffPatch_def split: if_splits)
    then show ?thesis using sink_atomic[OF s] emits_same[OF assms(1), of content k1 k ctx] by auto
  qed
qed

lemma normal_chunk_emits:
  assumes "sha_stream E" "normal_chunk E sink old patch hdr k ctx = Inr (0, pos, k', ctx')"
  shows "\<exists>out. emits E content out k ctx k' ctx'"
proof -
  obtain b n off rc where "ApplyBSDiffPatch E sink old b n patch off k ctx = Inr (rc, k', ctx')"
    using assms(2) by (auto simp: normal_chunk_def Let_def split: if_splits)
  then show ?thesis using bsdiff_emits_any[OF assms(1)] by blast
qed

lemma image_chunks_emits:
  assumes "sha_stream E"
  shows "image_chunks E sink old patch num i pos k ctx = Inr (0, k', ctx') \<Longrightarrow> \<exists>out. emits E content out k ctx k' ctx'"
proof (induction "nat (num - i)" arbitrary: i pos k ctx)
  case 0
  then have "k = k'" "ctx = ctx'" by (auto simp: image_chunks.simps)
  then show ?case using emits_Nil[OF assms, of content k ctx] by blast
next
  case (Suc n)
  then have i: "i < num" by simp
  obtain type where t: "Read4 patch pos = Inr type"
    using Suc.prems i image_chunks.simps[of E sink old patch num i pos k ctx] by (auto split: if_splits)
  define p1 where "p1 = s32 (pos + 4)"
  define r where "r = (if type = CHUNK_NORMAL then normal_chunk E sink old patch p1 k ctx
      else if type = CHUNK_RAW then raw_chunk E sink patch p1 k ctx
      else if type = CHUNK_DEFLATE then deflate_chunk E sink old patch p1 k ctx else Inr (- 1, p1, k, ctx))"
  have "bindR r (\<lambda>(rc, pos, k, ctx). if rc \<noteq> 0 then Inr (- 1, k, ctx)
      else image_chunks E sink old patch num (i + 1) pos k ctx) = Inr (0, k', ctx')"
    using Suc.prems i t image_chunks.simps[of E sink old patch num i pos k ctx]
    unfolding r_def p1_def by (simp add: Let_def split: if_splits)
  then obtain p2 k1 ctx1 where r1: "r = Inr (0, p2, k1, ctx1)"
    and rest: "image_chunks E sink old patch num (i + 1) p2 k1 ctx1 = Inr (0, k', ctx')"
    by (cases r) (auto split: if_splits)
  have "\<exists>out. emits E content out k ctx k1 ctx1"
    using r1 normal_chunk_emits[OF assms] raw_chunk_emits deflate_chunk_emits[OF assms]
    unfolding r_def by (auto split: if_splits)
  then obtain a where a: "emits E content a k ctx k1 ctx1" by blast
  have "n = nat (num - (i + 1))" using Suc.hyps(2) by simp
  then obtain b where b: "emits E content b k1 ctx1 k' ctx'" using Suc.hyps(1)[OF _ rest] by blast
  show ?case using emits_append[OF assms a b] by blast
qed

lemma image_emits:
  assumes "sha_stream E" "ApplyImagePatch E sink old patch k ctx = Inr (0, k', ctx')"
  shows "\<exists>out. emits E content out k ctx k' ctx'"
  using assms(2) image_chunks_emits[OF assms(1)]
  by (auto simp: ApplyImagePatch_def split: if_splits)

end

section \<open>The two sinks\<close>

interpretation memory: atomic_sink MemorySink msi_content
proof
  fix d k n k'
  show "MemorySink d k = (n, k') \<Longrightarrow> n \<le> int (length d)"
    by (auto simp: MemorySink_def split: if_splits)
  show "MemorySink d k = (int (length d), k') \<Longrightarrow> msi_content k' = msi_content k @ d"
    by (auto simp: MemorySink_def msi_content_def store_def split: if_splits)
  show "MemorySink d k = (n, k') \<Longrightarrow> n \<noteq> int (length d) \<Longrightarrow> msi_content k' = msi_content k"
    by (auto simp: MemorySink_def split: if_splits)
qed

lemma FileSink_written:
  "FileSink wr d f = (n, f') \<Longrightarrow>
   0 \<le> n \<and> n \<le> int (length d) \<and> written_data f' = written_data f @ take (nat n) d"
proof (induction "length d" arbitrary: d f n f' rule: less_induct)
  case less
  show ?case
  proof (cases "d = []")
    case True
    then show ?thesis using less.prems FileSink.simps[of wr d f] by auto
  next
    case False
    obtain m f1 where w: "sys_write wr d f = (m, f1)" by (cases "sys_write wr d f")
    then have m: "m \<le> int (length d)" "written_data f1 = written_data f @ take (nat m) d"
      by (auto simp: sys_write_def Let_def)
    show ?thesis
    proof (cases "m \<le> 0")
      case True
      then show ?thesis using less.prems False w m FileSink.simps[of wr d f] by auto
    next
      case pos: False
      obtain j f2 where r: "FileSink wr (drop (nat m) d) f1 = (j, f2)" by (cases "FileSink wr (drop (nat m) d) f1")
      have "length (drop (nat m) d) < length d" using False pos by simp
      from less.hyps[OF this r] have "0 \<le> j \<and> j \<le> int (length d) - m
          \<and> written_data f2 = written_data f1 @ take (nat j) (drop (nat m) d)"
        using m(1) pos by auto
      moreover have "n = m + j" "f' = f2" using less.prems False w pos r FileSink.simps[of wr d f] by auto
      moreover have "take (nat m) d @ take (nat j) (drop (nat m) d) = take (nat (m + j)) d"
        if "0 \<le> j" using that pos by (simp add: nat_add_distrib take_add)
      ultimately show ?thesis using m pos by auto
    qed
  qed
qed

interpretation filesink: output_sink "FileSink wr" written_data for wr
proof
  fix d k n k'
  show "FileSink wr d k = (n, k') \<Longrightarrow> n \<le> int (length d)" using FileSink_written by blast
  show "FileSink wr d k = (int (length d), k') \<Longrightarrow> written_data k' = written_data k @ d"
    using FileSink_written[of wr d k "int (length d)" k'] by simp
qed

lemma FileSink_enough:
  assumes "wr (wcalls f) (length d) \<ge> int (length d)"
  shows "\<exists>f'. FileSink wr d f = (int (length d), f')"
proof -
  have "sys_write wr d f = (int (length d), f\<lparr>written_data := written_data f @ d, wcalls := wcalls f + 1\<rparr>)"
    using assms by (auto simp: sys_write_def Let_def)
  then show ?thesis by (subst FileSink.simps) (simp add: FileSink.simps[of wr "[]"])
qed

lemma FileSink_whole:
  assumes "whole_writes wr" "FileSink wr d f = (n, f')"
  shows "n = 0 \<or> n = int (length d)"
proof (cases "wr (wcalls f) (length d) \<ge> int (length d)")
  case True
  then show ?thesis using FileSink_enough[of d wr f] assms(2) by auto
next
  case False
  then have "wr (wcalls f) (length d) \<le> 0" using assms(1) by (auto simp: whole_writes_def)
  then have "fst (sys_write wr d f) \<le> 0" by (auto simp: sys_write_def Let_def)
  then show ?thesis using assms(2) FileSink.simps[of wr d f] by (auto split: if_splits prod.splits)
qed

lemma FileSink_full: "full_writes wr \<Longrightarrow> \<exists>f'. FileSink wr d f = (int (length d), f')"
  by (rule FileSink_enough) (simp add: full_writes_def)

lemma FileSink_atomic_sink: "whole_writes wr \<Longrightarrow> atomic_sink (FileSink wr) written_data"
proof
  fix d k n k'
  assume "whole_writes wr" "FileSink wr d k = (n, k')" "n \<noteq> int (length d)"
  then show "written_data k' = written_data k" using FileSink_whole[of wr d k n k'] FileSink_written[of wr d k n k'] by auto
qed

lemma length_enc [simp]: "length (enc4 v) = 4" "length (enc8 w) = 8"
  by (simp_all add: enc4_def enc8_def Write4_def Write8_def)

lemma Read_cong:
  "region a p 4 = region b q 4 \<Longrightarrow> Read4 a p = Read4 b q" "region a p 8 = region b q 8 \<Longrightarrow> Read8 a p = Read8 b q"
  by (simp_all add: Read4_def Read8_def)

lemma region_mid: "length x = n \<Longrightarrow> region (pre @ x @ post) (int (length pre)) (int n) = Inr x"
  by (simp add: region_def)

lemma Read4_mid: "Read4 (pre @ enc4 v @ post) (int (length pre)) = Inr (sint v)"
proof -
  have "Read4 (pre @ enc4 v @ post) (int (length pre)) = Read4 (enc4 v) 0"
    using region_mid[of "enc4 v" 4 pre post] region_mid[of "enc4 v" 4 "[]" "[]"] by (intro Read_cong(1)) (simp del: region_eq_Inr)
  then show ?thesis using Read4_Write4[of v "[]"] by (simp add: enc4_def)
qed

lemma Read8_mid: "Read8 (pre @ enc8 v @ post) (int (length pre)) = Inr (sint v)"
proof -
  have "Read8 (pre @ enc8 v @ post) (int (length pre)) = Read8 (enc8 v) 0"
    using region_mid[of "enc8 v" 8 pre post] region_mid[of "enc8 v" 8 "[]" "[]"] by (intro Read_cong(2)) (simp del: region_eq_Inr)
  then show ?thesis using Read8_Write8[of v "[]"] by (simp add: enc8_def)
qed

text \<open>Reading at a known distance: the prefix is given as the bytes before the field.\<close>

lemma Read4_at: "patch = pre @ enc4 v @ post \<Longrightarrow> p = int (length pre) \<Longrightarrow> Read4 patch p = Inr (sint v)"
  using Read4_mid by blast

lemma Read8_at: "patch = pre @ enc8 v @ post \<Longrightarrow> p = int (length pre) \<Longrightarrow> Read8 patch p = Inr (sint v)"
  using Read8_mid by blast

locale roomy_sink = output_sink +
  fixes room :: "'k \<Rightarrow> int"
  assumes sink_room: "int (length d) \<le> room k \<Longrightarrow> \<exists>k'. sink d k = (int (length d), k') \<and> room k' = room k - int (length d)"
begin

text \<open>A step writes \<open>out\<close>, and uses up that much room.\<close>

lemma sink_emits:
  "int (length out) \<le> room k \<Longrightarrow>
   \<exists>k'. sink out k = (int (length out), k') \<and> room k' = room k - int (length out)
      \<and> emits E content out k ctx k' (SHA_update E ctx out)"
  using sink_room[of out k] sink_full[of out k] by (auto simp: emits_def)

lemma bsdiff_writes:
  assumes "ApplyBSDiffPatchMem E mem base n patch off = Inr (Some out)" "int (length out) \<le> room k"
  shows "\<exists>k'. ApplyBSDiffPatch E sink mem base n patch off k ctx = Inr (0, k', SHA_update E ctx out)
    \<and> room k' = room k - int (length out) \<and> emits E content out k ctx k' (SHA_update E ctx out)"
  using assms sink_emits[of out k E ctx] by (auto simp: ApplyBSDiffPatch_def)

lemma deflate_writes:
  assumes "sha_stream E" "deflates E m z out" "int (length out) \<le> room k"
  shows "\<exists>k'. deflate_loop E sink m z k ctx = Some (0, k', SHA_update E ctx out)
    \<and> room k' = room k - int (length out) \<and> emits E content out k ctx k' (SHA_update E ctx out)"
  using assms(2,3)
proof (induction arbitrary: k ctx rule: deflates.induct)
  case (last z a z')
  then show ?case using sink_emits[of a k E ctx] by (auto simp: deflate_loop.simps)
next
  case (more z ret a z' b)
  obtain k1 where k1: "sink a k = (int (length a), k1)" "room k1 = room k - int (length a)"
    "emits E content a k ctx k1 (SHA_update E ctx a)"
    using sink_emits[of a k E ctx] more.prems by auto
  obtain k2 where k2: "deflate_loop E sink m z' k1 (SHA_update E ctx a) = Some (0, k2, SHA_update E (SHA_update E ctx a) b)"
    "room k2 = room k1 - int (length b)" "emits E content b k1 (SHA_update E ctx a) k2 (SHA_update E (SHA_update E ctx a) b)"
    using more.IH[of k1 "SHA_update E ctx a"] more.prems k1(2) by auto
  have u: "SHA_update E (SHA_update E ctx a) b = SHA_update E ctx (a @ b)" using assms(1) by (simp add: sha_stream_def)
  have "deflate_loop E sink m z k ctx = Some (0, k2, SHA_update E ctx (a @ b))"
    using more.hyps k1(1) k2(1) u by (subst deflate_loop.simps) simp
  moreover have "emits E content (a @ b) k ctx k2 (SHA_update E ctx (a @ b))"
    using emits_append[OF assms(1) k1(3) k2(3)] u by simp
  ultimately show ?case using k1(2) k2(2) by auto
qed

lemma chunk_writes:
  assumes "sha_stream E" "patch = pre @ chunk_record c @ post" "length patch < 2 ^ 31 - 64"
    and "chunk_output E old patch c out" "int (length out) \<le> room k" "i < num"
  shows "\<exists>k'. image_chunks E sink old patch num i (int (length pre)) k ctx =
      image_chunks E sink old patch num (i + 1) (int (length pre) + int (length (chunk_record c))) k' (SHA_update E ctx out)
    \<and> room k' = room k - int (length out) \<and> emits E content out k ctx k' (SHA_update E ctx out)"
proof (cases c)
  case (Normal ss sl po)
  let ?p = "int (length pre)"
  have len: "?p + 28 + int (length post) = int (length patch)" using assms(2) Normal by simp
  have s: "s32 (?p + 4) = ?p + 4" "s32 (?p + 28) = ?p + 28"
    using assms(3) len by (auto simp: s32_id)
  have t: "Read4 patch ?p = Inr 0"
    using Read4_at[of patch pre 0] assms(2) Normal by simp
  have h: "Read8 patch (?p + 4) = Inr (sint ss)" "Read8 patch (?p + 12) = Inr (sint sl)" "Read8 patch (?p + 20) = Inr (sint po)"
    using Read8_at[of patch "pre @ enc4 0" ss] Read8_at[of patch "pre @ enc4 0 @ enc8 ss" sl]
      Read8_at[of patch "pre @ enc4 0 @ enc8 ss @ enc8 sl" po] assms(2) Normal by auto
  obtain k' where k: "ApplyBSDiffPatch E sink old (size_t (sint ss)) (s32 (sint sl)) patch (s32 (sint po)) k ctx = Inr (0, k', SHA_update E ctx out)"
    "room k' = room k - int (length out)" "emits E content out k ctx k' (SHA_update E ctx out)"
    using bsdiff_writes[of E old "size_t (sint ss)" "s32 (sint sl)" patch "s32 (sint po)" out k ctx] assms(4,5) Normal by auto
  have "normal_chunk E sink old patch (?p + 4) k ctx = Inr (0, ?p + 28, k', SHA_update E ctx out)"
    using h k(1) s len by (simp add: normal_chunk_def Let_def add.commute add.left_commute)
  then show ?thesis
    using k assms(6) t s len Normal
    by (intro exI[of _ k'], subst image_chunks.simps) (simp add: CHUNK_NORMAL_def Let_def)
next
  case (Raw data)
  let ?p = "int (length pre)"
  have len: "?p + 8 + int (length data) + int (length post) = int (length patch)" using assms(2) Raw by simp
  have s: "s32 (?p + 4) = ?p + 4" "s32 (?p + 8) = ?p + 8" "s32 (?p + 8 + int (length data)) = ?p + 8 + int (length data)"
    using assms(3) len by (auto simp: s32_id)
  have t: "Read4 patch ?p = Inr 3" using Read4_at[of patch pre 3] assms(2) Raw by simp
  have "sint (of_nat (length data) :: u32) = int (length data)"
    using assms(3) len by (intro sint_small) simp
  then have h: "Read4 patch (?p + 4) = Inr (int (length data))"
    using Read4_at[of patch "pre @ enc4 3" "of_nat (length data)" "data @ post"] assms(2) Raw by simp
  have d: "region patch (?p + 8) (int (length data)) = Inr data"
    using region_mid[of data "length data" "pre @ enc4 3 @ enc4 (of_nat (length data))" post] assms(2) Raw by simp
  obtain k' where k: "sink data k = (int (length data), k')" "room k' = room k - int (length data)"
    "emits E content data k ctx k' (SHA_update E ctx data)"
    using sink_emits[of data k E ctx] assms(4,5) Raw by auto
  have "raw_chunk E sink patch (?p + 4) k ctx = Inr (0, ?p + 8 + int (length data), k', SHA_update E ctx data)"
    using h d k(1) s len by (simp add: raw_chunk_def Let_def add.commute add.left_commute del: region_eq_Inr)
  then show ?thesis
    using k assms(4,6) t s len Raw
    by (intro exI[of _ k'], subst image_chunks.simps) (simp add: CHUNK_NORMAL_def CHUNK_RAW_def Let_def add.assoc)
next
  case (Deflate ss sl po el tl lv me wb ml st)
  let ?p = "int (length pre)"
  have len: "?p + 64 + int (length post) = int (length patch)" using assms(2) Deflate by simp
  have s: "s32 (?p + 4) = ?p + 4" "s32 (?p + 64) = ?p + 64"
    using assms(3) len by (auto simp: s32_id)
  have t: "Read4 patch ?p = Inr 2" using Read4_at[of patch pre 2] assms(2) Deflate by simp
  have h8: "Read8 patch (?p + 4) = Inr (sint ss)" "Read8 patch (?p + 12) = Inr (sint sl)"
    "Read8 patch (?p + 20) = Inr (sint po)" "Read8 patch (?p + 28) = Inr (sint el)"
    using Read8_at[of patch "pre @ enc4 2" ss] Read8_at[of patch "pre @ enc4 2 @ enc8 ss" sl]
      Read8_at[of patch "pre @ enc4 2 @ enc8 ss @ enc8 sl" po]
      Read8_at[of patch "pre @ enc4 2 @ enc8 ss @ enc8 sl @ enc8 po" el] assms(2) Deflate by auto
  define q where "q = pre @ enc4 2 @ enc8 ss @ enc8 sl @ enc8 po @ enc8 el @ enc8 tl"
  have q: "int (length q) = ?p + 44" "patch = q @ enc4 lv @ enc4 me @ enc4 wb @ enc4 ml @ enc4 st @ post"
    using assms(2) Deflate by (simp_all add: q_def)
  have h4: "Read4 patch (?p + 44) = Inr (sint lv)" "Read4 patch (?p + 48) = Inr (sint me)"
    "Read4 patch (?p + 52) = Inr (sint wb)" "Read4 patch (?p + 56) = Inr (sint ml)" "Read4 patch (?p + 60) = Inr (sint st)"
    using Read4_at[of patch q lv "enc4 me @ enc4 wb @ enc4 ml @ enc4 st @ post" "?p + 44"]
      Read4_at[of patch "q @ enc4 lv" me "enc4 wb @ enc4 ml @ enc4 st @ post" "?p + 48"]
      Read4_at[of patch "q @ enc4 lv @ enc4 me" wb "enc4 ml @ enc4 st @ post" "?p + 52"]
      Read4_at[of patch "q @ enc4 lv @ enc4 me @ enc4 wb" ml "enc4 st @ post" "?p + 56"]
      Read4_at[of patch "q @ enc4 lv @ enc4 me @ enc4 wb @ enc4 ml" st post "?p + 60"] q
    by simp_all
  obtain input source data where c: "malloc_ok E (size_t (sint el))" "malloc_ok E 32768" "inflateInit2 E = Z_OK"
    "region old (size_t (sint ss)) (size_t (sint sl)) = Inr input"
    "inflate E input (nat (size_t (sint el))) = (Z_STREAM_END, source)" "int (length source) = size_t (sint el)"
    "ApplyBSDiffPatchMem E source 0 (s32 (sint el)) patch (s32 (sint po)) = Inr (Some data)"
    "deflates E (nat (if s32 (size_t (sint el)) < 32768 then 32768 else s32 (size_t (sint el))))
       (deflateInit2 E (sint lv) (sint me) (sint wb) (sint ml) (sint st) data) out"
    using assms(4) Deflate by (auto simp del: region_eq_Inr)
  obtain k' where k: "deflate_loop E sink (nat (if s32 (size_t (sint el)) < 32768 then 32768 else s32 (size_t (sint el))))
       (deflateInit2 E (sint lv) (sint me) (sint wb) (sint ml) (sint st) data) k ctx = Some (0, k', SHA_update E ctx out)"
    "room k' = room k - int (length out)" "emits E content out k ctx k' (SHA_update E ctx out)"
    using deflate_writes[OF assms(1) c(8) assms(5), of ctx] by blast
  have "recompress E sink patch (?p + 4) (size_t (sint el)) data k ctx = Inr (0, k', SHA_update E ctx out)"
    using h4 c(2) k(1) by (simp add: recompress_def add.assoc)
  then have "deflate_chunk E sink old patch (?p + 4) k ctx = Inr (0, ?p + 64, k', SHA_update E ctx out)"
    using h8 c s len by (simp add: deflate_chunk_def Let_def add.assoc del: region_eq_Inr)
  then show ?thesis
    using k assms(6) t s len Deflate
    by (intro exI[of _ k'], subst image_chunks.simps) (simp add: CHUNK_NORMAL_def CHUNK_RAW_def CHUNK_DEFLATE_def Let_def)
qed

lemma chunks_write:
  assumes "sha_stream E" "patch = pre @ List.concat (map chunk_record cs) @ post" "length patch < 2 ^ 31 - 64"
    and "list_all2 (chunk_output E old patch) cs outs" "int (length (List.concat outs)) \<le> room k"
  shows "\<exists>k'. image_chunks E sink old patch (i + int (length cs)) i (int (length pre)) k ctx = Inr (0, k', SHA_update E ctx (List.concat outs))
    \<and> emits E content (List.concat outs) k ctx k' (SHA_update E ctx (List.concat outs))"
  using assms(2,4,5)
proof (induction cs arbitrary: outs pre i k ctx)
  case Nil
  then show ?case using emits_Nil[OF assms(1), of content k ctx] assms(1)
    by (auto simp: image_chunks.simps sha_stream_def)
next
  case (Cons c cs)
  obtain out outs' where o: "outs = out # outs'" "chunk_output E old patch c out"
    "list_all2 (chunk_output E old patch) cs outs'"
    using Cons.prems(2) by (auto simp: list_all2_Cons1)
  obtain k1 where k1: "image_chunks E sink old patch (i + int (length (c # cs))) i (int (length pre)) k ctx =
      image_chunks E sink old patch (i + int (length (c # cs))) (i + 1)
        (int (length pre) + int (length (chunk_record c))) k1 (SHA_update E ctx out)"
    "room k1 = room k - int (length out)" "emits E content out k ctx k1 (SHA_update E ctx out)"
    using chunk_writes[OF assms(1), of patch pre c "List.concat (map chunk_record cs) @ post" old out k i
        "i + int (length (c # cs))" ctx] Cons.prems o assms(3) by auto
  have p: "patch = (pre @ chunk_record c) @ List.concat (map chunk_record cs) @ post" using Cons.prems by simp
  have r: "int (length (List.concat outs')) \<le> room k1" using Cons.prems o k1(2) by simp
  obtain k2 where k2: "image_chunks E sink old patch (i + 1 + int (length cs)) (i + 1) (int (length (pre @ chunk_record c))) k1
        (SHA_update E ctx out) = Inr (0, k2, SHA_update E (SHA_update E ctx out) (List.concat outs'))"
    "emits E content (List.concat outs') k1 (SHA_update E ctx out) k2 (SHA_update E (SHA_update E ctx out) (List.concat outs'))"
    using Cons.IH[OF p o(3) r, of "i + 1" "SHA_update E ctx out"] by auto
  have u: "SHA_update E (SHA_update E ctx out) (List.concat outs') = SHA_update E ctx (List.concat outs)"
    using assms(1) o(1) by (simp add: sha_stream_def)
  have "i + int (length (c # cs)) = i + 1 + int (length cs)" by simp
  then have "image_chunks E sink old patch (i + int (length (c # cs))) i (int (length pre)) k ctx =
      Inr (0, k2, SHA_update E ctx (List.concat outs))"
    using k1(1) k2(1) u by (simp only: length_append of_nat_add)
  then show ?case using emits_append[OF assms(1) k1(3) k2(2)] u o(1) by auto
qed

lemma image_writes:
  assumes "sha_stream E" "length (img_patch cs tail) < 2 ^ 31 - 64" "length cs < 2 ^ 31"
    and "list_all2 (chunk_output E old (img_patch cs tail)) cs outs" "int (length (List.concat outs)) \<le> room k"
  shows "\<exists>k'. ApplyImagePatch E sink old (img_patch cs tail) k ctx = Inr (0, k', SHA_update E ctx (List.concat outs))
    \<and> emits E content (List.concat outs) k ctx k' (SHA_update E ctx (List.concat outs))"
proof -
  define pre where "pre = IMGDIFF2 @ enc4 (of_nat (length cs))"
  have pre: "length pre = 12" by (simp add: pre_def IMGDIFF2_def)
  have p: "img_patch cs tail = pre @ List.concat (map chunk_record cs) @ tail" by (simp add: img_patch_def pre_def)
  have "sint (of_nat (length cs) :: u32) = int (length cs)"
    using assms(3) by (rule sint_small)
  then have r: "Read4 (img_patch cs tail) 8 = Inr (int (length cs))"
    using Read4_at[of "img_patch cs tail" IMGDIFF2 "of_nat (length cs)" "List.concat (map chunk_record cs) @ tail" 8]
    by (simp add: img_patch_def IMGDIFF2_def)
  have m: "take 8 (img_patch cs tail) = IMGDIFF2" by (simp add: img_patch_def IMGDIFF2_def)
  have "length IMGDIFF2 = 8" by (simp add: IMGDIFF2_def)
  then have z: "memcmp IMGDIFF2 IMGDIFF2 8 = 0" using memcmp_zero[of IMGDIFF2 IMGDIFF2] by simp
  have l: "\<not> length (img_patch cs tail) < 12" using p pre by simp
  show ?thesis
    using chunks_write[OF assms(1) p assms(2,4,5), of 0 ctx] r m l pre z
    by (simp add: ApplyImagePatch_def)
qed

end

interpretation memory: roomy_sink MemorySink msi_content "\<lambda>msi. int (length (mbuffer msi)) - int (mpos msi)"
  by unfold_locales (auto simp: MemorySink_def)

lemma FileSink_roomy_sink:
  "full_writes wr \<Longrightarrow> roomy_sink (FileSink wr) written_data (\<lambda>f. m - int (length (written_data f)))"
proof
  fix d k
  assume "full_writes wr"
  then obtain k' where "FileSink wr d k = (int (length d), k')" using FileSink_full by blast
  moreover from this have "written_data k' = written_data k @ d" by (rule filesink.sink_full)
  ultimately show "\<exists>k'. FileSink wr d k = (int (length d), k') \<and>
      m - int (length (written_data k')) = m - int (length (written_data k)) - int (length d)" by auto
qed

section \<open>Image patches into memory\<close>

text \<open>
  C10: an image patch given as a list of chunks with their data, applied with enough room in the output
  buffer, produces exactly the concatenation of what the chunks stand for (the patched source region,
  the raw data, the recompressed patched data) and hashes the same bytes.
\<close>

theorem ApplyImagePatch_correct:
  assumes "sha_stream E" "length (img_patch cs tail) < 2 ^ 31 - 64" "length cs < 2 ^ 31"
    and "list_all2 (chunk_output E old (img_patch cs tail)) cs outs"
    and "length (List.concat outs) \<le> length buf"
  shows "\<exists>msi. ApplyImagePatch E MemorySink old (img_patch cs tail) \<lparr>mbuffer = buf, mpos = 0\<rparr> ctx
      = Inr (0, msi, SHA_update E ctx (List.concat outs))
    \<and> msi_content msi = List.concat outs"
  using memory.image_writes[OF assms(1-4), of "\<lparr>mbuffer = buf, mpos = 0\<rparr>" ctx] assms(5)
  by (auto simp: emits_def msi_content_def)

text \<open>
  C36: whatever the patch, when an image patch is reported as applied into memory, the bytes that were
  hashed are the bytes in the buffer, even though failures of single chunks are not looked at.
\<close>

theorem ApplyImagePatch_hash:
  assumes "sha_stream E" "ApplyImagePatch E MemorySink old patch msi ctx = Inr (0, msi', ctx')"
  shows "\<exists>out. msi_content msi' = msi_content msi @ out \<and> ctx' = SHA_update E ctx out"
  using memory.image_emits[OF assms] by (simp add: emits_def)

lemma img_env0_decodes: "bz_decodes img_env0 (=)"
  using store_env_decodes by (simp add: bz_decodes_def img_env0_def)

lemma img_env0_sha: "sha_stream img_env0"
  by (simp add: sha_stream_def img_env0_def)

lemma length_enc_ctrl [simp]: "length (enc_ctrl [(x, y, z)]) = 24"
  by (simp add: enc_ctrl_def offtout_def Let_def)

theorem ApplyImagePatch_correct_witness:
  "\<exists>msi. ApplyImagePatch img_env0 MemorySink [9, 1, 2, 9] (img_patch [Normal 1 2 50, Raw [7, 8]] tail0)
      \<lparr>mbuffer = [0, 0, 0, 0, 0, 0], mpos = 0\<rparr> [] = Inr (0, msi, [1, 7, 4, 7, 8])
    \<and> msi_content msi = [1, 7, 4, 7, 8]"
proof -
  let ?cs = "[Normal 1 2 50, Raw [7, 8]]"
  have l: "length (offtout x) = 8" for x by (simp add: offtout_def Let_def)
  have len: "length (img_patch ?cs tail0) = 109"
    by (simp add: img_patch_def IMGDIFF2_def tail0_def BSDIFF40_def l)
  define pre where "pre = IMGDIFF2 @ enc4 2 @ chunk_record (Normal 1 2 50) @ chunk_record (Raw [7, 8])"
  have p: "img_patch ?cs tail0 = pre @ BSDIFF40 @ offtout (int (length (enc_ctrl [(2, 1, 0)]))) @ offtout (int (length [0::u8, 5]))
      @ offtout 3 @ enc_ctrl [(2, 1, 0)] @ [0, 5] @ [4]" "int (length pre) = 50"
    by (simp_all add: img_patch_def pre_def tail0_def IMGDIFF2_def)
  have b: "ApplyBSDiffPatchMem img_env0 [9, 1, 2, 9] 1 2 (img_patch ?cs tail0) 50 = Inr (Some (bs_apply [1, 2] 0 [(2, 1, 0)] [0, 5] [4]))"
    by (rule ApplyBSDiffPatchMem_spec[OF img_env0_decodes _ _ _ _ p])
      (simp_all add: img_env0_def store_env_def ctrl_ok_def)
  have o: "bs_apply [1, 2] 0 [(2, 1, 0)] [0, 5] [4] = [1, 7, 4 :: u8]"
    by (simp add: old_byte_def s32_id upt_rec)
  have "list_all2 (chunk_output img_env0 [9, 1, 2, 9] (img_patch ?cs tail0)) ?cs [[1, 7, 4], [7, 8]]"
    using b o by (simp add: size_t_def s32_id)
  from ApplyImagePatch_correct[OF img_env0_sha _ _ this, of "[0, 0, 0, 0, 0, 0]" "[]"]
  show ?thesis using len by (simp add: img_env0_def)
qed

theorem ApplyImagePatch_hash_witness:
  "\<exists>msi ctx out. ApplyImagePatch img_env0 MemorySink [] (img_patch [Raw [7, 8]] []) \<lparr>mbuffer = [0, 0], mpos = 0\<rparr> []
      = Inr (0, msi, ctx) \<and> msi_content msi = out \<and> ctx = out"
proof -
  have "length (img_patch [Raw [7, 8]] []) = 22" by (simp add: img_patch_def IMGDIFF2_def)
  then obtain msi where m: "ApplyImagePatch img_env0 MemorySink [] (img_patch [Raw [7, 8]] []) \<lparr>mbuffer = [0, 0], mpos = 0\<rparr> []
      = Inr (0, msi, [7, 8])"
    using memory.image_writes[OF img_env0_sha, of "[Raw [7, 8]]" "[]" "[]" "[[7, 8]]" "\<lparr>mbuffer = [0, 0], mpos = 0\<rparr>" "[]"]
    by (auto simp: img_env0_def)
  from ApplyImagePatch_hash[OF img_env0_sha this] show ?thesis
    using m by (auto simp: msi_content_def img_env0_def)
qed

text \<open>
  The loop around \<open>deflate\<close> never ends when the compressor makes no progress, as it does after a failed
  \<open>deflateInit2\<close>, whose result is not looked at.
\<close>

lemma deflate_loop_hangs:
  assumes "deflate E z m = (ret, [], z)" "ret \<noteq> Z_STREAM_END" "sink [] k = (0, k)" "SHA_update E ctx [] = ctx"
  shows "deflate_loop E sink m z k ctx = None"
proof (rule ccontr)
  assume "deflate_loop E sink m z k ctx \<noteq> None"
  then obtain y where "deflate_loop E sink m z k ctx = Some y" by blast
  then have "deflate E z m = (ret, [], z) \<Longrightarrow> sink [] k = (0, k) \<Longrightarrow> SHA_update E ctx [] = ctx \<Longrightarrow> False"
  proof (induction E sink m z k ctx y rule: deflate_loop.raw_induct[rotated 1, consumes 1, case_names step])
    case (step loop E s m z k ctx y)
    have "loop E s m z k ctx = Some y" using step.hyps step.prems assms(2) by simp
    then show ?case using step.IH step.prems by blast
  qed
  then show False using assms by blast
qed

end
