(* ===== verification/Free_Cache.thy ===== *)
theory Free_Cache
  imports Img_Patch Mtd C_Library
begin

text \<open>
  The file system as the patching tool sees it, and the freeing of space on the cache partition
  (\<open>applypatch/freecache.c\<close>, and \<open>FreeSpaceForFile\<close> and \<open>CacheSizeCheck\<close> of \<open>applypatch/applypatch.c\<close>).
  A world holds the files and the partitions; the environment decides which system calls fail.
\<close>

section \<open>Files and system calls\<close>

record file_st =
  fdata :: bytes
  fmode :: int
  fuid :: int
  fgid :: int
  regular :: bool

record world =
  files :: "string \<Rightarrow> file_st option"
  calls :: nat
  mtd_state :: MtdState
  mtd_partitions_scanned :: bool
  flash_of :: "int \<Rightarrow> flash"

text \<open>
  The environment, indexed by the number of calls so far: whether a call succeeds, what \<open>write\<close> and
  \<open>fread\<close> return for a number of bytes, \<open>f_bsize\<close> and \<open>f_bfree\<close>, the names in a directory, the target
  of a symbolic link, and the mode that \<open>open\<close> finds where its third argument would be.
\<close>

record ('z, 'y, 'c) osenv = "('z, 'y, 'c) imgenv" +
  sys_ok :: "nat \<Rightarrow> bool"
  wr_count :: "nat \<Rightarrow> nat \<Rightarrow> int"
  rd_count :: "nat \<Rightarrow> nat \<Rightarrow> nat"
  statfs :: "nat \<Rightarrow> string \<Rightarrow> (u32 \<times> u32) option"
  dir_of :: "nat \<Rightarrow> string \<Rightarrow> string list option"
  link_of :: "nat \<Rightarrow> string \<Rightarrow> string option"
  new_mode :: "nat \<Rightarrow> int"
  proc_mtd :: "string option"

definition step :: "world \<Rightarrow> world" where
  "step w = w\<lparr>calls := calls w + 1\<rparr>"

definition sys_stat :: "('z, 'y, 'c, 'm) osenv_scheme \<Rightarrow> string \<Rightarrow> world \<Rightarrow> file_st option \<times> world" where
  "sys_stat E path w = (if sys_ok E (calls w) then files w path else None, step w)"

definition sys_unlink :: "('z, 'y, 'c, 'm) osenv_scheme \<Rightarrow> string \<Rightarrow> world \<Rightarrow> world" where
  "sys_unlink E path w = (if sys_ok E (calls w) then (step w)\<lparr>files := (files w)(path := None)\<rparr> else step w)"

section \<open>Free space\<close>

definition CACHE_TEMP_SOURCE :: string where
  "CACHE_TEMP_SOURCE = ''/cache/saved.file''"

text \<open>The result \<open>-1\<close> is the largest \<open>size_t\<close>; the product wraps.\<close>

definition FreeSpaceForFile :: "('z, 'y, 'c, 'm) osenv_scheme \<Rightarrow> string \<Rightarrow> world \<Rightarrow> u32 \<times> world" where
  "FreeSpaceForFile E filename w =
     (case statfs E (calls w) filename of
        None \<Rightarrow> (- 1, step w)
      | Some (bsize, bfree) \<Rightarrow> (bsize * bfree, step w))"

section \<open>Files that can be deleted\<close>

text \<open>One link of a process: a matching name becomes \<open>NULL\<close>.\<close>

definition drop_open :: "string \<Rightarrow> string option list \<Rightarrow> string option list" where
  "drop_open link fs =
     (if take 7 link = ''/cache/''
      then map (\<lambda>f. if f = Some link then None else f) fs else fs)"

fun eliminate_fds ::
  "('z, 'y, 'c, 'm) osenv_scheme \<Rightarrow> string \<Rightarrow> string list \<Rightarrow> string option list \<Rightarrow> world \<Rightarrow> string option list \<times> world" where
  "eliminate_fds E path [] fs w = (fs, w)"
| "eliminate_fds E path (d # ds) fs w =
     (let fs = (case link_of E (calls w) (path @ d) of None \<Rightarrow> fs | Some link \<Rightarrow> drop_open link fs) in
      eliminate_fds E path ds fs (step w))"

fun eliminate_procs ::
  "('z, 'y, 'c, 'm) osenv_scheme \<Rightarrow> string list \<Rightarrow> string option list \<Rightarrow> world \<Rightarrow> string option list \<times> world" where
  "eliminate_procs E [] fs w = (fs, w)"
| "eliminate_procs E (d # ds) fs w =
     (if \<not> list_all (is_digit 10) d then eliminate_procs E ds fs w
      else let path = ''/proc/'' @ d @ ''/fd/'' in
        case dir_of E (calls w) path of
          None \<Rightarrow> eliminate_procs E ds fs (step w)
        | Some fds \<Rightarrow>
            (case eliminate_fds E path fds fs (step w) of (fs, w) \<Rightarrow> eliminate_procs E ds fs w))"

text \<open>\<open>None\<close> is the result \<open>-1\<close>.\<close>

definition EliminateOpenFiles ::
  "('z, 'y, 'c, 'm) osenv_scheme \<Rightarrow> string option list \<Rightarrow> world \<Rightarrow> string option list option \<times> world" where
  "EliminateOpenFiles E fs w =
     (case dir_of E (calls w) ''/proc'' of
        None \<Rightarrow> (None, step w)
      | Some procs \<Rightarrow> (case eliminate_procs E procs fs (step w) of (fs, w) \<Rightarrow> (Some fs, w)))"

fun expendable_in ::
  "('z, 'y, 'c, 'm) osenv_scheme \<Rightarrow> string \<Rightarrow> string list \<Rightarrow> world \<Rightarrow> string list \<times> world" where
  "expendable_in E dir [] w = ([], w)"
| "expendable_in E dir (n # ns) w =
     (let path = dir @ ''/'' @ n in
      if strcmp path CACHE_TEMP_SOURCE = 0 then expendable_in E dir ns w
      else case sys_stat E path w of (st, w) \<Rightarrow>
        (case expendable_in E dir ns w of (names, w) \<Rightarrow>
           (case st of
              Some f \<Rightarrow> (if regular f then path # names else names, w)
            | None \<Rightarrow> (names, w))))"

fun expendable_dirs ::
  "('z, 'y, 'c, 'm) osenv_scheme \<Rightarrow> string list \<Rightarrow> world \<Rightarrow> string list \<times> world" where
  "expendable_dirs E [] w = ([], w)"
| "expendable_dirs E (d # ds) w =
     (case dir_of E (calls w) d of
        None \<Rightarrow> expendable_dirs E ds (step w)
      | Some ns \<Rightarrow>
          (case expendable_in E d ns (step w) of (names, w) \<Rightarrow>
             case expendable_dirs E ds w of (names', w) \<Rightarrow> (names @ names', w)))"

definition FindExpendableFiles ::
  "('z, 'y, 'c, 'm) osenv_scheme \<Rightarrow> world \<Rightarrow> string option list option \<times> world" where
  "FindExpendableFiles E w =
     (case expendable_dirs E [''/cache'', ''/cache/recovery/otatest''] w of (names, w) \<Rightarrow>
        EliminateOpenFiles E (map Some names) w)"

section \<open>Making space\<close>

fun delete_files ::
  "('z, 'y, 'c, 'm) osenv_scheme \<Rightarrow> u32 \<Rightarrow> string option list \<Rightarrow> u32 \<Rightarrow> world \<Rightarrow> u32 \<times> world" where
  "delete_files E bytes_needed [] free_now w = (free_now, w)"
| "delete_files E bytes_needed (n # ns) free_now w =
     (if free_now < bytes_needed then
        (case n of
           None \<Rightarrow> delete_files E bytes_needed ns free_now w
         | Some name \<Rightarrow>
             (case FreeSpaceForFile E ''/cache'' (sys_unlink E name w) of (free_now, w) \<Rightarrow>
                delete_files E bytes_needed ns free_now w))
      else (free_now, w))"

definition MakeFreeSpaceOnCache ::
  "('z, 'y, 'c, 'm) osenv_scheme \<Rightarrow> u32 \<Rightarrow> world \<Rightarrow> int \<times> world" where
  "MakeFreeSpaceOnCache E bytes_needed w =
     (case FreeSpaceForFile E ''/cache'' w of (free_now, w) \<Rightarrow>
        if free_now \<ge> bytes_needed then (0, w)
        else case FindExpendableFiles E w of (r, w) \<Rightarrow>
          (case r of
             None \<Rightarrow> (- 1, w)
           | Some names \<Rightarrow>
               if names = [] then (- 1, w)
               else case delete_files E bytes_needed names free_now w of (free_now, w) \<Rightarrow>
                 (if free_now \<ge> bytes_needed then 0 else - 1, w)))"

definition CacheSizeCheck :: "('z, 'y, 'c, 'm) osenv_scheme \<Rightarrow> u32 \<Rightarrow> world \<Rightarrow> int \<times> world" where
  "CacheSizeCheck E bytes w =
     (case MakeFreeSpaceOnCache E bytes w of (r, w) \<Rightarrow> (if r < 0 then 1 else 0, w))"

section \<open>Notions used in the statements\<close>

text \<open>
  An environment in which directories and links do not change over time, and the files that some
  process has open there.
\<close>

definition steady :: "('z, 'y, 'c, 'm) osenv_scheme \<Rightarrow> bool" where
  "steady E \<longleftrightarrow> (\<forall>n. dir_of E n = dir_of E 0 \<and> link_of E n = link_of E 0)"

definition is_open :: "('z, 'y, 'c, 'm) osenv_scheme \<Rightarrow> string \<Rightarrow> bool" where
  "is_open E p \<longleftrightarrow>
     (\<exists>procs d fds l. dir_of E 0 ''/proc'' = Some procs \<and> d \<in> set procs \<and> list_all (is_digit 10) d
        \<and> dir_of E 0 (''/proc/'' @ d @ ''/fd/'') = Some fds \<and> l \<in> set fds
        \<and> link_of E 0 (''/proc/'' @ d @ ''/fd/'' @ l) = Some p)"

text \<open>Files in one of the two directories that may be emptied.\<close>

definition expendable :: "(string \<Rightarrow> file_st option) \<Rightarrow> string \<Rightarrow> bool" where
  "expendable fs p \<longleftrightarrow>
     p \<noteq> CACHE_TEMP_SOURCE \<and> (\<exists>f. fs p = Some f \<and> regular f)
     \<and> (\<exists>n. p = ''/cache/'' @ n \<or> p = ''/cache/recovery/otatest/'' @ n)"

text \<open>Elimination only turns entries into \<open>NULL\<close>, and does so for every link it sees.\<close>

definition thinner :: "string option list \<Rightarrow> string option list \<Rightarrow> bool" where
  "thinner a b \<longleftrightarrow> length a = length b \<and> (\<forall>i < length b. a ! i = b ! i \<or> a ! i = None)"

text \<open>The free space on the cache partition that the call with number \<open>n\<close> would report.\<close>

definition measured :: "('z, 'y, 'c, 'm) osenv_scheme \<Rightarrow> nat \<Rightarrow> u32" where
  "measured E n = (case statfs E n ''/cache'' of None \<Rightarrow> - 1 | Some (bsize, bfree) \<Rightarrow> bsize * bfree)"

text \<open>An environment for concrete runs, with a full cache partition until a file is deleted.\<close>

definition os_env0 :: "(bytes, bytes, bytes) osenv" where
  "os_env0 = imgenv.extend img_env0
     \<lparr>sys_ok = (\<lambda>_. True), wr_count = (\<lambda>_ n. int n), rd_count = (\<lambda>_ n. n),
      statfs = (\<lambda>n _. Some (if n < 8 then 0 else 1024, 1024)),
      dir_of = (\<lambda>_ d. if d = ''/cache'' then Some [''saved.file'', ''log'', ''busy'']
                       else if d = ''/proc'' then Some [''1'', ''self'']
                       else if d = ''/proc/1/fd/'' then Some [''3''] else None),
      link_of = (\<lambda>_ l. if l = ''/proc/1/fd/3'' then Some ''/cache/busy'' else None),
      new_mode = (\<lambda>_. 0), proc_mtd = None\<rparr>"

definition world0 :: world where
  "world0 =
     \<lparr>files = (\<lambda>p. if p \<in> {''/cache/saved.file'', ''/cache/log'', ''/cache/busy''}
                    then Some \<lparr>fdata = [1], fmode = 0, fuid = 0, fgid = 0, regular = True\<rparr> else None),
      calls = 0, mtd_state = g_mtd_state, mtd_partitions_scanned = False,
      flash_of = (\<lambda>_. \<lparr>cells = [], fpos = 0, clk = 0, sys = (\<lambda>_. True), prog = (\<lambda>_ _ b. b),
                        badb = (\<lambda>_. 0), nosupp = False, eccf = (\<lambda>_. 0)\<rparr>)\<rparr>"

lemma files_step [simp]: "files (step w) = files w"
  by (simp add: step_def)

lemma files_stat [simp]: "files (snd (sys_stat E p w)) = files w"
  by (simp add: sys_stat_def)

lemma files_free [simp]: "files (snd (FreeSpaceForFile E p w)) = files w"
  by (simp add: FreeSpaceForFile_def split: option.split)

lemma expendable_in_spec:
  "expendable_in E dir ns w = (names, w') \<Longrightarrow>
   files w' = files w
   \<and> (\<forall>p \<in> set names. p \<noteq> CACHE_TEMP_SOURCE \<and> (\<exists>n. p = dir @ ''/'' @ n) \<and> (\<exists>f. files w p = Some f \<and> regular f))"
proof (induction ns arbitrary: w names w')
  case (Cons n ns)
  define path where "path = dir @ ''/'' @ n"
  show ?case
  proof (cases "path = CACHE_TEMP_SOURCE")
    case True
    then show ?thesis using Cons by (simp add: path_def)
  next
    case False
    obtain st w1 where s: "sys_stat E path w = (st, w1)" by (cases "sys_stat E path w")
    obtain names1 w2 where r: "expendable_in E dir ns w1 = (names1, w2)" by (cases "expendable_in E dir ns w1")
    have f: "files w1 = files w" "st = None \<or> st = files w path" using s by (auto simp: sys_stat_def)
    have e: "w' = w2" "names = names1 \<or> (\<exists>x. st = Some x \<and> regular x \<and> names = path # names1)"
      using Cons.prems False s r by (auto simp: path_def split: option.splits if_splits)
    show ?thesis using Cons.IH[OF r] f e False by (auto simp: path_def)
  qed
qed simp

lemma expendable_dirs_spec:
  "expendable_dirs E ds w = (names, w') \<Longrightarrow>
   files w' = files w
   \<and> (\<forall>p \<in> set names. p \<noteq> CACHE_TEMP_SOURCE \<and> (\<exists>d \<in> set ds. \<exists>n. p = d @ ''/'' @ n) \<and> (\<exists>f. files w p = Some f \<and> regular f))"
proof (induction ds arbitrary: w names w')
  case (Cons d ds)
  show ?case
  proof (cases "dir_of E (calls w) d")
    case None
    then show ?thesis using Cons.IH[of "step w" names] Cons.prems by auto
  next
    case (Some ns)
    obtain a w1 where a: "expendable_in E d ns (step w) = (a, w1)" by (cases "expendable_in E d ns (step w)")
    obtain b w2 where b: "expendable_dirs E ds w1 = (b, w2)" by (cases "expendable_dirs E ds w1")
    have e: "names = a @ b" "w' = w2" using Cons.prems Some a b by auto
    show ?thesis using expendable_in_spec[OF a] Cons.IH[OF b] e by auto
  qed
qed simp

lemma thinner_refl: "thinner a a" by (simp add: thinner_def)

lemma thinner_trans: "thinner a b \<Longrightarrow> thinner b c \<Longrightarrow> thinner a c"
  unfolding thinner_def by (metis (no_types))

lemma thinner_in: "thinner a b \<Longrightarrow> Some p \<in> set a \<Longrightarrow> Some p \<in> set b"
  by (fastforce simp: thinner_def in_set_conv_nth)

lemma drop_open_thinner: "thinner (drop_open l fs) fs"
  by (simp add: drop_open_def thinner_def)

lemma drop_open_gone: "take 7 l = ''/cache/'' \<Longrightarrow> Some l \<notin> set (drop_open l fs)"
  by (auto simp: drop_open_def)

lemma eliminate_fds_spec:
  "eliminate_fds E path ds fs w = (fs', w') \<Longrightarrow>
   files w' = files w \<and> thinner fs' fs
   \<and> (steady E \<longrightarrow> (\<forall>d \<in> set ds. \<forall>l. link_of E 0 (path @ d) = Some l \<longrightarrow> take 7 l = ''/cache/'' \<longrightarrow> Some l \<notin> set fs'))"
proof (induction ds arbitrary: fs w)
  case Nil
  then show ?case by (simp add: thinner_refl)
next
  case (Cons d ds)
  define fs1 where "fs1 = (case link_of E (calls w) (path @ d) of None \<Rightarrow> fs | Some link \<Rightarrow> drop_open link fs)"
  have r: "eliminate_fds E path ds fs1 (step w) = (fs', w')" using Cons.prems by (simp add: fs1_def Let_def)
  have t: "thinner fs1 fs" by (simp add: fs1_def thinner_refl drop_open_thinner split: option.split)
  have g: "Some l \<notin> set fs1" if "steady E" "link_of E 0 (path @ d) = Some l" "take 7 l = ''/cache/''" for l
  proof -
    have "link_of E (calls w) = link_of E 0" using that(1) by (simp add: steady_def)
    then show ?thesis using that drop_open_gone[OF that(3)] by (simp add: fs1_def)
  qed
  show ?case using Cons.IH[OF r] t g thinner_trans thinner_in by (auto simp: thinner_in)
qed

lemma eliminate_procs_spec:
  "eliminate_procs E ds fs w = (fs', w') \<Longrightarrow>
   files w' = files w \<and> thinner fs' fs
   \<and> (steady E \<longrightarrow> (\<forall>d \<in> set ds. \<forall>fds. \<forall>f \<in> set fds. \<forall>l. list_all (is_digit 10) d \<longrightarrow>
        dir_of E 0 (''/proc/'' @ d @ ''/fd/'') = Some fds \<longrightarrow> link_of E 0 (''/proc/'' @ d @ ''/fd/'' @ f) = Some l \<longrightarrow>
        take 7 l = ''/cache/'' \<longrightarrow> Some l \<notin> set fs'))"
proof (induction ds arbitrary: fs w)
  case Nil
  then show ?case by (simp add: thinner_refl)
next
  case (Cons d ds)
  define path where "path = ''/proc/'' @ d @ ''/fd/''"
  have dir: "dir_of E (calls w) path = dir_of E 0 path" if "steady E"
    using that by (metis steady_def)
  show ?case
  proof (cases "list_all (is_digit 10) d")
    case False
    then show ?thesis using Cons.IH[of fs w] Cons.prems by auto
  next
    case True
    show ?thesis
    proof (cases "dir_of E (calls w) path")
      case None
      then show ?thesis using Cons.IH[of fs "step w"] Cons.prems True dir by (auto simp: path_def)
    next
      case (Some fds)
      obtain fs1 w1 where e: "eliminate_fds E path fds fs (step w) = (fs1, w1)"
        by (cases "eliminate_fds E path fds fs (step w)")
      have r: "eliminate_procs E ds fs1 w1 = (fs', w')"
        using Cons.prems True Some e by (simp add: path_def Let_def)
      have t: "thinner fs' fs1" "thinner fs' fs" "files w' = files w"
        using Cons.IH[OF r] eliminate_fds_spec[OF e] thinner_trans by auto
      have g: "Some l \<notin> set fs'" if "steady E" "dir_of E 0 path = Some fds'" "f \<in> set fds'"
        "link_of E 0 (path @ f) = Some l" "take 7 l = ''/cache/''" for fds' f l
        using eliminate_fds_spec[OF e] that dir Some thinner_in[OF t(1), of l] by auto
      show ?thesis using Cons.IH[OF r] t g by (auto simp: path_def)
    qed
  qed
qed

lemma FindExpendableFiles_spec:
  assumes "FindExpendableFiles E w = (Some names, w')" "steady E"
  shows "files w' = files w \<and> (\<forall>p. Some p \<in> set names \<longrightarrow> expendable (files w) p \<and> \<not> is_open E p)"
proof -
  obtain ns w1 where d: "expendable_dirs E [''/cache'', ''/cache/recovery/otatest''] w = (ns, w1)"
    by (cases "expendable_dirs E [''/cache'', ''/cache/recovery/otatest''] w")
  have "EliminateOpenFiles E (map Some ns) w1 = (Some names, w')" using assms(1) d by (simp add: FindExpendableFiles_def)
  then obtain procs where p: "dir_of E (calls w1) ''/proc'' = Some procs"
    and e: "eliminate_procs E procs (map Some ns) (step w1) = (names, w')"
    by (auto simp: EliminateOpenFiles_def split: option.splits prod.splits)
  note s = expendable_dirs_spec[OF d] eliminate_procs_spec[OF e]
  have f: "files w' = files w" using s by simp
  have x: "expendable (files w) q" if q: "Some q \<in> set names" for q
  proof -
    have "Some q \<in> set (map Some ns)" using thinner_in[of names "map Some ns" q] q s(2) by simp
    then have "q \<in> set ns" by auto
    then show ?thesis using s(1) unfolding expendable_def by fastforce
  qed
  moreover have "\<not> is_open E q" if q: "Some q \<in> set names" for q
  proof
    assume "is_open E q"
    moreover have "dir_of E 0 ''/proc'' = Some procs" using p assms(2) by (metis steady_def)
    moreover have "take 7 q = ''/cache/''" using x[OF q] by (auto simp: expendable_def)
    ultimately show False using s(2) q assms(2) by (auto simp: is_open_def)
  qed
  ultimately show ?thesis using f by blast
qed

lemma delete_files_spec:
  "delete_files E need names free w = (free', w') \<Longrightarrow>
   files w' p = files w p \<or> (files w' p = None \<and> Some p \<in> set names)"
proof (induction names arbitrary: free w)
  case (Cons n ns)
  show ?case
  proof (cases "free < need")
    case False
    then show ?thesis using Cons.prems by simp
  next
    case True
    show ?thesis
    proof (cases n)
      case None
      then show ?thesis using Cons True by simp
    next
      case (Some x)
      obtain f1 w1 where f: "FreeSpaceForFile E ''/cache'' (sys_unlink E x w) = (f1, w1)"
        by (cases "FreeSpaceForFile E ''/cache'' (sys_unlink E x w)")
      have "files w1 = files (sys_unlink E x w)" using files_free[of E "''/cache''" "sys_unlink E x w"] f by simp
      moreover have "delete_files E need ns f1 w1 = (free', w')" using Cons.prems True Some f by simp
      ultimately show ?thesis using Cons.IH[of f1 w1] Some by (auto simp: sys_unlink_def split: if_splits)
    qed
  qed
qed simp

lemma MakeFreeSpace_files:
  assumes "steady E" "MakeFreeSpaceOnCache E need w = (r, w')"
  shows "files w' p = files w p \<or> (files w' p = None \<and> expendable (files w) p \<and> \<not> is_open E p)"
proof -
  obtain free w1 where f: "FreeSpaceForFile E ''/cache'' w = (free, w1)" by (cases "FreeSpaceForFile E ''/cache'' w")
  have f1: "files w1 = files w" using files_free[of E "''/cache''" w] f by simp
  show ?thesis
  proof (cases "free \<ge> need")
    case True
    then show ?thesis using assms(2) f f1 by (simp add: MakeFreeSpaceOnCache_def)
  next
    case False
    obtain ns w2 where x: "FindExpendableFiles E w1 = (ns, w2)" by (cases "FindExpendableFiles E w1")
    show ?thesis
    proof (cases ns)
      case None
      have "files w2 = files w1"
      proof -
        obtain a b where d: "expendable_dirs E [''/cache'', ''/cache/recovery/otatest''] w1 = (a, b)"
          by (cases "expendable_dirs E [''/cache'', ''/cache/recovery/otatest''] w1")
        then have "w2 = step b"
          using x None by (auto simp: FindExpendableFiles_def EliminateOpenFiles_def split: option.splits prod.splits)
        then show ?thesis using expendable_dirs_spec[OF d] by simp
      qed
      then show ?thesis using assms(2) f f1 False x None by (simp add: MakeFreeSpaceOnCache_def)
    next
      case (Some names)
      note s = FindExpendableFiles_spec[of E w1 names w2] x Some assms(1)
      show ?thesis
      proof (cases "names = []")
        case True
        then show ?thesis using assms(2) f f1 False s by (simp add: MakeFreeSpaceOnCache_def)
      next
        case ne: False
        obtain f2 w3 where d: "delete_files E need names free w2 = (f2, w3)" by (cases "delete_files E need names free w2")
        then have "w' = w3" using assms(2) f False x Some ne by (simp add: MakeFreeSpaceOnCache_def)
        then show ?thesis using delete_files_spec[OF d, of p] s f1 by auto
      qed
    qed
  qed
qed

lemma FreeSpace_measured:
  "FreeSpaceForFile E ''/cache'' w = (f, w') \<Longrightarrow> f = measured E (calls w) \<and> calls w' = calls w + 1"
  by (auto simp: FreeSpaceForFile_def measured_def step_def split: option.splits)

lemma delete_files_measured:
  "delete_files E need names free w = (free', w') \<Longrightarrow>
   (free' = free \<and> calls w' = calls w) \<or> free' = measured E (calls w' - 1)"
proof (induction names arbitrary: free w)
  case (Cons n ns)
  show ?case
  proof (cases "free < need \<and> n \<noteq> None")
    case True
    then obtain x where x: "n = Some x" by blast
    obtain f1 w1 where f: "FreeSpaceForFile E ''/cache'' (sys_unlink E x w) = (f1, w1)"
      by (cases "FreeSpaceForFile E ''/cache'' (sys_unlink E x w)")
    have "delete_files E need ns f1 w1 = (free', w')" using Cons.prems True x f by simp
    then show ?thesis using Cons.IH[of f1 w1] FreeSpace_measured[OF f] by auto
  next
    case False
    then show ?thesis using Cons by (cases "free < need") auto
  qed
qed simp


lemma os_env0_sel [simp]:
  "sys_ok os_env0 n" "wr_count os_env0 n k = int k" "rd_count os_env0 n k = k"
  "statfs os_env0 n p = Some (if n < 8 then 0 else 1024, 1024)"
  "dir_of os_env0 n d = (if d = ''/cache'' then Some [''saved.file'', ''log'', ''busy'']
      else if d = ''/proc'' then Some [''1'', ''self'']
      else if d = ''/proc/1/fd/'' then Some [''3''] else None)"
  "link_of os_env0 n l = (if l = ''/proc/1/fd/3'' then Some ''/cache/busy'' else None)"
  by (simp_all add: os_env0_def imgenv.extend_def)

lemma os_env0_steady: "steady os_env0"
  by (simp add: steady_def fun_eq_iff)


text \<open>
  A failing \<open>statfs\<close> returns \<open>-1\<close>, the largest \<open>size_t\<close>, and counts as unlimited space; and the product of
  block size and free blocks wraps, so that four gigabytes of free space count as none.
\<close>

lemma free_space_wraps:
  "statfs E (calls w) ''/cache'' = None \<Longrightarrow> MakeFreeSpaceOnCache E need w = (0, step w)"
  "statfs E (calls w) p = Some (4096, 1048576) \<Longrightarrow> FreeSpaceForFile E p w = (0, step w)"
  by (simp_all add: MakeFreeSpaceOnCache_def FreeSpaceForFile_def)

end
