(* ===== verification/Apply_Patch.thy ===== *)
theory Apply_Patch
  imports Free_Cache Edify
begin

text \<open>
  The patching tool (\<open>applypatch/applypatch.c\<close>, \<open>applypatch/applypatch.h\<close>): loading of files and partitions
  with their hashes, saving of the source, writing to partitions, and \<open>applypatch\<close> itself, over the world of
  files and partitions of \<open>Free_Cache\<close>.
\<close>

section \<open>Data\<close>

text \<open>A pointer to a buffer: \<open>NULL\<close>, freed, or valid with the contents.\<close>

datatype 'a ptr = Null | Freed | Valid 'a

record FileContents =
  sha1 :: bytes
  fc_data :: "bytes ptr"
  fc_size :: int
  st_mode :: int
  st_uid :: int
  st_gid :: int

definition SHA_DIGEST_SIZE :: nat where
  "SHA_DIGEST_SIZE = 20"

definition SHA :: "('z, 'y, 'c, 'm) imgenv_scheme \<Rightarrow> bytes \<Rightarrow> bytes" where
  "SHA E data = SHA_final E (SHA_update E (SHA_init E) data)"

definition starts :: "string \<Rightarrow> string \<Rightarrow> bool" where
  "starts p s \<longleftrightarrow> take (length p) s = p"

definition is_partition :: "string \<Rightarrow> bool" where
  "is_partition name \<longleftrightarrow> starts ''MTD:'' name \<or> starts ''EMMC:'' name"

section \<open>System calls on files\<close>

text \<open>Opening for writing empties a regular file, and leaves a device as it is.\<close>

definition sys_open_trunc :: "('z, 'y, 'c, 'm) osenv_scheme \<Rightarrow> string \<Rightarrow> world \<Rightarrow> bool \<times> world" where
  "sys_open_trunc E path w =
     (if sys_ok E (calls w)
      then (True, (step w)\<lparr>files := (files w)(path := Some (case files w path of
              Some f \<Rightarrow> if regular f then f\<lparr>fdata := []\<rparr> else f
            | None \<Rightarrow> \<lparr>fdata = [], fmode = new_mode E (calls w), fuid = 0, fgid = 0, regular = True\<rparr>))\<rparr>)
      else (False, step w))"

definition sys_chmod :: "('z, 'y, 'c, 'm) osenv_scheme \<Rightarrow> string \<Rightarrow> int \<Rightarrow> world \<Rightarrow> bool \<times> world" where
  "sys_chmod E path m w =
     (case files w path of
        Some f \<Rightarrow> if sys_ok E (calls w) then (True, (step w)\<lparr>files := (files w)(path \<mapsto> f\<lparr>fmode := m\<rparr>)\<rparr>) else (False, step w)
      | None \<Rightarrow> (False, step w))"

definition sys_chown :: "('z, 'y, 'c, 'm) osenv_scheme \<Rightarrow> string \<Rightarrow> int \<Rightarrow> int \<Rightarrow> world \<Rightarrow> bool \<times> world" where
  "sys_chown E path u g w =
     (case files w path of
        Some f \<Rightarrow> if sys_ok E (calls w) then (True, (step w)\<lparr>files := (files w)(path \<mapsto> f\<lparr>fuid := u, fgid := g\<rparr>)\<rparr>)
                  else (False, step w)
      | None \<Rightarrow> (False, step w))"

definition sys_rename :: "('z, 'y, 'c, 'm) osenv_scheme \<Rightarrow> string \<Rightarrow> string \<Rightarrow> world \<Rightarrow> bool \<times> world" where
  "sys_rename E from to w =
     (case files w from of
        Some f \<Rightarrow> if sys_ok E (calls w) then (True, (step w)\<lparr>files := ((files w)(from := None))(to \<mapsto> f)\<rparr>) else (False, step w)
      | None \<Rightarrow> (False, step w))"

text \<open>The descriptor of a file opened for writing, and its contents back in the world.\<close>

definition fd_of :: "world \<Rightarrow> out_file" where
  "fd_of w = \<lparr>written_data = [], wcalls = calls w\<rparr>"

definition put_fd :: "string \<Rightarrow> out_file \<Rightarrow> world \<Rightarrow> world" where
  "put_fd path f w =
     w\<lparr>files := (files w)(path := map_option (\<lambda>s. s\<lparr>fdata := store (fdata s) 0 (written_data f)\<rparr>) (files w path)),
       calls := wcalls f\<rparr>"

section \<open>Digests\<close>

fun hex_bytes :: "string \<Rightarrow> bytes option" where
  "hex_bytes [] = Some []"
| "hex_bytes [c] = None"
| "hex_bytes (a # b # cs) =
     (case (digit_val a, digit_val b, hex_bytes cs) of
        (Some x, Some y, Some ds) \<Rightarrow> Some (word_of_int (x * 16 + y) # ds)
      | _ \<Rightarrow> None)"

text \<open>The loop reads 40 digits and then expects the end of the string.\<close>

definition ParseSha1 :: "string \<Rightarrow> bytes option" where
  "ParseSha1 str = (if length str = SHA_DIGEST_SIZE * 2 then hex_bytes str else None)"

fun find_match :: "bytes \<Rightarrow> string list \<Rightarrow> int \<Rightarrow> int" where
  "find_match d [] i = - 1"
| "find_match d (s # ss) i =
     (case ParseSha1 s of
        Some p \<Rightarrow> if memcmp p d SHA_DIGEST_SIZE = 0 then i else find_match d ss (i + 1)
      | None \<Rightarrow> find_match d ss (i + 1))"

definition FindMatchingPatch :: "bytes \<Rightarrow> string list \<Rightarrow> int" where
  "FindMatchingPatch d patch_sha1_str = find_match d patch_sha1_str 0"

section \<open>Loading a partition\<close>

text \<open>The pieces that successive calls of \<open>strtok(s, ":")\<close> return.\<close>

fun split_colon :: "string \<Rightarrow> string list" where
  "split_colon [] = [[]]"
| "split_colon (c # cs) =
     (if c = CHR '':'' then [] # split_colon cs
      else case split_colon cs of t # ts \<Rightarrow> (c # t) # ts | [] \<Rightarrow> [[c]])"

definition tokens :: "string \<Rightarrow> string list" where
  "tokens s = List.filter (\<lambda>t. t \<noteq> []) (split_colon s)"

text \<open>
  The pairs of size and digest, from the tokens behind the partition name; \<open>None\<close> for a digest is
  \<open>NULL\<close>. \<open>Inr None\<close> is the return for a size of zero.
\<close>

fun read_pairs :: "nat \<Rightarrow> string list \<Rightarrow> ((u32 \<times> string option) list option) res" where
  "read_pairs 0 ts = Inr (Some [])"
| "read_pairs (Suc n) ts =
     (case ts of
        [] \<Rightarrow> Inl NullDeref
      | t # ts \<Rightarrow>
          let sz = word_of_int (fst (strtol t)) :: u32 in
          if sz = 0 then Inr None
          else bindR (read_pairs n (drop 1 ts)) (\<lambda>r.
            Inr (map_option (Cons (sz, case ts of [] \<Rightarrow> None | d # _ \<Rightarrow> Some d)) r)))"

definition compare_size_indices :: "u32 list \<Rightarrow> nat \<Rightarrow> nat \<Rightarrow> int" where
  "compare_size_indices size_array aa bb =
     (if size_array ! aa < size_array ! bb then - 1
      else if size_array ! aa > size_array ! bb then 1 else 0)"

text \<open>The two kinds of partitions that are read, and the reading of a number of bytes.\<close>

datatype reader = R_MTD MtdReadContext | R_EMMC bytes

definition read_part ::
  "('z, 'y, 'c, 'm) osenv_scheme \<Rightarrow> reader \<Rightarrow> int \<Rightarrow> world \<Rightarrow> (bytes option \<times> reader \<times> world) res" where
  "read_part E r n w =
     (case r of
        R_MTD ctx \<Rightarrow> bindR (mtd_read_data ctx n) (\<lambda>(d, ctx). Inr (d, R_MTD ctx, w))
      | R_EMMC rest \<Rightarrow>
          (let k = min (rd_count E (calls w) (nat n)) (min (nat n) (length rest)) in
           Inr (Some (take k rest), R_EMMC (drop k rest), step w)))"

definition scan_mtd :: "('z, 'y, 'c, 'm) osenv_scheme \<Rightarrow> world \<Rightarrow> world res" where
  "scan_mtd E w =
     (if mtd_partitions_scanned w then Inr w
      else bindR (mtd_scan_partitions (malloc_ok E 512) (proc_mtd E) (mtd_state w)) (\<lambda>(_, g).
        Inr (w\<lparr>mtd_state := g, mtd_partitions_scanned := True\<rparr>)))"

text \<open>The lookup compares with the name of each scanned partition; the name is \<open>NULL\<close> when there is no token for it.\<close>

definition find_mtd :: "MtdState \<Rightarrow> string option \<Rightarrow> MtdPartition option res" where
  "find_mtd g name =
     (case name of
        Some n \<Rightarrow> Inr (mtd_find_partition_by_name g n)
      | None \<Rightarrow> if (\<exists>p \<in> set (case partitions g of None \<Rightarrow> [] | Some ps \<Rightarrow> ps). device_index p \<ge> 0 \<and> pname p \<noteq> None)
                then Inl NullDeref else Inr None)"

definition open_part ::
  "('z, 'y, 'c, 'm) osenv_scheme \<Rightarrow> bool \<Rightarrow> string option \<Rightarrow> world \<Rightarrow> (reader option \<times> world) res" where
  "open_part E mtd pt w =
     (if mtd then
        bindR (scan_mtd E w) (\<lambda>w.
        bindR (find_mtd (mtd_state w) pt) (\<lambda>p.
        case p of
          None \<Rightarrow> Inr (None, w)
        | Some p \<Rightarrow>
            bindR (mtd_read_partition (malloc_ok E 16) (malloc_ok E (erase_size p))
                     (if sys_ok E (calls w) then Some ((flash_of w (device_index p))\<lparr>fpos := 0\<rparr>) else None) p)
              (\<lambda>ctx. Inr (map_option R_MTD ctx, step w))))
      else case pt of
        None \<Rightarrow> Inr (None, step w)
      | Some dev \<Rightarrow>
          (case sys_stat E dev w of (f, w) \<Rightarrow> Inr (map_option (\<lambda>f. R_EMMC (fdata f)) f, w)))"

definition close_part :: "reader \<Rightarrow> world \<Rightarrow> world" where
  "close_part r w =
     (case r of
        R_MTD ctx \<Rightarrow> w\<lparr>flash_of := (flash_of w)(device_index (rpart ctx) := rdev ctx)\<rparr>
      | R_EMMC _ \<Rightarrow> w)"

text \<open>
  The loop over the pairs in order of size: the data read so far and the hash context. The result says
  whether the loop ended at a match (\<open>Some True\<close>), at the end of the list (\<open>Some False\<close>) or by an
  early return (\<open>None\<close>).
\<close>

primrec try_sizes ::
  "('z, 'y, 'c, 'm) osenv_scheme \<Rightarrow> (u32 \<times> string option) list \<Rightarrow> reader \<Rightarrow> bytes \<Rightarrow> 'c \<Rightarrow> world
   \<Rightarrow> (bool option \<times> reader \<times> bytes \<times> 'c \<times> world) res" where
  "try_sizes E [] r data ctx w = Inr (Some False, r, data, ctx, w)"
| "try_sizes E (p # ps) r data ctx w =
     (case p of (sz, digest) \<Rightarrow>
      let nxt = uint (sz - of_nat (length data)) in
      bindR (if nxt > 0 then read_part E r nxt w else Inr (Some [], r, w)) (\<lambda>(got, r, w).
      case got of
        None \<Rightarrow> Inr (None, r, data, ctx, w)
      | Some d \<Rightarrow>
          if int (length d) \<noteq> nxt then Inr (None, r, data, ctx, w)
          else
            let data = data @ d; ctx = (if nxt > 0 then SHA_update E ctx d else ctx) in
            (case digest of
              None \<Rightarrow> Inl NullDeref
            | Some str \<Rightarrow>
                (case ParseSha1 str of
                   None \<Rightarrow> Inr (None, r, data, ctx, w)
                 | Some parsed \<Rightarrow>
                     if memcmp (SHA_final E ctx) parsed SHA_DIGEST_SIZE = 0 then Inr (Some True, r, data, ctx, w)
                     else try_sizes E ps r data ctx w))))"

definition LoadPartitionContents ::
  "('z, 'y, 'c, 'm) osenv_scheme \<Rightarrow> string \<Rightarrow> FileContents \<Rightarrow> world \<Rightarrow> ((int \<times> FileContents) \<times> world) res" where
  "LoadPartitionContents E filename file w =
     (let toks = tokens filename; colons = length (List.filter (\<lambda>c. c = CHR '':'') filename) in
      case toks of
        [] \<Rightarrow> Inl NullDeref
      | magic # rest \<Rightarrow>
          if magic \<noteq> ''MTD'' \<and> magic \<noteq> ''EMMC'' then Inr ((- 1, file), w)
          else
            let pt = (case rest of [] \<Rightarrow> None | p # _ \<Rightarrow> Some p); pairs = (colons - 1) div 2 in
            bindR (read_pairs pairs (drop 1 rest)) (\<lambda>ps.
            case ps of
              None \<Rightarrow> Inr ((- 1, file), w)
            | Some ps \<Rightarrow>
                let index = qsort (compare_size_indices (map fst ps)) [0..<length ps] in
                bindR (open_part E (magic = ''MTD'') pt w) (\<lambda>(r, w).
                case r of
                  None \<Rightarrow> Inr ((- 1, file), w)
                | Some r \<Rightarrow>
                    bindR (rd index (int pairs - 1)) (\<lambda>last.
                    if \<not> malloc_ok E (int (unat (fst (ps ! last)))) then Inl NullDeref
                    else bindR (try_sizes E (map ((!) ps) index) r [] (SHA_init E) w) (\<lambda>(res, r, data, ctx, w).
                      case res of
                        None \<Rightarrow> Inr ((- 1, file\<lparr>fc_data := Null, fc_size := int (length data)\<rparr>), w)
                      | Some found \<Rightarrow>
                          let w = close_part r w in
                          if \<not> found then Inr ((- 1, file\<lparr>fc_data := Null, fc_size := int (length data)\<rparr>), w)
                          else Inr ((0, \<lparr>sha1 = SHA_final E ctx, fc_data = Valid data, fc_size = int (length data),
                                         st_mode = 420, st_uid = 0, st_gid = 0\<rparr>), w))))))"

section \<open>Loading and saving files\<close>

definition LoadFileContents ::
  "('z, 'y, 'c, 'm) osenv_scheme \<Rightarrow> string \<Rightarrow> FileContents \<Rightarrow> world \<Rightarrow> ((int \<times> FileContents) \<times> world) res" where
  "LoadFileContents E filename file w =
     (let file = file\<lparr>fc_data := Null\<rparr> in
      if is_partition filename then LoadPartitionContents E filename file w
      else case sys_stat E filename w of (st, w) \<Rightarrow>
        (case st of
           None \<Rightarrow> Inr ((- 1, file), w)
         | Some f \<Rightarrow>
             let n = length (fdata f);
                 file = file\<lparr>fc_size := int n, st_mode := fmode f, st_uid := fuid f, st_gid := fgid f\<rparr> in
             if \<not> sys_ok E (calls w) then Inr ((- 1, file), step w)
             else if \<not> malloc_ok E (int n) then Inl NullDeref
             else let w = step w; got = min (rd_count E (calls w) n) n; w = step w in
               if got \<noteq> n then Inr ((- 1, file), w)
               else Inr ((0, file\<lparr>fc_data := Valid (fdata f), sha1 := SHA E (fdata f)\<rparr>), w)))"

text \<open>\<open>write\<close> fails on a \<open>NULL\<close> buffer.\<close>

definition SaveFileContents ::
  "('z, 'y, 'c, 'm) osenv_scheme \<Rightarrow> string \<Rightarrow> FileContents \<Rightarrow> world \<Rightarrow> (int \<times> world) res" where
  "SaveFileContents E filename file w =
     (case sys_open_trunc E filename w of (ok, w) \<Rightarrow>
        if \<not> ok then Inr (- 1, w)
        else bindR (case fc_data file of
                 Valid d \<Rightarrow> Inr (FileSink (wr_count E) d (fd_of w))
               | Null \<Rightarrow> Inr (0, fd_of w)
               | Freed \<Rightarrow> if fc_size file > 0 then Inl UseAfterFree else Inr (0, fd_of w)) (\<lambda>(bytes_written, fd).
          let w = put_fd filename fd w in
          if bytes_written \<noteq> fc_size file then Inr (- 1, w)
          else case sys_chmod E filename (st_mode file) w of (ok, w) \<Rightarrow>
            if \<not> ok then Inr (- 1, w)
            else case sys_chown E filename (st_uid file) (st_gid file) w of (ok, w) \<Rightarrow>
              Inr (if ok then 0 else - 1, w)))"

definition write_mtd ::
  "('z, 'y, 'c, 'm) osenv_scheme \<Rightarrow> bytes \<Rightarrow> string \<Rightarrow> world \<Rightarrow> (int \<times> world) res" where
  "write_mtd E data pt w =
     bindR (scan_mtd E w) (\<lambda>w.
     case mtd_find_partition_by_name (mtd_state w) pt of
       None \<Rightarrow> Inr (- 1, w)
     | Some p \<Rightarrow>
         let dev = device_index p;
             put = (\<lambda>d w. w\<lparr>flash_of := (flash_of w)(dev := d)\<rparr>) in
         (case mtd_write_partition (malloc_ok E 20) (malloc_ok E (erase_size p))
                (if sys_ok E (calls w) then Some ((flash_of w dev)\<lparr>fpos := 0\<rparr>) else None) p of
           None \<Rightarrow> Inr (- 1, step w)
         | Some ctx \<Rightarrow>
             let w = step w in
             bindR (mtd_write_data ctx data) (\<lambda>(wrote, ctx).
             if wrote \<noteq> int (length data)
             then bindR (mtd_write_close ctx (sys_ok E (calls w))) (\<lambda>(_, d). Inr (- 1, put d (step w)))
             else bindR (mtd_erase_blocks ctx (- 1)) (\<lambda>(pos, ctx).
               if pos < 0
               then bindR (mtd_write_close ctx (sys_ok E (calls w))) (\<lambda>(_, d). Inr (- 1, put d (step w)))
               else bindR (mtd_write_close ctx (sys_ok E (calls w))) (\<lambda>(rc, d).
                 Inr (if rc \<noteq> 0 then - 1 else 0, put d (step w)))))))"

text \<open>\<open>fopen\<close> of the device is not checked; \<open>fclose\<close> flushes.\<close>

definition write_emmc ::
  "('z, 'y, 'c, 'm) osenv_scheme \<Rightarrow> bytes \<Rightarrow> string \<Rightarrow> world \<Rightarrow> (int \<times> world) res" where
  "write_emmc E data pt w =
     (case sys_open_trunc E pt w of (ok, w) \<Rightarrow>
        if \<not> ok then Inl NullDeref
        else case FileSink (wr_count E) data (fd_of w) of (wrote, fd) \<Rightarrow>
          let w = put_fd pt fd w in
          if wrote \<noteq> int (length data) then Inr (- 1, w)
          else Inr (if sys_ok E (calls w) then 0 else - 1, step w))"

definition WriteToPartition ::
  "('z, 'y, 'c, 'm) osenv_scheme \<Rightarrow> bytes \<Rightarrow> string \<Rightarrow> world \<Rightarrow> (int \<times> world) res" where
  "WriteToPartition E data target w =
     (case tokens target of
        [] \<Rightarrow> Inl NullDeref
      | magic # rest \<Rightarrow>
          if magic \<noteq> ''MTD'' \<and> magic \<noteq> ''EMMC'' then Inr (- 1, w)
          else (case rest of
            [] \<Rightarrow> Inr (- 1, w)
          | pt # _ \<Rightarrow>
              if magic = ''MTD'' then write_mtd E data pt w else write_emmc E data pt w))"

definition applypatch_check ::
  "('z, 'y, 'c, 'm) osenv_scheme \<Rightarrow> string \<Rightarrow> string list \<Rightarrow> FileContents \<Rightarrow> world \<Rightarrow> (int \<times> world) res" where
  "applypatch_check E filename patch_sha1_str file w =
     bindR (LoadFileContents E filename file w) (\<lambda>((rc, file), w).
     if rc \<noteq> 0 \<or> (patch_sha1_str \<noteq> [] \<and> FindMatchingPatch (sha1 file) patch_sha1_str < 0)
     then bindR (LoadFileContents E CACHE_TEMP_SOURCE file w) (\<lambda>((rc, file), w).
       if rc \<noteq> 0 then Inr (1, w)
       else if FindMatchingPatch (sha1 file) patch_sha1_str < 0 then Inr (1, w)
       else Inr (0, w))
     else Inr (0, w))"

section \<open>Applying a patch\<close>

record ap_state =
  source_file :: FileContents
  copy_file :: FileContents
  source_patch_value :: "Value option"
  copy_patch_value :: "Value option"
  made_copy :: bool

definition free_data :: "FileContents \<Rightarrow> FileContents" where
  "free_data file = file\<lparr>fc_data := (if fc_data file = Null then Null else Freed)\<rparr>"

text \<open>
  The first part: the early exit when the target is up to date, and the choice of the source and its
  patch. \<open>Inl rc\<close> is a return, \<open>Inr st\<close> goes on. \<open>junk\<close> is what the uninitialised structures hold.
\<close>

definition select_source ::
  "('z, 'y, 'c, 'm) osenv_scheme \<Rightarrow> string \<Rightarrow> string \<Rightarrow> bytes \<Rightarrow> string list \<Rightarrow> Value list \<Rightarrow> FileContents \<Rightarrow> world
   \<Rightarrow> ((int + ap_state) \<times> world) res" where
  "select_source E source target target_sha1 strs patches junk w =
     bindR (LoadFileContents E target junk w) (\<lambda>((rc, file), w).
     if rc = 0 \<and> memcmp (sha1 file) target_sha1 SHA_DIGEST_SIZE = 0 then Inr (Inl 0, w)
     else
       bindR (if fc_data file = Null \<or> target \<noteq> source
              then bindR (LoadFileContents E source file w) (\<lambda>((_, file), w). Inr (file, w))
              else Inr (file, w)) (\<lambda>(file, w).
       let to_use = (if fc_data file \<noteq> Null then FindMatchingPatch (sha1 file) strs else - 1) in
       if to_use \<ge> 0
       then bindR (rd patches to_use) (\<lambda>v.
         Inr (Inr \<lparr>source_file = file, copy_file = junk, source_patch_value = Some v, copy_patch_value = None,
                   made_copy = False\<rparr>, w))
       else
         bindR (LoadFileContents E CACHE_TEMP_SOURCE junk w) (\<lambda>((rc, copy), w).
         if rc < 0 then Inr (Inl 1, w)
         else
           let to_use = FindMatchingPatch (sha1 copy) strs in
           if to_use \<ge> 0
           then bindR (rd patches to_use) (\<lambda>v.
             Inr (Inr \<lparr>source_file = free_data file, copy_file = copy, source_patch_value = None,
                       copy_patch_value = Some v, made_copy = False\<rparr>, w))
           else Inr (Inl 1, w))))"

text \<open>The top-level directory of the target; the search starts at the second character.\<close>

definition target_fs :: "string \<Rightarrow> string res" where
  "target_fs t =
     (if t = [] then Inl OutOfBounds
      else let i = length (takeWhile (\<lambda>c. c \<noteq> CHR ''/'') (tl t)) in
           Inr (if i < length (tl t) then take (i + 1) t else t))"

definition back_up ::
  "('z, 'y, 'c, 'm) osenv_scheme \<Rightarrow> FileContents \<Rightarrow> world \<Rightarrow> (bool \<times> world) res" where
  "back_up E file w =
     (case MakeFreeSpaceOnCache E (word_of_int (fc_size file)) w of (r, w) \<Rightarrow>
        if r < 0 then Inr (False, w)
        else bindR (SaveFileContents E CACHE_TEMP_SOURCE file w) (\<lambda>(r, w). Inr (\<not> r < 0, w)))"

definition enough_space :: "('z, 'y, 'c, 'm) osenv_scheme \<Rightarrow> string \<Rightarrow> u32 \<Rightarrow> int \<Rightarrow> world \<Rightarrow> bool \<times> world" where
  "enough_space E fs tsize retry w =
     (if retry > 0
      then case FreeSpaceForFile E fs w of (free_space, w) \<Rightarrow>
        (free_space > 262144 \<and> free_space > tsize * 3 div 2, w)
      else (False, w))"

text \<open>Making room for the output: whether to retry, and the state; \<open>Inl rc\<close> is a return.\<close>

definition prepare ::
  "('z, 'y, 'c, 'm) osenv_scheme \<Rightarrow> string \<Rightarrow> string \<Rightarrow> u32 \<Rightarrow> string \<Rightarrow> int \<Rightarrow> ap_state \<Rightarrow> world
   \<Rightarrow> ((int + bool \<times> ap_state) \<times> world) res" where
  "prepare E source target tsize fs retry st w =
     (if is_partition target then
        bindR (back_up E (source_file st) w) (\<lambda>(ok, w).
        if \<not> ok then Inr (Inl 1, w) else Inr (Inr (False, st\<lparr>made_copy := True\<rparr>), w))
      else case enough_space E fs tsize retry w of (enough, w) \<Rightarrow>
        if \<not> enough \<and> source_patch_value st \<noteq> None then
          (if is_partition source then Inr (Inl 1, w)
           else bindR (back_up E (source_file st) w) (\<lambda>(ok, w).
             if \<not> ok then Inr (Inl 1, w)
             else Inr (Inr (False, st\<lparr>made_copy := True\<rparr>), snd (FreeSpaceForFile E fs (sys_unlink E source w)))))
        else Inr (Inr (enough, st), w))"

text \<open>The source and the patch in use.\<close>

definition in_use :: "ap_state \<Rightarrow> FileContents \<times> Value option" where
  "in_use st =
     (if source_patch_value st \<noteq> None then (source_file st, source_patch_value st)
      else (copy_file st, copy_patch_value st))"

definition deref :: "'a ptr \<Rightarrow> 'a res" where
  "deref p = (case p of Null \<Rightarrow> Inl NullDeref | Freed \<Rightarrow> Inl UseAfterFree | Valid x \<Rightarrow> Inr x)"

text \<open>Dispatch on the header of the patch; \<open>None\<close> is an unknown format.\<close>

definition patch_into ::
  "('z, 'y, 'c, 'm) osenv_scheme \<Rightarrow> 'k SinkFn \<Rightarrow> int \<Rightarrow> bytes option \<Rightarrow> FileContents \<Rightarrow> 'k \<Rightarrow> (int \<times> 'k \<times> 'c) option res" where
  "patch_into E sink sz data src k =
     (if sz < 8 then Inr None
      else bindR (case data of None \<Rightarrow> Inl NullDeref | Some d \<Rightarrow> region d 0 sz) (\<lambda>patch.
        if memcmp (take 8 patch) BSDIFF40 8 = 0
        then bindR (deref (fc_data src)) (\<lambda>old.
             bindR (ApplyBSDiffPatch E sink old 0 (fc_size src) patch 0 k (SHA_init E)) (\<lambda>r. Inr (Some r)))
        else if memcmp (take 8 patch) IMGDIFF2 8 = 0
        then bindR (deref (fc_data src)) (\<lambda>old.
             bindR (ApplyImagePatch E sink old patch k (SHA_init E)) (\<lambda>r. Inr (Some r)))
        else Inr None))"

text \<open>The output is in memory or in the file \<open><target>.patch\<close>.\<close>

datatype patch_output = ToMem bytes | ToFile string

definition attempt ::
  "('z, 'y, 'c, 'm) osenv_scheme \<Rightarrow> string \<Rightarrow> u32 \<Rightarrow> ap_state \<Rightarrow> world \<Rightarrow> ((int + int \<times> patch_output \<times> 'c) \<times> world) res" where
  "attempt E target tsize st w =
     (case in_use st of (src, v) \<Rightarrow>
        case v of
          None \<Rightarrow> Inl NullDeref
        | Some (VString _) \<Rightarrow> Inr (Inl 1, w)
        | Some (VBlob sz data) \<Rightarrow>
            if is_partition target then
              (if \<not> malloc_ok E (int (unat tsize)) then Inr (Inl 1, w)
               else bindR (patch_into E MemorySink sz data src
                        \<lparr>mbuffer = map (fresh E) [0..<unat tsize], mpos = 0\<rparr>) (\<lambda>r.
                 case r of
                   None \<Rightarrow> Inr (Inl 1, w)
                 | Some (rc, msi, ctx) \<Rightarrow> Inr (Inr (rc, ToMem (msi_content msi), ctx), w)))
            else
              let outname = target @ ''.patch'' in
              case sys_open_trunc E outname w of (ok, w) \<Rightarrow>
                if \<not> ok then Inr (Inl 1, w)
                else bindR (patch_into E (FileSink (wr_count E)) sz data src (fd_of w)) (\<lambda>r.
                  case r of
                    None \<Rightarrow> Inr (Inl 1, w)
                  | Some (rc, fd, ctx) \<Rightarrow> Inr (Inr (rc, ToFile outname, ctx), put_fd outname fd w)))"

text \<open>The loop; \<open>retry\<close> is set to zero when there is not enough room or the target is a partition.\<close>

function patch_loop ::
  "('z, 'y, 'c, 'm) osenv_scheme \<Rightarrow> string \<Rightarrow> string \<Rightarrow> u32 \<Rightarrow> string \<Rightarrow> int \<Rightarrow> ap_state \<Rightarrow> world
   \<Rightarrow> ((int + patch_output \<times> 'c \<times> ap_state) \<times> world) res" where
  "patch_loop E source target tsize fs retry st w =
     bindR (prepare E source target tsize fs retry st w) (\<lambda>(r, w).
     case r of
       Inl rc \<Rightarrow> Inr (Inl rc, w)
     | Inr (enough, st) \<Rightarrow>
         bindR (attempt E target tsize st w) (\<lambda>(r, w).
         case r of
           Inl rc \<Rightarrow> Inr (Inl rc, w)
         | Inr (result, po, ctx) \<Rightarrow>
             if result = 0 then Inr (Inr (po, ctx, st), w)
             else if \<not> enough \<or> retry = 0 then Inr (Inl 1, w)
             else
               let w = (case po of ToFile n \<Rightarrow> sys_unlink E n w | ToMem _ \<Rightarrow> w) in
               if retry > 0 then patch_loop E source target tsize fs (retry - 1) st w
               else Inr (Inr (po, ctx, st), w)))"
  by pat_completeness auto

termination
  by (relation "measure (\<lambda>(_, _, _, _, _, retry, _, _). nat retry)") auto

declare patch_loop.simps [simp del]

definition replace_target ::
  "('z, 'y, 'c, 'm) osenv_scheme \<Rightarrow> string \<Rightarrow> string \<Rightarrow> FileContents \<Rightarrow> world \<Rightarrow> bool \<times> world" where
  "replace_target E outname target src w =
     (case sys_chmod E outname (st_mode src) w of (ok, w) \<Rightarrow>
        if \<not> ok then (False, w)
        else case sys_chown E outname (st_uid src) (st_gid src) w of (ok, w) \<Rightarrow>
          if \<not> ok then (False, w) else sys_rename E outname target w)"

definition finish_patch ::
  "('z, 'y, 'c, 'm) osenv_scheme \<Rightarrow> string \<Rightarrow> bytes \<Rightarrow> patch_output \<Rightarrow> 'c \<Rightarrow> ap_state \<Rightarrow> world \<Rightarrow> (int \<times> world) res" where
  "finish_patch E target target_sha1 po ctx st w =
     (if memcmp (SHA_final E ctx) target_sha1 SHA_DIGEST_SIZE \<noteq> 0 then Inr (1, w)
      else bindR (case po of
               ToMem data \<Rightarrow> bindR (WriteToPartition E data target w) (\<lambda>(rc, w). Inr (rc = 0, w))
             | ToFile outname \<Rightarrow> Inr (replace_target E outname target (fst (in_use st)) w)) (\<lambda>(ok, w).
        if \<not> ok then Inr (1, w)
        else Inr (0, if made_copy st then sys_unlink E CACHE_TEMP_SOURCE w else w)))"

definition applypatch ::
  "('z, 'y, 'c, 'm) osenv_scheme \<Rightarrow> string \<Rightarrow> string \<Rightarrow> string \<Rightarrow> u32 \<Rightarrow> string list \<Rightarrow> Value list \<Rightarrow> FileContents \<Rightarrow> world
   \<Rightarrow> (int \<times> world) res" where
  "applypatch E source target target_sha1_str tsize patch_sha1_str patch_data junk w =
     (let target = (if target = ''-'' then source else target) in
      case ParseSha1 target_sha1_str of
        None \<Rightarrow> Inr (1, w)
      | Some target_sha1 \<Rightarrow>
          bindR (select_source E source target target_sha1 patch_sha1_str patch_data junk w) (\<lambda>(r, w).
          case r of
            Inl rc \<Rightarrow> Inr (rc, w)
          | Inr st \<Rightarrow>
              bindR (target_fs target) (\<lambda>fs.
              bindR (patch_loop E source target tsize fs 1 st w) (\<lambda>(r, w).
              case r of
                Inl rc \<Rightarrow> Inr (rc, w)
              | Inr (po, ctx, st) \<Rightarrow> finish_patch E target target_sha1 po ctx st w))))"

section \<open>Notions used in the statements\<close>

text \<open>The digest in hexadecimal digits.\<close>

definition hex_digit :: "nat \<Rightarrow> char" where
  "hex_digit d = char_of (if d < 10 then 48 + d else 87 + d)"

definition hex :: "bytes \<Rightarrow> string" where
  "hex ds = List.concat (map (\<lambda>b. [hex_digit (unat b div 16), hex_digit (unat b mod 16)]) ds)"

text \<open>Digests have twenty bytes.\<close>

definition sha_digest :: "('z, 'y, 'c, 'm) imgenv_scheme \<Rightarrow> bool" where
  "sha_digest E \<longleftrightarrow> (\<forall>c. length (SHA_final E c) = 20)"

text \<open>A path names a file with the given contents; it does not name a device.\<close>

definition holds :: "world \<Rightarrow> string \<Rightarrow> bytes \<Rightarrow> bool" where
  "holds w p d \<longleftrightarrow> (\<exists>f. files w p = Some f \<and> fdata f = d)"

definition plain :: "world \<Rightarrow> string \<Rightarrow> bool" where
  "plain w p \<longleftrightarrow> (\<forall>f. files w p = Some f \<longrightarrow> regular f)"

text \<open>A source that one of the patches applies to: its data, loaded, and matched by its hash.\<close>

definition matches :: "('z, 'y, 'c, 'm) osenv_scheme \<Rightarrow> string list \<Rightarrow> bytes \<Rightarrow> bool" where
  "matches E strs d \<longleftrightarrow> FindMatchingPatch (SHA E d) strs \<ge> 0"

definition available :: "('z, 'y, 'c, 'm) osenv_scheme \<Rightarrow> string list \<Rightarrow> string \<Rightarrow> world \<Rightarrow> bool" where
  "available E strs source w \<longleftrightarrow> (\<exists>d. matches E strs d \<and> (holds w source d \<or> holds w CACHE_TEMP_SOURCE d))"

definition loaded :: "('z, 'y, 'c, 'm) osenv_scheme \<Rightarrow> string list \<Rightarrow> string \<Rightarrow> FileContents \<Rightarrow> world \<Rightarrow> bool" where
  "loaded E strs path file w \<longleftrightarrow>
     (\<exists>d. matches E strs d \<and> holds w path d \<and> fc_data file = Valid d \<and> fc_size file = int (length d))"

text \<open>Before the attempt: the selected source stays available.\<close>

definition selected :: "('z, 'y, 'c, 'm) osenv_scheme \<Rightarrow> string list \<Rightarrow> string \<Rightarrow> ap_state \<Rightarrow> world \<Rightarrow> bool" where
  "selected E strs S st w \<longleftrightarrow>
     (if source_patch_value st \<noteq> None then \<not> is_partition S \<longrightarrow> loaded E strs S (source_file st) w
      else loaded E strs CACHE_TEMP_SOURCE (copy_file st) w)"

text \<open>
  A run on files: \<open>goal\<close> is the target after \<open>"-"\<close> has been replaced. The names are such that
  the output, the saved source, the source and the target are different files.
\<close>

definition file_names :: "string \<Rightarrow> string \<Rightarrow> world \<Rightarrow> bool" where
  "file_names source goal w \<longleftrightarrow>
     \<not> is_partition goal \<and> take 7 source \<noteq> ''/cache/'' \<and> take 7 goal \<noteq> ''/cache/'' \<and> source \<noteq> goal @ ''.patch''
     \<and> plain w CACHE_TEMP_SOURCE \<and> plain w (goal @ ''.patch'')"

text \<open>A device on which every call works.\<close>

definition reliable :: "('z, 'y, 'c, 'm) osenv_scheme \<Rightarrow> bool" where
  "reliable E \<longleftrightarrow> (\<forall>n. sys_ok E n) \<and> (\<forall>n k. rd_count E n k \<ge> k) \<and> full_writes (wr_count E) \<and> (\<forall>n. malloc_ok E n)"

text \<open>There is room for the output on its file system.\<close>

definition roomy :: "('z, 'y, 'c, 'm) osenv_scheme \<Rightarrow> string \<Rightarrow> u32 \<Rightarrow> bool" where
  "roomy E path tsize \<longleftrightarrow>
     (\<exists>fs. target_fs path = Inr fs \<and>
       (\<forall>n. \<exists>b f. statfs E n fs = Some (b, f) \<and> b * f > 262144 \<and> b * f > tsize * 3 div 2))"

definition ap_env0 :: "(bytes, bytes, bytes) osenv" where
  "ap_env0 = os_env0\<lparr>statfs := (\<lambda>_ _. Some (1024, 1024)), dir_of := (\<lambda>_ _. None)\<rparr>"

definition ap_world0 :: world where
  "ap_world0 = world0\<lparr>files := [''/system/a'' \<mapsto> \<lparr>fdata = [1, 2], fmode = 0, fuid = 0, fgid = 0, regular = True\<rparr>]\<rparr>"

definition ap_junk :: FileContents where
  "ap_junk = \<lparr>sha1 = [], fc_data = Null, fc_size = 0, st_mode = 0, st_uid = 0, st_gid = 0\<rparr>"

definition digest0 :: "bytes \<Rightarrow> bytes" where
  "digest0 d = take 20 (d @ replicate 20 0)"

text \<open>The patch from \<open>[1, 2]\<close> to \<open>[1, 3, 2]\<close>.\<close>

definition patch0 :: bytes where
  "patch0 = BSDIFF40 @ offtout 24 @ offtout 1 @ offtout 3
     @ [1, 0, 0, 0, 0, 0, 0, 0, 2, 0, 0, 0, 0, 0, 0, 0, 0, 0, 0, 0, 0, 0, 0, 0] @ [0] @ [3, 2]"

text \<open>A run in which the source was deleted for lack of room before the attempt failed.\<close>

definition ap_env1 :: "(bytes, bytes, bytes) osenv" where
  "ap_env1 = ap_env0\<lparr>statfs := (\<lambda>_ p. if p = ''/cache'' then Some (1024, 1024) else Some (0, 0))\<rparr>"

definition emmc0 :: string where
  "emmc0 = ''EMMC:dev:3:'' @ hex (digest0 [9]) @ '':2:'' @ hex (digest0 [1, 2])"

definition emmc_world :: world where
  "emmc_world = world0\<lparr>files := [''dev'' \<mapsto> \<lparr>fdata = [1, 2, 3], fmode = 0, fuid = 0, fgid = 0, regular = False\<rparr>]\<rparr>"

section \<open>Digests\<close>

lemma hex_digit_val: "d < 16 \<Longrightarrow> digit_val (hex_digit d) = Some (int d)"
proof -
  assume d: "d < 16"
  define n where "n = (if d < 10 then 48 + d else 87 + d)"
  have "(of_char (char_of n) :: int) = int (of_char (char_of n))" by (simp only: of_nat_of_char)
  also have "\<dots> = int n" using d by (simp only: of_char_of) (simp add: n_def)
  finally show ?thesis using d by (simp add: digit_val_def Let_def hex_digit_def n_def)
qed

lemma hex_bytes_hex: "hex_bytes (hex ds) = Some ds"
proof (induction ds)
  case (Cons b ds)
  have b: "unat b < 256" using unsigned_less[of b] by simp
  have "int (unat b div 16) * 16 + int (unat b mod 16) = int (unat b)"
    by (metis div_mult_mod_eq of_nat_add of_nat_mult of_nat_numeral)
  then have "word_of_int (int (unat b div 16) * 16 + int (unat b mod 16)) = b" by (metis of_int_of_nat_eq of_nat_unat ucast_id)
  then show ?case using Cons b by (simp add: hex_def hex_digit_val)
qed (simp add: hex_def)

lemma length_hex: "length (hex ds) = 2 * length ds"
  by (induction ds) (auto simp: hex_def)

lemma ParseSha1_hex: "length d = 20 \<Longrightarrow> ParseSha1 (hex d) = Some d"
  by (simp add: ParseSha1_def SHA_DIGEST_SIZE_def length_hex hex_bytes_hex)



lemma hex_bytes_length: "hex_bytes s = Some d \<Longrightarrow> 2 * length d = length s"
  by (induction s arbitrary: d rule: hex_bytes.induct) (auto split: option.splits)

lemma ParseSha1_length: "ParseSha1 s = Some d \<Longrightarrow> length d = 20"
  using hex_bytes_length[of s d] by (auto simp: ParseSha1_def SHA_DIGEST_SIZE_def split: if_splits)

lemma memcmp_digest: "length a = 20 \<Longrightarrow> length b = 20 \<Longrightarrow> memcmp a b SHA_DIGEST_SIZE = 0 \<longleftrightarrow> a = b"
  using memcmp_zero[of a b] by (simp add: SHA_DIGEST_SIZE_def)

section \<open>System calls\<close>

lemma holds_cong: "files w p = files w' p \<Longrightarrow> holds w p d = holds w' p d"
  by (simp add: holds_def)

lemma plain_cong: "files w p = files w' p \<Longrightarrow> plain w p = plain w' p"
  by (simp add: plain_def)

lemma chmod_files: "sys_chmod E p m w = (ok, w') \<Longrightarrow>
    (\<forall>q. q \<noteq> p \<longrightarrow> files w' q = files w q) \<and> (\<forall>d. holds w p d \<longrightarrow> holds w' p d)"
  by (auto simp: sys_chmod_def holds_def split: option.splits if_splits)

lemma chown_files: "sys_chown E p u g w = (ok, w') \<Longrightarrow>
    (\<forall>q. q \<noteq> p \<longrightarrow> files w' q = files w q) \<and> (\<forall>d. holds w p d \<longrightarrow> holds w' p d)"
  by (auto simp: sys_chown_def holds_def split: option.splits if_splits)

lemma open_files: "sys_open_trunc E p w = (ok, w') \<Longrightarrow>
    (\<forall>q. q \<noteq> p \<longrightarrow> files w' q = files w q) \<and> (ok \<longrightarrow> plain w p \<longrightarrow> holds w' p []) \<and> (plain w p \<longrightarrow> plain w' p)
    \<and> (\<not> ok \<longrightarrow> files w' = files w)"
  by (auto simp: sys_open_trunc_def holds_def plain_def split: option.splits if_splits)

lemma put_fd_files: "(\<forall>q. q \<noteq> p \<longrightarrow> files (put_fd p f w) q = files w q)
    \<and> (holds w p [] \<longrightarrow> holds (put_fd p f w) p (written_data f)) \<and> (plain w p \<longrightarrow> plain (put_fd p f w) p)"
  by (auto simp: put_fd_def holds_def plain_def store_def)

lemma unlink_files: "q \<noteq> p \<Longrightarrow> files (sys_unlink E p w) q = files w q"
  by (simp add: sys_unlink_def)

lemma unlink_other: "files (sys_unlink E p w) q = files w q \<or> (q = p \<and> files (sys_unlink E p w) q = None)"
  by (simp add: sys_unlink_def)

lemma unlink_plain: "plain w q \<Longrightarrow> plain (sys_unlink E p w) q"
  using unlink_other[of E p w q] by (auto simp: plain_def)

lemma rename_files: "sys_rename E p t w = (ok, w') \<Longrightarrow> p \<noteq> t \<Longrightarrow>
    (\<forall>q. q \<noteq> p \<longrightarrow> q \<noteq> t \<longrightarrow> files w' q = files w q) \<and> (ok \<longrightarrow> files w' t = files w p)
    \<and> (\<not> ok \<longrightarrow> files w' = files w)"
  by (auto simp: sys_rename_def split: option.splits if_splits)

lemma fd_of_written [simp]: "written_data (fd_of w) = []"
  by (simp add: fd_of_def)

section \<open>Loading\<close>

lemma read_part_files: "read_part E r n w = Inr (d, r', w') \<Longrightarrow> files w' = files w"
  by (auto simp: read_part_def Let_def split: reader.splits)

text \<open>One round of the loop: what it reads, and how it goes on.\<close>

lemma try_sizes_Cons:
  assumes "try_sizes E ((sz, dg) # ps) r data ctx w = Inr (res, r', data', ctx', w')" "sha_stream E"
  shows "\<exists>d r1 w1. files w1 = files w
    \<and> (\<forall>rest. r = R_EMMC rest \<longrightarrow> (\<exists>rest1. r1 = R_EMMC rest1 \<and> rest = d @ rest1))
    \<and> (res = None \<and> w' = w1
       \<or> (\<exists>str parsed. dg = Some str \<and> ParseSha1 str = Some parsed \<and> length d = unat (sz - of_nat (length data))
            \<and> (if memcmp (SHA_final E (SHA_update E ctx d)) parsed SHA_DIGEST_SIZE = 0
               then res = Some True \<and> r' = r1 \<and> data' = data @ d \<and> ctx' = SHA_update E ctx d \<and> w' = w1
               else try_sizes E ps r1 (data @ d) (SHA_update E ctx d) w1 = Inr (res, r', data', ctx', w'))))"
proof -
  define nxt where "nxt = uint (sz - of_nat (length data))"
  note un = assms(1)[unfolded try_sizes.simps prod.case Let_def, folded nxt_def]
  obtain got r1 w1 where g: "(if nxt > 0 then read_part E r nxt w else Inr (Some [], r, w)) = Inr (got, r1, w1)"
    using un by auto
  have f: "files w1 = files w" using g read_part_files[of E r nxt w] by (auto split: if_splits)
  show ?thesis
  proof (cases got)
    case None
    then have "res = None" "w' = w1" using un g by simp_all
    moreover have "\<forall>rest. r = R_EMMC rest \<longrightarrow> (\<exists>rest1. r = R_EMMC rest1 \<and> rest = [] @ rest1)" by simp
    ultimately show ?thesis using f by (metis (no_types))
  next
    case (Some d)
    have e: "\<exists>rest1. r1 = R_EMMC rest1 \<and> rest = d @ rest1" if "r = R_EMMC rest" for rest
      using g that Some by (auto simp: read_part_def Let_def split: if_splits)
    have u: "(if nxt > 0 then SHA_update E ctx d else ctx) = SHA_update E ctx d" if "int (length d) = nxt"
      using that assms(2) by (auto simp: sha_stream_def)
    have "res = None \<and> w' = w1 \<or> (\<exists>str parsed. dg = Some str \<and> ParseSha1 str = Some parsed \<and> length d = unat (sz - of_nat (length data))
            \<and> (if memcmp (SHA_final E (SHA_update E ctx d)) parsed SHA_DIGEST_SIZE = 0
               then res = Some True \<and> r' = r1 \<and> data' = data @ d \<and> ctx' = SHA_update E ctx d \<and> w' = w1
               else try_sizes E ps r1 (data @ d) (SHA_update E ctx d) w1 = Inr (res, r', data', ctx', w')))"
    proof (cases "int (length d) = nxt")
      case True
      then have len: "length d = unat (sz - of_nat (length data))"
        unfolding nxt_def by (metis nat_int unat_eq_nat_uint)
      show ?thesis
        using un g Some True u[OF True] len
        by (simp split: option.splits if_splits) blast+
    next
      case False
      then show ?thesis using un g Some by simp
    qed
    then show ?thesis using f e by blast
  qed
qed

lemma try_sizes_files:
  "sha_stream E \<Longrightarrow> try_sizes E ps r data ctx w = Inr (res, r', data', ctx', w') \<Longrightarrow> files w' = files w"
proof (induction ps arbitrary: r data ctx w)
  case (Cons p ps)
  obtain sz dg where p: "p = (sz, dg)" by (cases p)
  then show ?case
    using try_sizes_Cons[of E sz dg ps r data ctx w res r' data' ctx' w'] Cons.prems
      Cons.IH[OF Cons.prems(1)] by (auto split: if_splits)
qed simp

lemma scan_mtd_files: "scan_mtd E w = Inr w' \<Longrightarrow> files w' = files w"
  by (auto simp: scan_mtd_def split: if_splits)

lemma open_part_files: "open_part E mtd pt w = Inr (r, w') \<Longrightarrow> files w' = files w"
proof -
  assume a: "open_part E mtd pt w = Inr (r, w')"
  show ?thesis
  proof (cases mtd)
    case True
    then obtain w1 p where w1: "scan_mtd E w = Inr w1" and p: "find_mtd (mtd_state w1) pt = Inr p"
      using a by (auto simp: open_part_def)
    have "files w' = files w1" using a True w1 p by (cases p) (auto simp: open_part_def)
    then show ?thesis using scan_mtd_files[OF w1] by simp
  next
    case False
    then show ?thesis using a files_stat[of E "the pt" w]
      by (cases pt) (auto simp: open_part_def simp del: files_stat split: prod.splits)
  qed
qed

lemma close_part_files [simp]: "files (close_part r w) = files w"
  by (simp add: close_part_def split: reader.splits)

lemma LoadPartition_cases:
  assumes "LoadPartitionContents E name file w = Inr ((rc, file'), w')"
  shows "(rc = - 1 \<and> (w' = w \<or> (\<exists>m pt. open_part E m pt w = Inr (None, w'))))
    \<or> (\<exists>magic rest m pt ps r w1 res r2 data ctx w2.
         tokens name = magic # rest \<and> read_pairs ((length (List.filter (\<lambda>c. c = CHR '':'') name) - 1) div 2) (drop 1 rest) = Inr (Some ps)
       \<and> open_part E m pt w = Inr (Some r, w1)
       \<and> try_sizes E (map ((!) ps) (qsort (compare_size_indices (map fst ps)) [0..<length ps])) r [] (SHA_init E) w1
           = Inr (res, r2, data, ctx, w2)
       \<and> (if res = Some True
          then rc = 0 \<and> file' = \<lparr>sha1 = SHA_final E ctx, fc_data = Valid data, fc_size = int (length data),
                 st_mode = 420, st_uid = 0, st_gid = 0\<rparr> \<and> w' = close_part r2 w2
          else rc = - 1 \<and> fc_data file' = Null \<and> (w' = w2 \<or> w' = close_part r2 w2)))"
proof -
  obtain magic rest where t: "tokens name = magic # rest"
    using assms by (auto simp: LoadPartitionContents_def split: list.splits)
  define pt where "pt = (case rest of [] \<Rightarrow> None | p # _ \<Rightarrow> Some p)"
  define n where "n = (length (List.filter (\<lambda>c. c = CHR '':'') name) - 1) div 2"
  note un = assms[unfolded LoadPartitionContents_def Let_def t list.case, folded pt_def n_def]
  show ?thesis
  proof (cases "magic \<noteq> ''MTD'' \<and> magic \<noteq> ''EMMC''")
    case True
    then show ?thesis using un by simp
  next
    case False
    then obtain q where q: "read_pairs n (drop 1 rest) = Inr q" using un by (auto split: if_splits)
    show ?thesis
    proof (cases q)
      case None
      then show ?thesis using un q False by (simp split: if_splits)
    next
      case (Some ps)
      obtain ro w1 where o: "open_part E (magic = ''MTD'') pt w = Inr (ro, w1)"
        using un q Some False by (auto split: if_splits)
      show ?thesis
      proof (cases ro)
        case None
        then have "rc = - 1" "w' = w1" using un q Some False o by (auto split: if_splits)
        then show ?thesis using o None by blast
      next
        case r: (Some r)
        obtain res r2 data ctx w2 where
          ts: "try_sizes E (map ((!) ps) (qsort (compare_size_indices (map fst ps)) [0..<length ps])) r [] (SHA_init E) w1
                 = Inr (res, r2, data, ctx, w2)"
          using un q Some False o r by (auto split: if_splits)
        have fin: "if res = Some True
          then rc = 0 \<and> file' = \<lparr>sha1 = SHA_final E ctx, fc_data = Valid data, fc_size = int (length data),
                 st_mode = 420, st_uid = 0, st_gid = 0\<rparr> \<and> w' = close_part r2 w2
          else rc = - 1 \<and> fc_data file' = Null \<and> (w' = w2 \<or> w' = close_part r2 w2)"
          using un q Some False o r ts by (auto split: if_splits option.splits)
        show ?thesis using t q[unfolded n_def] Some o r ts fin by blast
      qed
    qed
  qed
qed

lemma LoadPartition_files:
  assumes "sha_stream E" "LoadPartitionContents E name file w = Inr ((rc, file'), w')"
  shows "files w' = files w"
  using LoadPartition_cases[OF assms(2)] open_part_files[of E _ _ w] try_sizes_files[OF assms(1)]
  by (metis close_part_files)

text \<open>Loading a file: nothing changes, and what is loaded is what the file holds.\<close>

lemma LoadFile_spec:
  assumes "sha_stream E" "LoadFileContents E name file w = Inr ((rc, file'), w')"
  shows "files w' = files w"
    and "\<not> is_partition name \<Longrightarrow> (rc = 0 \<and> (\<exists>d. holds w name d \<and> fc_data file' = Valid d \<and> fc_size file' = int (length d)
              \<and> sha1 file' = SHA E d)) \<or> (rc = - 1 \<and> fc_data file' = Null)"
proof -
  obtain st w1 where s: "sys_stat E name w = (st, w1)" by (cases "sys_stat E name w")
  have f1: "files w1 = files w" using files_stat[of E name w] s by simp
  have st: "files w name = Some f" if "st = Some f" for f
    using s that by (auto simp: sys_stat_def split: if_splits)
  show "files w' = files w"
    using assms(2) s f1 LoadPartition_files[OF assms(1), of name _ w]
    by (auto simp: LoadFileContents_def Let_def split: if_splits option.splits)
  show "\<not> is_partition name \<Longrightarrow> (rc = 0 \<and> (\<exists>d. holds w name d \<and> fc_data file' = Valid d \<and> fc_size file' = int (length d)
              \<and> sha1 file' = SHA E d)) \<or> (rc = - 1 \<and> fc_data file' = Null)"
    using assms(2) s st by (auto simp: LoadFileContents_def Let_def holds_def split: if_splits option.splits)
qed

section \<open>The steps of a patch\<close>

lemma loaded_cong: "files w p = files w' p \<Longrightarrow> loaded E strs p file w = loaded E strs p file w'"
  using holds_cong[of w p w'] by (simp add: loaded_def)

lemma cache_not_partition [simp]: "\<not> is_partition CACHE_TEMP_SOURCE"
  by (simp add: is_partition_def starts_def CACHE_TEMP_SOURCE_def)

lemma select_source_cases:
  assumes "sha_stream E" "select_source E S T th strs patches junk w = Inr (r, w')"
  shows "files w' = files w \<and>
    (case r of
       Inl rc \<Rightarrow> rc = 1 \<or> (rc = 0 \<and> (\<exists>fc w1. LoadFileContents E T junk w = Inr ((0, fc), w1)
                                      \<and> memcmp (sha1 fc) th SHA_DIGEST_SIZE = 0))
     | Inr st \<Rightarrow> \<not> made_copy st
         \<and> (if source_patch_value st \<noteq> None then \<not> is_partition S \<longrightarrow> loaded E strs S (source_file st) w
            else loaded E strs CACHE_TEMP_SOURCE (copy_file st) w))"
proof -
  obtain rc fc w1 where l1: "LoadFileContents E T junk w = Inr ((rc, fc), w1)"
    using assms(2) by (auto simp: select_source_def)
  note f1 = LoadFile_spec[OF assms(1) l1]
  show ?thesis
  proof (cases "rc = 0 \<and> memcmp (sha1 fc) th SHA_DIGEST_SIZE = 0")
    case True
    then show ?thesis using assms(2) l1 f1 by (auto simp: select_source_def)
  next
    case False
    define again where "again = (if fc_data fc = Null \<or> T \<noteq> S
              then bindR (LoadFileContents E S fc w1) (\<lambda>((_, file), w). Inr (file, w)) else Inr (fc, w1))"
    note un = assms(2)[unfolded select_source_def l1 bindR.simps prod.case if_not_P[OF False], folded again_def]
    then obtain fc2 w2 where l2: "again = Inr (fc2, w2)" by auto
    have f2: "files w2 = files w"
      using l2 f1 LoadFile_spec(1)[OF assms(1), of S fc w1] by (auto simp: again_def split: if_splits)
    have src: "\<exists>d. holds w S d \<and> fc_data fc2 = Valid d \<and> fc_size fc2 = int (length d) \<and> sha1 fc2 = SHA E d"
      if "\<not> is_partition S" "fc_data fc2 \<noteq> Null"
      using l2 that f1(2) LoadFile_spec(2)[OF assms(1), of S fc w1] holds_cong[of w1 S w, OF fun_cong[OF f1(1)]]
      by (fastforce simp: again_def split: if_splits)
    define use where "use = (if fc_data fc2 \<noteq> Null then FindMatchingPatch (sha1 fc2) strs else - 1)"
    note un2 = un[unfolded l2 bindR.simps prod.case Let_def, folded use_def]
    show ?thesis
    proof (cases "use \<ge> 0")
      case True
      then have "fc_data fc2 \<noteq> Null" by (auto simp: use_def)
      then have "\<not> is_partition S \<longrightarrow> loaded E strs S fc2 w"
        using src True by (auto simp: use_def loaded_def matches_def)
      then show ?thesis using un2 True f2 by auto
    next
      case no: False
      obtain rc3 fc3 w3 where l3: "LoadFileContents E CACHE_TEMP_SOURCE junk w2 = Inr ((rc3, fc3), w3)"
        using un2 no by auto
      note f3 = LoadFile_spec[OF assms(1) l3]
      show ?thesis
      proof (cases "rc3 < 0 \<or> FindMatchingPatch (sha1 fc3) strs < 0")
        case True
        then show ?thesis using un2 no l3 f3(1) f2 by (auto split: if_splits)
      next
        case ok: False
        then have "loaded E strs CACHE_TEMP_SOURCE fc3 w"
          using f3(2) holds_cong[of w2 CACHE_TEMP_SOURCE w, OF fun_cong[OF f2]] by (auto simp: loaded_def matches_def)
        then show ?thesis using un2 no l3 f3(1) f2 ok by auto
      qed
    qed
  qed
qed

text \<open>Saving the source: only the copy and expendable files change.\<close>

lemma SaveFile_spec:
  assumes "SaveFileContents E p fc w = Inr (rc, w')" "plain w p"
  shows "\<forall>q. q \<noteq> p \<longrightarrow> files w' q = files w q" and "plain w' p"
    and "fc_data fc = Valid d \<Longrightarrow> fc_size fc = int (length d) \<Longrightarrow> \<not> rc < 0 \<Longrightarrow> holds w' p d"
proof -
  obtain ok w1 where o: "sys_open_trunc E p w = (ok, w1)" by (cases "sys_open_trunc E p w")
  have goal: "(\<forall>q. q \<noteq> p \<longrightarrow> files w' q = files w q) \<and> plain w' p
    \<and> (fc_data fc = Valid d \<longrightarrow> fc_size fc = int (length d) \<longrightarrow> \<not> rc < 0 \<longrightarrow> holds w' p d)"
  proof (cases ok)
    case False
    then show ?thesis using assms o open_files[OF o] by (auto simp: SaveFileContents_def plain_def)
  next
    case True
    then obtain n fd where sk: "(case fc_data fc of
                 Valid d \<Rightarrow> Inr (FileSink (wr_count E) d (fd_of w1))
               | Null \<Rightarrow> Inr (0, fd_of w1)
               | Freed \<Rightarrow> if fc_size fc > 0 then Inl UseAfterFree else Inr (0, fd_of w1)) = Inr (n, fd)"
      using assms(1) o by (auto simp: SaveFileContents_def simp del: ptr.case)
    define w2 where "w2 = put_fd p fd w1"
    have w2: "\<forall>q. q \<noteq> p \<longrightarrow> files w2 q = files w q" "plain w2 p" "holds w2 p (written_data fd)"
      using open_files[OF o] put_fd_files[of p fd w1] True assms(2) by (auto simp: w2_def)
    have d: "written_data fd = d" if "fc_data fc = Valid d" "fc_size fc = int (length d)" "n = fc_size fc"
      using sk that filesink.sink_full[of "wr_count E" d "fd_of w1" fd] by auto
    note un = assms(1)[unfolded SaveFileContents_def o prod.case sk bindR.simps Let_def, folded w2_def]
    show ?thesis
    proof (cases "n = fc_size fc")
      case False
      then show ?thesis using un True w2 by auto
    next
      case eq: True
      obtain ok3 w3 where m: "sys_chmod E p (st_mode fc) w2 = (ok3, w3)" by (cases "sys_chmod E p (st_mode fc) w2")
      obtain ok4 w4 where c: "sys_chown E p (st_uid fc) (st_gid fc) w3 = (ok4, w4)"
        by (cases "sys_chown E p (st_uid fc) (st_gid fc) w3")
      have w': "w' = w3 \<and> rc < 0 \<or> w' = w4" using un True eq m c by (auto split: if_splits)
      have "plain w3 p" "plain w4 p"
        using m c w2(2) by (auto simp: plain_def sys_chmod_def sys_chown_def split: option.splits if_splits)
      then show ?thesis using w' d eq w2 chmod_files[OF m] chown_files[OF c] by metis
    qed
  qed
  show "\<forall>q. q \<noteq> p \<longrightarrow> files w' q = files w q" "plain w' p"
    and "fc_data fc = Valid d \<Longrightarrow> fc_size fc = int (length d) \<Longrightarrow> \<not> rc < 0 \<Longrightarrow> holds w' p d"
    using goal by blast+
qed

lemma back_up_spec:
  assumes "steady E" "back_up E fc w = Inr (ok, w')" "plain w CACHE_TEMP_SOURCE"
  shows "\<And>q. take 7 q \<noteq> ''/cache/'' \<Longrightarrow> files w' q = files w q" and "plain w' CACHE_TEMP_SOURCE"
    and "fc_data fc = Valid d \<Longrightarrow> fc_size fc = int (length d) \<Longrightarrow> ok \<Longrightarrow> holds w' CACHE_TEMP_SOURCE d"
proof -
  obtain r w1 where m: "MakeFreeSpaceOnCache E (word_of_int (fc_size fc)) w = (r, w1)"
    by (cases "MakeFreeSpaceOnCache E (word_of_int (fc_size fc)) w")
  have f1: "files w1 q = files w q \<or> (files w1 q = None \<and> expendable (files w) q)" for q
    using MakeFreeSpace_files[OF assms(1) m, of q] by blast
  have p1: "plain w1 CACHE_TEMP_SOURCE" using f1[of CACHE_TEMP_SOURCE] assms(3) by (auto simp: plain_def)
  have o: "files w1 q = files w q" if "take 7 q \<noteq> ''/cache/''" for q
    using f1[of q] that by (auto simp: expendable_def)
  have c: "q \<noteq> CACHE_TEMP_SOURCE" if "take 7 q \<noteq> ''/cache/''" for q
    using that by (auto simp: CACHE_TEMP_SOURCE_def)
  show "\<And>q. take 7 q \<noteq> ''/cache/'' \<Longrightarrow> files w' q = files w q" "plain w' CACHE_TEMP_SOURCE"
    using assms(2) m o p1 c SaveFile_spec(1,2)[of E CACHE_TEMP_SOURCE fc w1 _ w']
    by (auto simp: back_up_def split: if_splits)
  show "fc_data fc = Valid d \<Longrightarrow> fc_size fc = int (length d) \<Longrightarrow> ok \<Longrightarrow> holds w' CACHE_TEMP_SOURCE d"
    using assms(2) m p1 SaveFile_spec(3)[of E CACHE_TEMP_SOURCE fc w1 _ w' d]
    by (auto simp: back_up_def split: if_splits)
qed

lemma enough_space_files: "enough_space E fs ts n w = (b, w') \<Longrightarrow> files w' = files w"
  using files_free[of E fs w] by (auto simp: enough_space_def simp del: files_free split: if_splits prod.splits)

lemma selected_available: "selected E strs S st w \<Longrightarrow> \<not> is_partition S \<Longrightarrow> available E strs S w"
  by (auto simp: selected_def available_def loaded_def split: if_splits)

lemma available_cong:
  "files w S = files w' S \<Longrightarrow> files w CACHE_TEMP_SOURCE = files w' CACHE_TEMP_SOURCE \<Longrightarrow>
   available E strs S w = available E strs S w'"
  using holds_cong[of w S w'] holds_cong[of w CACHE_TEMP_SOURCE w'] by (simp add: available_def)

lemma selected_cong:
  "files w S = files w' S \<Longrightarrow> files w CACHE_TEMP_SOURCE = files w' CACHE_TEMP_SOURCE \<Longrightarrow>
   selected E strs S st w = selected E strs S st w'"
  using loaded_cong[of w S w' E strs] loaded_cong[of w CACHE_TEMP_SOURCE w' E strs] by (simp add: selected_def)

lemma prepare_spec:
  assumes "steady E" "\<not> is_partition T" "prepare E S T ts fs n st w = Inr (r, w')" "plain w CACHE_TEMP_SOURCE"
    and "selected E strs S st w" "take 7 S \<noteq> ''/cache/''"
  shows "plain w' CACHE_TEMP_SOURCE"
    and "\<And>q. q \<noteq> S \<Longrightarrow> take 7 q \<noteq> ''/cache/'' \<Longrightarrow> files w' q = files w q"
    and "\<not> is_partition S \<Longrightarrow> available E strs S w'"
    and "case r of Inl rc \<Rightarrow> rc = 1
         | Inr (enough, st') \<Rightarrow> in_use st' = in_use st \<and> (enough \<longrightarrow> n > 0 \<and> st' = st \<and> files w' = files w)"
proof -
  obtain en w1 where e: "enough_space E fs ts n w = (en, w1)" by (cases "enough_space E fs ts n w")
  have f1: "files w1 = files w" by (rule enough_space_files[OF e])
  have pos: "n > 0" if en using e that by (auto simp: enough_space_def split: if_splits)
  have sel1: "selected E strs S st w1" using assms(5) f1 selected_cong[of w S w1 E strs st] by simp
  have pl1: "plain w1 CACHE_TEMP_SOURCE" using assms(4) f1 by (simp add: plain_def)
  note un = assms(3)[unfolded prepare_def e prod.case] 
  have "plain w' CACHE_TEMP_SOURCE \<and> (\<forall>q. q \<noteq> S \<longrightarrow> take 7 q \<noteq> ''/cache/'' \<longrightarrow> files w' q = files w q)
    \<and> (\<not> is_partition S \<longrightarrow> available E strs S w')
    \<and> (case r of Inl rc \<Rightarrow> rc = 1
         | Inr (enough, st') \<Rightarrow> in_use st' = in_use st \<and> (enough \<longrightarrow> n > 0 \<and> st' = st \<and> files w' = files w))"
  proof (cases "\<not> en \<and> source_patch_value st \<noteq> None \<and> \<not> is_partition S")
    case False
    then have "w' = w1" "case r of Inl rc \<Rightarrow> rc = 1
         | Inr (enough, st') \<Rightarrow> in_use st' = in_use st \<and> (enough \<longrightarrow> en \<and> st' = st)"
      using un assms(2) by (auto split: if_splits)
    then show ?thesis using f1 pl1 sel1 selected_available[of E strs S st w1] pos by (auto split: sum.splits)
  next
    case True
    then obtain ok w2 where b: "back_up E (source_file st) w1 = Inr (ok, w2)" using un assms(2) by auto
    note bs = back_up_spec[OF assms(1) b pl1]
    obtain d where d: "matches E strs d" "holds w1 S d" "fc_data (source_file st) = Valid d"
        "fc_size (source_file st) = int (length d)"
      using sel1 True by (auto simp: selected_def loaded_def)
    define w3 where "w3 = snd (FreeSpaceForFile E fs (sys_unlink E S w2))"
    have w3: "files w3 = files (sys_unlink E S w2)" by (simp add: w3_def)
    have ne: "S \<noteq> CACHE_TEMP_SOURCE" using assms(6) by (auto simp: CACHE_TEMP_SOURCE_def)
    have un2: "if ok then w' = w3 \<and> r = Inr (False, st\<lparr>made_copy := True\<rparr>) else w' = w2 \<and> r = Inl 1"
      using un True assms(2) b by (auto simp: w3_def split: if_splits)
    have iu: "in_use (st\<lparr>made_copy := True\<rparr>) = in_use st" by (simp add: in_use_def)
    show ?thesis
    proof (cases ok)
      case ok: True
      have o: "files w3 q = files w2 q" if "q \<noteq> S" for q using unlink_files[OF that] w3 by simp
      have "plain w3 CACHE_TEMP_SOURCE" using bs(2) o[of CACHE_TEMP_SOURCE] ne by (simp add: plain_def)
      moreover have "available E strs S w3"
        using bs(3)[OF d(3,4) ok] d(1) ne o[of CACHE_TEMP_SOURCE] by (auto simp: available_def holds_def)
      ultimately show ?thesis using un2 ok bs(1) f1 iu o by simp
    next
      case no: False
      have "available E strs S w2" using bs(1)[OF assms(6)] d(1,2) by (auto simp: available_def holds_def)
      then show ?thesis using un2 no bs(1,2) f1 by simp
    qed
  qed
  then show "plain w' CACHE_TEMP_SOURCE"
    and "\<And>q. q \<noteq> S \<Longrightarrow> take 7 q \<noteq> ''/cache/'' \<Longrightarrow> files w' q = files w q"
    and "\<not> is_partition S \<Longrightarrow> available E strs S w'"
    and "case r of Inl rc \<Rightarrow> rc = 1
         | Inr (enough, st') \<Rightarrow> in_use st' = in_use st \<and> (enough \<longrightarrow> n > 0 \<and> st' = st \<and> files w' = files w)"
    by blast+
qed

text \<open>The attempt: what was written is what was hashed.\<close>

lemma patch_into_emits:
  assumes "sha_stream E" "whole_writes wr" "patch_into E (FileSink wr) sz data src k = Inr (Some (0, k', ctx))"
  shows "\<exists>d. emits E written_data d k (SHA_init E) k' ctx"
proof -
  obtain patch where p: "(case data of None \<Rightarrow> Inl NullDeref | Some d \<Rightarrow> region d 0 sz) = Inr patch" "\<not> sz < 8"
    using assms(3) by (auto simp: patch_into_def split: if_splits)
  obtain old where o: "deref (fc_data src) = Inr old"
    using assms(3) p by (auto simp: patch_into_def split: if_splits)
  have "ApplyBSDiffPatch E (FileSink wr) old 0 (fc_size src) patch 0 k (SHA_init E) = Inr (0, k', ctx)
      \<or> ApplyImagePatch E (FileSink wr) old patch k (SHA_init E) = Inr (0, k', ctx)"
    using assms(3) p o by (auto simp: patch_into_def split: if_splits)
  then show ?thesis
    using filesink.bsdiff_emits[of E wr old 0 "fc_size src" patch 0 k "SHA_init E" k' ctx]
      atomic_sink.image_emits[OF FileSink_atomic_sink[OF assms(2)] assms(1), of old patch k "SHA_init E" k' ctx] by blast
qed

lemma attempt_spec:
  assumes "\<not> is_partition T" "attempt E T ts st w = Inr (r, w')" "plain w (T @ ''.patch'')"
  shows "\<And>q. q \<noteq> T @ ''.patch'' \<Longrightarrow> files w' q = files w q" and "plain w' (T @ ''.patch'')"
    and "case r of Inl rc \<Rightarrow> rc = 1
         | Inr (rc, po, ctx) \<Rightarrow> po = ToFile (T @ ''.patch'')
             \<and> (rc = 0 \<longrightarrow> sha_stream E \<longrightarrow> whole_writes (wr_count E) \<longrightarrow>
                  (\<exists>d. holds w' (T @ ''.patch'') d \<and> SHA_final E ctx = SHA E d))"
proof -
  define p where "p = T @ ''.patch''"
  obtain src v where iu: "in_use st = (src, v)" by (cases "in_use st")
  obtain ok w1 where o: "sys_open_trunc E p w = (ok, w1)" by (cases "sys_open_trunc E p w")
  note un = assms(2)[unfolded attempt_def iu prod.case if_not_P[OF assms(1)] Let_def, folded p_def]
  have "(\<forall>q. q \<noteq> p \<longrightarrow> files w' q = files w q) \<and> plain w' p
    \<and> (case r of Inl rc \<Rightarrow> rc = 1
         | Inr (rc, po, ctx) \<Rightarrow> po = ToFile p
             \<and> (rc = 0 \<longrightarrow> sha_stream E \<longrightarrow> whole_writes (wr_count E) \<longrightarrow>
                  (\<exists>d. holds w' p d \<and> SHA_final E ctx = SHA E d)))"
  proof (cases "\<exists>sz data. v = Some (VBlob sz data) \<and> ok")
    case False
    then show ?thesis using un o assms(3) open_files[OF o]
      by (auto simp: p_def split: option.splits Value.splits)
  next
    case True
    then obtain sz data where v: "v = Some (VBlob sz data)" and ok by blast
    then obtain pr where pr: "patch_into E (FileSink (wr_count E)) sz data src (fd_of w1) = Inr pr"
      using un o by auto
    note of = open_files[OF o]
    show ?thesis
    proof (cases pr)
      case None
      then show ?thesis using un o v \<open>ok\<close> pr of assms(3) by (auto simp: p_def)
    next
      case (Some x)
      obtain rc fd ctx where x: "x = (rc, fd, ctx)" by (cases x)
      have r: "r = Inr (rc, ToFile p, ctx)" "w' = put_fd p fd w1" using un o v \<open>ok\<close> pr Some x by auto
      have "\<exists>d. holds w' p d \<and> SHA_final E ctx = SHA E d"
        if "rc = 0" "sha_stream E" "whole_writes (wr_count E)"
        using patch_into_emits[of E "wr_count E" sz data src "fd_of w1" fd ctx] that pr Some x
          put_fd_files[of p fd w1] of assms(3) \<open>ok\<close> by (auto simp: r emits_def SHA_def p_def)
      then show ?thesis using r of put_fd_files[of p fd w1] assms(3) by (auto simp: p_def)
    qed
  qed
  then show "\<And>q. q \<noteq> T @ ''.patch'' \<Longrightarrow> files w' q = files w q" and "plain w' (T @ ''.patch'')"
    and "case r of Inl rc \<Rightarrow> rc = 1
         | Inr (rc, po, ctx) \<Rightarrow> po = ToFile (T @ ''.patch'')
             \<and> (rc = 0 \<longrightarrow> sha_stream E \<longrightarrow> whole_writes (wr_count E) \<longrightarrow>
                  (\<exists>d. holds w' (T @ ''.patch'') d \<and> SHA_final E ctx = SHA E d))"
    unfolding p_def by blast+
qed

lemma patch_file_name: "take 7 (T @ ''.patch'') = ''/cache/'' \<Longrightarrow> take 7 T = ''/cache/''"
proof (rule ccontr)
  assume a: "take 7 (T @ ''.patch'') = ''/cache/''" "take 7 T \<noteq> ''/cache/''"
  then have "length T < 7" by (cases "length T < 7") auto
  then obtain m where "7 - length T = Suc m" by (cases "7 - length T") auto
  then have "CHR ''.'' \<in> set (take 7 (T @ ''.patch''))" by simp
  then have "CHR ''.'' \<in> set ''/cache/''" by (simp only: a(1))
  then show False by simp
qed

lemma patch_loop_spec:
  assumes "steady E" "\<not> is_partition T" "take 7 S \<noteq> ''/cache/''" "take 7 T \<noteq> ''/cache/''" "S \<noteq> T @ ''.patch''"
  shows "patch_loop E S T ts fs n st w = Inr (r, w') \<Longrightarrow> 0 \<le> n \<Longrightarrow> plain w CACHE_TEMP_SOURCE \<Longrightarrow> plain w (T @ ''.patch'')
    \<Longrightarrow> selected E strs S st w \<Longrightarrow>
    (\<forall>q. q \<noteq> S \<longrightarrow> q \<noteq> T @ ''.patch'' \<longrightarrow> take 7 q \<noteq> ''/cache/'' \<longrightarrow> files w' q = files w q)
    \<and> (\<not> is_partition S \<longrightarrow> available E strs S w')
    \<and> (case r of Inl rc \<Rightarrow> rc = 1
         | Inr (po, ctx, st') \<Rightarrow> po = ToFile (T @ ''.patch'')
             \<and> (sha_stream E \<longrightarrow> whole_writes (wr_count E) \<longrightarrow>
                  (\<exists>d. holds w' (T @ ''.patch'') d \<and> SHA_final E ctx = SHA E d)))"
proof (induction "nat n" arbitrary: n st w)
  define p where "p = T @ ''.patch''"
  have pc: "take 7 p \<noteq> ''/cache/''" using patch_file_name assms(4) by (auto simp: p_def)
  have pn: "p \<noteq> CACHE_TEMP_SOURCE" "p \<noteq> S" using pc assms(5) by (auto simp: p_def CACHE_TEMP_SOURCE_def)
  have main: "(\<forall>q. q \<noteq> S \<longrightarrow> q \<noteq> p \<longrightarrow> take 7 q \<noteq> ''/cache/'' \<longrightarrow> files w' q = files w q)
    \<and> (\<not> is_partition S \<longrightarrow> available E strs S w')
    \<and> (case r of Inl rc \<Rightarrow> rc = 1
         | Inr (po, ctx, st') \<Rightarrow> po = ToFile p
             \<and> (sha_stream E \<longrightarrow> whole_writes (wr_count E) \<longrightarrow>
                  (\<exists>d. holds w' p d \<and> SHA_final E ctx = SHA E d)))"
    if prems: "patch_loop E S T ts fs n st w = Inr (r, w')" "0 \<le> n" "plain w CACHE_TEMP_SOURCE" "plain w p"
        "selected E strs S st w"
      and rec: "\<And>w2. n > 0 \<Longrightarrow> patch_loop E S T ts fs (n - 1) st w2 = Inr (r, w') \<Longrightarrow> plain w2 CACHE_TEMP_SOURCE \<Longrightarrow>
        plain w2 p \<Longrightarrow> selected E strs S st w2 \<Longrightarrow>
        (\<forall>q. q \<noteq> S \<longrightarrow> q \<noteq> p \<longrightarrow> take 7 q \<noteq> ''/cache/'' \<longrightarrow> files w' q = files w2 q)
    \<and> (\<not> is_partition S \<longrightarrow> available E strs S w')
    \<and> (case r of Inl rc \<Rightarrow> rc = 1
         | Inr (po, ctx, st') \<Rightarrow> po = ToFile p
             \<and> (sha_stream E \<longrightarrow> whole_writes (wr_count E) \<longrightarrow>
                  (\<exists>d. holds w' p d \<and> SHA_final E ctx = SHA E d)))"
    for n st w
  proof -
    obtain r1 w1 where pr: "prepare E S T ts fs n st w = Inr (r1, w1)"
      using prems(1) by (subst (asm) patch_loop.simps) auto
    note ps = prepare_spec[OF assms(1,2) pr prems(3,5) assms(3)]
    show ?thesis
    proof (cases r1)
      case (Inl rc)
      then show ?thesis using prems(1) pr ps by (subst (asm) patch_loop.simps) auto
    next
      case (Inr x)
      obtain en st1 where x: "x = (en, st1)" by (cases x)
      obtain r2 w2 where at: "attempt E T ts st1 w1 = Inr (r2, w2)"
        using prems(1) pr Inr x by (subst (asm) patch_loop.simps) auto
      have pl1: "plain w1 p" using ps(2)[OF pn(2) pc] prems(4) by (simp add: plain_def)
      note as = attempt_spec[OF assms(2) at pl1[unfolded p_def], folded p_def]
      have av: "\<not> is_partition S \<longrightarrow> available E strs S w2"
        using ps(3) as(1)[of S] as(1)[of CACHE_TEMP_SOURCE] pn available_cong[of w2 S w1 E strs] by metis
      have fr: "\<forall>q. q \<noteq> S \<longrightarrow> q \<noteq> p \<longrightarrow> take 7 q \<noteq> ''/cache/'' \<longrightarrow> files w2 q = files w q"
        using ps(2) as(1) by simp
      show ?thesis
      proof (cases r2)
        case (Inl rc)
        then show ?thesis using prems(1) pr Inr x at as(3) av fr by (subst (asm) patch_loop.simps) auto
      next
        case r2: (Inr y)
        obtain rc po ctx where y: "y = (rc, po, ctx)" by (cases y)
        have po: "po = ToFile p" using as(3) r2 y by simp
        note un = prems(1)[unfolded patch_loop.simps[of E S T ts fs n st w] pr Inr x at r2 y po bindR.simps prod.case sum.case
            patch_output.case Let_def]
        show ?thesis
        proof (cases "rc = 0 \<or> \<not> en")
          case True
          then show ?thesis using un as(3) r2 y av fr by (auto split: if_splits)
        next
          case False
          then have st1: "n > 0" "st1 = st" "files w1 = files w" using ps(4) Inr x by auto
          define w3 where "w3 = sys_unlink E p w2"
          have f3: "files w3 q = files w q" if "q \<noteq> p" for q
            using unlink_files[OF that, of E w2] as(1)[OF that] st1(3) by (simp add: w3_def)
          have l: "patch_loop E S T ts fs (n - 1) st w3 = Inr (r, w')"
            using un False st1 by (simp add: w3_def split: if_splits)
          have pl: "plain w3 CACHE_TEMP_SOURCE" "plain w3 p"
            using f3[of CACHE_TEMP_SOURCE] pn prems(3) as(2) unlink_plain[of w2 p E p] by (auto simp: plain_def w3_def)
          have "selected E strs S st w3"
            using prems(5) f3[of S] f3[of CACHE_TEMP_SOURCE] pn selected_cong[of w3 S w E strs st] by metis
          then show ?thesis using rec[OF st1(1) l pl] f3 by simp
        qed
      qed
    qed
  qed
  {
    case 0
    then show ?case unfolding p_def[symmetric] by (intro main[OF 0(2-6)[folded p_def]]) simp
  next
    case (Suc m)
    have m: "m = nat (n - 1)" "0 \<le> n - 1" using Suc.hyps(2) by auto
    show ?case
      unfolding p_def[symmetric]
      by (rule main[OF Suc.prems[folded p_def]]) (use Suc.hyps(1)[OF m(1) _ m(2), folded p_def] in blast)
  }
qed

lemma replace_target_spec:
  assumes "replace_target E p T src w = (ok, w')" "p \<noteq> T"
  shows "\<And>q. q \<noteq> p \<Longrightarrow> q \<noteq> T \<Longrightarrow> files w' q = files w q" and "\<not> ok \<Longrightarrow> q \<noteq> p \<Longrightarrow> files w' q = files w q"
    and "ok \<Longrightarrow> holds w p d \<Longrightarrow> holds w' T d"
proof -
  obtain o1 w1 where m: "sys_chmod E p (st_mode src) w = (o1, w1)" by (cases "sys_chmod E p (st_mode src) w")
  obtain o2 w2 where c: "sys_chown E p (st_uid src) (st_gid src) w1 = (o2, w2)"
    by (cases "sys_chown E p (st_uid src) (st_gid src) w1")
  obtain o3 w3 where n: "sys_rename E p T w2 = (o3, w3)" by (cases "sys_rename E p T w2")
  have un: "if o1 \<and> o2 then ok = o3 \<and> w' = w3 else \<not> ok \<and> (w' = w1 \<or> w' = w2)"
    using assms(1) m c n by (auto simp: replace_target_def split: if_splits)
  show "\<And>q. q \<noteq> p \<Longrightarrow> q \<noteq> T \<Longrightarrow> files w' q = files w q" "\<not> ok \<Longrightarrow> q \<noteq> p \<Longrightarrow> files w' q = files w q"
    using un chmod_files[OF m] chown_files[OF c] rename_files[OF n assms(2)] by (auto split: if_splits)
  show "ok \<Longrightarrow> holds w p d \<Longrightarrow> holds w' T d"
    using un chmod_files[OF m] chown_files[OF c] rename_files[OF n assms(2)]
    by (auto simp: holds_def split: if_splits)
qed

lemma applypatch_cases:
  assumes "steady E" "sha_stream E" "goal = (if target = ''-'' then source else target)" "file_names source goal w"
    and "applypatch E source target tstr ts strs patches junk w = Inr (rc, w')"
  shows "(rc = 1 \<and> (\<not> is_partition source \<longrightarrow> available E strs source w \<longrightarrow> available E strs source w')
           \<and> (source \<noteq> goal \<longrightarrow> files w' goal = files w goal))
    \<or> (rc = 0 \<and> (\<exists>th. ParseSha1 tstr = Some th
           \<and> ((files w' = files w \<and> (\<exists>fc w1. LoadFileContents E goal junk w = Inr ((0, fc), w1) \<and> memcmp (sha1 fc) th SHA_DIGEST_SIZE = 0))
             \<or> (sha_stream E \<longrightarrow> whole_writes (wr_count E) \<longrightarrow>
                  (\<exists>d. holds w' goal d \<and> memcmp (SHA E d) th SHA_DIGEST_SIZE = 0)))))"
proof -
  define p where "p = goal @ ''.patch''"
  note fn = assms(4)[unfolded file_names_def, folded p_def]
  have pc: "take 7 p \<noteq> ''/cache/''" using patch_file_name fn by (auto simp: p_def)
  have pn: "p \<noteq> CACHE_TEMP_SOURCE" "p \<noteq> source" "p \<noteq> goal" "goal \<noteq> CACHE_TEMP_SOURCE"
    using pc fn by (auto simp: p_def CACHE_TEMP_SOURCE_def)
  note un = assms(5)[unfolded applypatch_def Let_def, folded assms(3)]
  show ?thesis
  proof (cases "ParseSha1 tstr")
    case None
    then show ?thesis using un by auto
  next
    case (Some th)
    then obtain r1 w1 where s: "select_source E source goal th strs patches junk w = Inr (r1, w1)" using un by auto
    note sc = select_source_cases[OF assms(2) s]
    show ?thesis
    proof (cases r1)
      case (Inl rc1)
      then have "rc = rc1" "w' = w1" using un Some s by auto
      moreover have "available E strs source w = available E strs source w1"
        using sc available_cong[of w source w1 E strs] by simp
      ultimately show ?thesis using sc Inl Some by auto
    next
      case (Inr st)
      have sel: "selected E strs source st w1"
        using sc Inr selected_cong[of w source w1 E strs st] by (simp add: selected_def)
      obtain fs r2 w2 where l: "patch_loop E source goal ts fs 1 st w1 = Inr (r2, w2)"
        and un2: "(case r2 of Inl rc \<Rightarrow> Inr (rc, w2) | Inr (po, ctx, st) \<Rightarrow> finish_patch E goal th po ctx st w2) = Inr (rc, w')"
        using un Some s Inr by auto
      have pl: "plain w1 CACHE_TEMP_SOURCE" "plain w1 p" using sc fn by (auto simp: plain_def)
      have nm: "\<not> is_partition goal" "take 7 source \<noteq> ''/cache/''" "take 7 goal \<noteq> ''/cache/''" "source \<noteq> goal @ ''.patch''"
        using fn by (auto simp: p_def)
      note ls = patch_loop_spec[OF assms(1) nm l _ pl(1) pl(2)[unfolded p_def] sel, folded p_def, simplified zero_le_one]
      have gl: "source \<noteq> goal \<longrightarrow> files w2 goal = files w goal" using ls nm pn sc by simp
      show ?thesis
      proof (cases r2)
        case (Inl rc2)
        then show ?thesis using un2 ls gl by simp
      next
        case r2: (Inr x)
        obtain po ctx st2 where x: "x = (po, ctx, st2)" by (cases x)
        have po: "po = ToFile p" using ls r2 x by simp
        obtain ok w3 where rt: "replace_target E p goal (fst (in_use st2)) w2 = (ok, w3)"
          by (cases "replace_target E p goal (fst (in_use st2)) w2")
        note rs = replace_target_spec[OF rt pn(3)]
        have fin: "if memcmp (SHA_final E ctx) th SHA_DIGEST_SIZE \<noteq> 0 then rc = 1 \<and> w' = w2
            else if \<not> ok then rc = 1 \<and> w' = w3
            else rc = 0 \<and> (w' = w3 \<or> w' = sys_unlink E CACHE_TEMP_SOURCE w3)"
          using un2 r2 x po rt by (auto simp: finish_patch_def split: if_splits)
        have av3: "\<not> ok \<Longrightarrow> \<not> is_partition source \<Longrightarrow> available E strs source w3"
          using rs(2)[of source] rs(2)[of CACHE_TEMP_SOURCE] pn ls available_cong[of w3 source w2 E strs] by metis
        have "\<exists>d. holds w' goal d \<and> memcmp (SHA E d) th SHA_DIGEST_SIZE = 0"
          if ok: "memcmp (SHA_final E ctx) th SHA_DIGEST_SIZE = 0" "ok" "sha_stream E" "whole_writes (wr_count E)"
        proof -
          obtain d where d: "holds w2 p d" "SHA_final E ctx = SHA E d" using ls r2 x ok by auto
          have "holds w3 goal d" by (rule rs(3)[OF ok(2) d(1)])
          then have "holds w' goal d"
            using fin ok unlink_files[of goal CACHE_TEMP_SOURCE E w3] pn by (auto simp: holds_def)
          then show ?thesis using d(2) ok(1) by auto
        qed
        then have win: "rc = 0 \<Longrightarrow> ?thesis" using fin Some by (auto split: if_splits)
        have "rc \<noteq> 0 \<Longrightarrow> rc = 1 \<and> (w' = w2 \<or> (\<not> ok \<and> w' = w3))" using fin by (auto split: if_splits)
        then have "rc \<noteq> 0 \<Longrightarrow> ?thesis" using av3 rs(2)[of goal] gl pn ls by metis
        then show ?thesis using win by blast
      qed
    qed
  qed
qed

section \<open>Properties of a patch run\<close>


text \<open>
  C13: when a patch between files fails, whatever went wrong, it can be run again: if the source file or its
  saved copy held data that one of the patches applies to, one of them still does, although the source may
  have been deleted to make room; and a target different from the source is untouched.
\<close>

theorem applypatch_failure:
  assumes "steady E" "sha_stream E" "goal = (if target = ''-'' then source else target)" "file_names source goal w"
    and "\<not> is_partition source" "applypatch E source target tstr ts strs patches junk w = Inr (rc, w')" "rc \<noteq> 0"
  shows "rc = 1 \<and> (available E strs source w \<longrightarrow> available E strs source w')
    \<and> (source \<noteq> goal \<longrightarrow> files w' goal = files w goal)"
  using applypatch_cases[OF assms(1-4,6)] assms(5,7) by auto

lemma reliable_load:
  assumes "reliable E" "\<not> is_partition p"
  shows "\<exists>rc fc w1. LoadFileContents E p junk w = Inr ((rc, fc), w1) \<and> files w1 = files w \<and>
    (if files w p = None then rc = - 1 \<and> fc_data fc = Null
     else \<exists>d. holds w p d \<and> rc = 0 \<and> fc_data fc = Valid d \<and> fc_size fc = int (length d) \<and> sha1 fc = SHA E d)"
  using assms
  by (cases "files w p") (auto simp: LoadFileContents_def sys_stat_def reliable_def Let_def holds_def min_def antisym)

lemma holds_unique: "holds w p d \<Longrightarrow> holds w p d' \<Longrightarrow> d = d'"
  by (auto simp: holds_def)

lemma reliable_calls:
  assumes "reliable E"
  shows "\<exists>w1. sys_open_trunc E p w = (True, w1)"
    and "holds w p d \<Longrightarrow> \<exists>w1. sys_chmod E p m w = (True, w1)"
    and "holds w p d \<Longrightarrow> \<exists>w1. sys_chown E p u g w = (True, w1)"
    and "holds w p d \<Longrightarrow> \<exists>w1. sys_rename E p t w = (True, w1)"
  using assms by (auto simp: sys_open_trunc_def sys_chmod_def sys_chown_def sys_rename_def reliable_def holds_def)

lemma reliable_replace:
  assumes "reliable E" "holds w p d" "p \<noteq> T"
  shows "\<exists>w'. replace_target E p T src w = (True, w') \<and> holds w' T d \<and> (\<forall>q. q \<noteq> p \<longrightarrow> q \<noteq> T \<longrightarrow> files w' q = files w q)"
proof -
  obtain w1 where m: "sys_chmod E p (st_mode src) w = (True, w1)" using reliable_calls(2)[OF assms(1,2)] by blast
  then have h1: "holds w1 p d" using chmod_files[OF m] assms(2) by blast
  obtain w2 where c: "sys_chown E p (st_uid src) (st_gid src) w1 = (True, w2)" using reliable_calls(3)[OF assms(1) h1] by blast
  then have h2: "holds w2 p d" using chown_files[OF c] h1 by blast
  obtain w3 where n: "sys_rename E p T w2 = (True, w3)" using reliable_calls(4)[OF assms(1) h2] by blast
  have r: "replace_target E p T src w = (True, w3)" by (simp add: replace_target_def m c n)
  then show ?thesis using replace_target_spec(1,3)[OF r assms(3)] assms(2) by blast
qed

lemma reliable_attempt:
  assumes "reliable E" "\<not> is_partition T" "plain w (T @ ''.patch'')"
    and "in_use st = (src, Some (VBlob (int (length patch)) (Some patch)))" "fc_data src = Valid old"
    and "take 8 patch = BSDIFF40" "ApplyBSDiffPatchMem E old 0 (fc_size src) patch 0 = Inr (Some new)"
  shows "\<exists>w'. attempt E T ts st w = Inr (Inr (0, ToFile (T @ ''.patch''), SHA_update E (SHA_init E) new), w')
    \<and> holds w' (T @ ''.patch'') new \<and> (\<forall>q. q \<noteq> T @ ''.patch'' \<longrightarrow> files w' q = files w q)"
proof -
  define p where "p = T @ ''.patch''"
  obtain w1 where o: "sys_open_trunc E p w = (True, w1)" using reliable_calls(1)[OF assms(1)] by blast
  obtain fd where s: "FileSink (wr_count E) new (fd_of w1) = (int (length new), fd)"
    using FileSink_full[of "wr_count E" new "fd_of w1"] assms(1) by (auto simp: reliable_def)
  then have wd: "written_data fd = new" using filesink.sink_full[of "wr_count E" new "fd_of w1" fd] by simp
  have l8: "\<not> length patch < 8" using arg_cong[OF assms(6), of length] by (simp add: BSDIFF40_def)
  have r: "region patch 0 (int (length patch)) = Inr patch" by (simp add: region_def)
  have m: "memcmp BSDIFF40 BSDIFF40 8 = 0" using memcmp_zero[of BSDIFF40 BSDIFF40] by (simp add: length_BSDIFF40)
  have pi: "patch_into E (FileSink (wr_count E)) (int (length patch)) (Some patch) src (fd_of w1)
      = Inr (Some (0, fd, SHA_update E (SHA_init E) new))"
    using l8 r m assms(5-7) s by (simp add: patch_into_def deref_def ApplyBSDiffPatch_def)
  have "attempt E T ts st w = Inr (Inr (0, ToFile p, SHA_update E (SHA_init E) new), put_fd p fd w1)"
    using assms(2,4) o pi by (simp add: attempt_def Let_def p_def)
  moreover have "holds (put_fd p fd w1) p new" "\<forall>q. q \<noteq> p \<longrightarrow> files (put_fd p fd w1) q = files w q"
    using open_files[OF o] put_fd_files[of p fd w1] assms(3) wd by (auto simp: p_def)
  ultimately show ?thesis unfolding p_def by blast
qed

lemma reliable_select:
  assumes "reliable E" "\<not> is_partition S" "\<not> is_partition T" "holds w S old" "length th = 20" "sha_digest E"
    and "\<And>d. holds w T d \<Longrightarrow> SHA E d \<noteq> th" "FindMatchingPatch (SHA E old) strs = int i" "i < length patches"
  shows "\<exists>fc w1. select_source E S T th strs patches junk w
      = Inr (Inr \<lparr>source_file = fc, copy_file = junk, source_patch_value = Some (patches ! i),
                  copy_patch_value = None, made_copy = False\<rparr>, w1)
    \<and> files w1 = files w \<and> fc_data fc = Valid old \<and> fc_size fc = int (length old)"
proof -
  obtain rc fc w1 where l1: "LoadFileContents E T junk w = Inr ((rc, fc), w1)" "files w1 = files w"
    and c1: "if files w T = None then rc = - 1 \<and> fc_data fc = Null
     else \<exists>d. holds w T d \<and> rc = 0 \<and> fc_data fc = Valid d \<and> fc_size fc = int (length d) \<and> sha1 fc = SHA E d"
    using reliable_load[OF assms(1,3), of junk w] by blast
  have no: "\<not> (rc = 0 \<and> memcmp (sha1 fc) th SHA_DIGEST_SIZE = 0)"
    using c1 assms(5-7) memcmp_digest[of _ th] by (auto simp: sha_digest_def SHA_def split: if_splits)
  obtain rc2 fc2 w2 where l2: "LoadFileContents E S fc w1 = Inr ((rc2, fc2), w2)" "files w2 = files w1"
    and c2: "\<exists>d. holds w1 S d \<and> rc2 = 0 \<and> fc_data fc2 = Valid d \<and> fc_size fc2 = int (length d) \<and> sha1 fc2 = SHA E d"
    using reliable_load[OF assms(1,2), of fc w1] assms(4) l1(2) by (auto simp: holds_def)
  have "holds w1 S old" using assms(4) l1(2) by (simp add: holds_def)
  then have old: "fc_data fc2 = Valid old" "fc_size fc2 = int (length old)" "sha1 fc2 = SHA E old"
    using c2 holds_unique by blast+
  define again where "again = (if fc_data fc = Null \<or> T \<noteq> S
            then bindR (LoadFileContents E S fc w1) (\<lambda>((_, file), w). Inr (file, w)) else Inr (fc, w1))"
  have "\<exists>fc3 w3. again = Inr (fc3, w3) \<and> files w3 = files w \<and> fc_data fc3 = Valid old
      \<and> fc_size fc3 = int (length old) \<and> sha1 fc3 = SHA E old"
  proof (cases "fc_data fc = Null \<or> T \<noteq> S")
    case True
    then show ?thesis using l1(2) l2 old by (simp add: again_def)
  next
    case False
    then show ?thesis using l1 c1 assms(4) by (auto simp: again_def holds_def split: if_splits)
  qed
  then obtain fc3 w3 where a: "again = Inr (fc3, w3)" "files w3 = files w" "fc_data fc3 = Valid old"
    "fc_size fc3 = int (length old)" "sha1 fc3 = SHA E old" by blast
  have "select_source E S T th strs patches junk w
      = Inr (Inr \<lparr>source_file = fc3, copy_file = junk, source_patch_value = Some (patches ! i),
                  copy_patch_value = None, made_copy = False\<rparr>, w3)"
    unfolding select_source_def l1 bindR.simps prod.case if_not_P[OF no] again_def[symmetric] a
    using a assms(8,9) by (simp add: Let_def rd_def)
  then show ?thesis using a by blast
qed

lemma applypatch_runs:
  assumes "reliable E" "sha_digest E" "goal = (if target = ''-'' then source else target)" "file_names source goal w"
    and "\<not> is_partition source" "roomy E goal ts" "holds w source old"
    and "\<And>d. holds w goal d \<Longrightarrow> SHA E d \<noteq> SHA E new" "ParseSha1 tstr = Some (SHA E new)"
    and "FindMatchingPatch (SHA E old) strs = int i" "i < length patches"
    and "patches ! i = VBlob (int (length patch)) (Some patch)" "take 8 patch = BSDIFF40"
    and "ApplyBSDiffPatchMem E old 0 (int (length old)) patch 0 = Inr (Some new)"
  shows "\<exists>w'. applypatch E source target tstr ts strs patches junk w = Inr (0, w') \<and> holds w' goal new
    \<and> (\<forall>q. q \<noteq> goal \<longrightarrow> q \<noteq> goal @ ''.patch'' \<longrightarrow> files w' q = files w q)"
proof -
  have np: "\<not> is_partition goal" "plain w (goal @ ''.patch'')" using assms(4) by (auto simp: file_names_def)
  have len: "length (SHA E new) = 20" using assms(2) by (simp add: sha_digest_def SHA_def)
  obtain fc w1 where s: "select_source E source goal (SHA E new) strs patches junk w
      = Inr (Inr \<lparr>source_file = fc, copy_file = junk, source_patch_value = Some (patches ! i),
                  copy_patch_value = None, made_copy = False\<rparr>, w1)"
    and w1: "files w1 = files w" "fc_data fc = Valid old" "fc_size fc = int (length old)"
    using reliable_select[OF assms(1,5) np(1) assms(7) len assms(2) assms(8,10,11)] by blast
  define st where "st = \<lparr>source_file = fc, copy_file = junk, source_patch_value = Some (patches ! i),
                  copy_patch_value = None, made_copy = False\<rparr>"
  obtain fs where fs: "target_fs goal = Inr fs" "\<And>n. \<exists>b f. statfs E n fs = Some (b, f) \<and> b * f > 262144 \<and> b * f > ts * 3 div 2"
    using assms(6) by (auto simp: roomy_def)
  obtain b f where bf: "statfs E (calls w1) fs = Some (b, f)" "b * f > 262144" "b * f > ts * 3 div 2"
    using fs(2)[of "calls w1"] by blast
  then obtain w2 where es: "enough_space E fs ts 1 w1 = (True, w2)" by (simp add: enough_space_def FreeSpaceForFile_def)
  have w2: "files w2 = files w" using enough_space_files[OF es] w1 by simp
  have pr: "prepare E source goal ts fs 1 st w1 = Inr (Inr (True, st), w2)"
    using np(1) es by (simp add: prepare_def)
  have pl: "plain w2 (goal @ ''.patch'')" using np(2) w2 by (simp add: plain_def)
  have iu: "in_use st = (fc, Some (VBlob (int (length patch)) (Some patch)))" by (simp add: in_use_def st_def assms(12))
  obtain w3 where at: "attempt E goal ts st w2 = Inr (Inr (0, ToFile (goal @ ''.patch''), SHA_update E (SHA_init E) new), w3)"
    and w3: "holds w3 (goal @ ''.patch'') new" "\<forall>q. q \<noteq> goal @ ''.patch'' \<longrightarrow> files w3 q = files w2 q"
    using reliable_attempt[OF assms(1) np(1) pl iu w1(2) assms(13), of new ts] assms(14) w1(3) by auto
  have lp: "patch_loop E source goal ts fs 1 st w1
      = Inr (Inr (ToFile (goal @ ''.patch''), SHA_update E (SHA_init E) new, st), w3)"
    by (subst patch_loop.simps) (simp add: pr at)
  obtain w4 where rt: "replace_target E (goal @ ''.patch'') goal fc w3 = (True, w4)" "holds w4 goal new"
    "\<forall>q. q \<noteq> goal @ ''.patch'' \<longrightarrow> q \<noteq> goal \<longrightarrow> files w4 q = files w3 q"
    using reliable_replace[OF assms(1) w3(1), of goal fc] by auto
  have "memcmp (SHA E new) (SHA E new) SHA_DIGEST_SIZE = 0" using memcmp_digest len by simp
  then have "applypatch E source target tstr ts strs patches junk w = Inr (0, w4)"
    using assms(9) s fs(1) lp rt(1) iu
    by (simp add: applypatch_def finish_patch_def Let_def SHA_def flip: assms(3) st_def) (simp add: st_def)
  then show ?thesis using rt w3(2) w2 by auto
qed

text \<open>
  C14: an update by a generated patch goes through. On a device where all calls work and there is room, for the
  patch that \<open>bsdiff\<close> makes from the old to the new file, listed under the digest of the old one,
  \<open>applypatch\<close> returns success, the target then holds exactly the new file, and no other file has changed
  (apart from the temporary output).
\<close>

theorem applypatch_completes:
  assumes "reliable E" "sha_digest E" "goal = (if target = ''-'' then source else target)" "file_names source goal w"
    and "\<not> is_partition source" "roomy E goal ts"
    and "bz_decodes E yields" "\<And>d. yields (bzDecompressInit E (bzcompress d)) d"
    and "suffix_ok I old" "length old < 2 ^ 31" "length new < 2 ^ 31"
    and "bsdiff bzcompress I old new = Inr patch" "length patch < 2 ^ 31"
    and "holds w source old" "\<And>d. holds w goal d \<Longrightarrow> SHA E d \<noteq> SHA E new" "ParseSha1 tstr = Some (SHA E new)"
    and "FindMatchingPatch (SHA E old) strs = int i" "i < length patches"
    and "patches ! i = VBlob (int (length patch)) (Some patch)"
  shows "\<exists>w'. applypatch E source target tstr ts strs patches junk w = Inr (0, w') \<and> holds w' goal new
    \<and> (\<forall>q. q \<noteq> goal \<longrightarrow> q \<noteq> goal @ ''.patch'' \<longrightarrow> files w' q = files w q)"
proof -
  have "malloc_ok E (int (length new))" using assms(1) by (simp add: reliable_def)
  then have "take 8 patch = BSDIFF40" "ApplyBSDiffPatchMem E old 0 (int (length old)) patch 0 = Inr (Some new)"
    using bsdiff_applies[of E yields bzcompress I old new] assms(7-13) by auto
  then show ?thesis using applypatch_runs[OF assms(1-6,14-19)] by blast
qed

section \<open>Concrete runs\<close>

lemma ap_env0_sel [simp]:
  "sys_ok ap_env0 n = True" "rd_count ap_env0 n k = k" "wr_count ap_env0 n k = int k" "malloc_ok ap_env0 m = True"
  "statfs ap_env0 n p = Some (1024, 1024)" "dir_of ap_env0 n p = None" "SHA_final ap_env0 = digest0"
  "SHA_init ap_env0 = []" "SHA_update ap_env0 = (@)" "bzDecompressInit ap_env0 = bzDecompressInit store_env"
  "bzDecompress ap_env0 = bzDecompress store_env"
  by (simp_all add: ap_env0_def os_env0_def img_env0_def imgenv.extend_def store_env_def digest0_def fun_eq_iff)

lemma ap_env0_laws:
  "reliable ap_env0" "sha_digest ap_env0" "sha_stream ap_env0" "whole_writes (wr_count ap_env0)" "steady ap_env0"
  "bz_decodes ap_env0 (=)"
  using store_env_decodes
  by (auto simp: reliable_def sha_digest_def sha_stream_def digest0_def full_writes_def whole_writes_def steady_def
        ap_env0_def os_env0_def img_env0_def imgenv.extend_def store_env_def bz_decodes_def)

lemma patch0_made: "bsdiff id [2, 0, 1] [1, 2] [1, 3, 2] = Inr patch0"
proof -
  have "offtout 24 = [24, 0, 0, 0, 0, 0, 0, 0]" "offtout 1 = [1, 0, 0, 0, 0, 0, 0, 0]" "offtout 3 = [3, 0, 0, 0, 0, 0, 0, 0]"
    by code_simp+
  then show ?thesis
    unfolding bsdiff_def patch0_def
    by (subst diff_loop.simps, simp add: sample_steps, subst diff_loop.simps, simp add: sample_steps,
        subst diff_loop.simps) simp
qed

lemma length_patch0: "length patch0 = 59"
  by (simp add: patch0_def BSDIFF40_def length_offtout)

lemma digest0_hex: "ParseSha1 (hex (digest0 d)) = Some (digest0 d)"
  by (rule ParseSha1_hex) (simp add: digest0_def)

lemma SHA_ap_env0 [simp]: "SHA ap_env0 d = digest0 d"
  by (simp add: SHA_def)

lemma ap_names: "file_names ''/system/a'' ''/system/b'' ap_world0" "\<not> is_partition ''/system/a''"
  by (auto simp: file_names_def is_partition_def starts_def plain_def ap_world0_def)

lemma ap_roomy: "roomy ap_env0 ''/system/b'' 3"
  by (simp add: roomy_def target_fs_def Let_def)

lemma ap_match: "FindMatchingPatch (SHA ap_env0 [1, 2]) [hex (digest0 [1, 2])] = int 0"
  using memcmp_digest[of "digest0 [1, 2]" "digest0 [1, 2]"]
  by (simp add: FindMatchingPatch_def digest0_hex) (simp add: digest0_def)

lemma ap_holds: "holds ap_world0 ''/system/a'' [1, 2]" "holds ap_world0 ''/system/b'' d = False"
  by (simp_all add: holds_def ap_world0_def)

theorem applypatch_completes_witness:
  "\<exists>w'. applypatch ap_env0 ''/system/a'' ''/system/b'' (hex (digest0 [1, 3, 2])) 3 [hex (digest0 [1, 2])]
      [VBlob (int (length patch0)) (Some patch0)] ap_junk ap_world0 = Inr (0, w') \<and> holds w' ''/system/b'' [1, 3, 2]
    \<and> (\<forall>q. q \<noteq> ''/system/b'' \<longrightarrow> q \<noteq> ''/system/b'' @ ''.patch'' \<longrightarrow> files w' q = files ap_world0 q)"
  by (rule applypatch_completes[OF ap_env0_laws(1,2) _ ap_names ap_roomy ap_env0_laws(6) _ _ _ _ patch0_made,
        where i = 0])
     (use ap_match in \<open>simp_all add: suffix_ok_def length_patch0 ap_holds digest0_hex store_env_def\<close>)


lemma ap_env1_sel [simp]:
  "sys_ok ap_env1 n = True" "rd_count ap_env1 n k = k" "wr_count ap_env1 n k = int k" "malloc_ok ap_env1 m = True"
  "statfs ap_env1 n p = (if p = ''/cache'' then Some (1024, 1024) else Some (0, 0))" "SHA_final ap_env1 = digest0"
  "SHA_init ap_env1 = []" "SHA_update ap_env1 = (@)" "new_mode ap_env1 n = 0"
  by (simp_all add: ap_env1_def) (simp_all add: ap_env0_def os_env0_def imgenv.extend_def)

lemma ap_env1_laws: "sha_stream ap_env1" "steady ap_env1"
  by (auto simp: sha_stream_def steady_def) (auto simp: ap_env1_def ap_env0_def os_env0_def imgenv.extend_def)

lemma ap_names1: "file_names ''/system/a'' ''/system/a'' ap_world0"
  by (auto simp: file_names_def is_partition_def starts_def plain_def ap_world0_def)

lemma SHA_ap_env1 [simp]: "SHA ap_env1 d = digest0 d"
  by (simp add: SHA_def)

lemma digest0_memcmp: "memcmp (digest0 a) (digest0 b) SHA_DIGEST_SIZE = 0 \<longleftrightarrow> digest0 a = digest0 b"
  by (rule memcmp_digest) (simp_all add: digest0_def)

lemma FileSink_env1: "FileSink (wr_count ap_env1) [1, 2] f = (2, f\<lparr>written_data := written_data f @ [1, 2], wcalls := wcalls f + 1\<rparr>)"
  by (simp add: FileSink.simps[of _ "[1, 2]"] FileSink.simps[of _ "[]"] sys_write_def Let_def)

lemma failed_run:
  "\<exists>w'. applypatch ap_env1 ''/system/a'' ''-'' (hex (digest0 [1, 3, 2])) 3 [hex (digest0 [1, 2])]
      [VString []] ap_junk ap_world0 = Inr (1, w') \<and> files w' ''/system/a'' = None \<and> holds w' CACHE_TEMP_SOURCE [1, 2]"
proof -
  have d: "digest0 [1, 2] \<noteq> digest0 [1, 3, 2]" by (simp add: digest0_def)
  show ?thesis
    by (simp add: applypatch_def Let_def digest0_hex select_source_def LoadFileContents_def is_partition_def starts_def
        sys_stat_def ap_world0_def ap_junk_def digest0_memcmp d FindMatchingPatch_def rd_def target_fs_def
        patch_loop.simps[of _ _ _ _ _ 1] prepare_def enough_space_def FreeSpaceForFile_def back_up_def
        MakeFreeSpaceOnCache_def SaveFileContents_def sys_open_trunc_def CACHE_TEMP_SOURCE_def
        step_def FileSink_env1 put_fd_def fd_of_def store_def sys_chmod_def sys_chown_def attempt_def in_use_def
        sys_unlink_def holds_def)
qed

theorem applypatch_failure_witness:
  "\<exists>w'. applypatch ap_env1 ''/system/a'' ''-'' (hex (digest0 [1, 3, 2])) 3 [hex (digest0 [1, 2])]
      [VString []] ap_junk ap_world0 = Inr (1, w') \<and> files w' ''/system/a'' = None
    \<and> available ap_env1 [hex (digest0 [1, 2])] ''/system/a'' w'"
proof -
  obtain w' where w': "applypatch ap_env1 ''/system/a'' ''-'' (hex (digest0 [1, 3, 2])) 3 [hex (digest0 [1, 2])]
      [VString []] ap_junk ap_world0 = Inr (1, w')" "files w' ''/system/a'' = None" using failed_run by blast
  have "available ap_env1 [hex (digest0 [1, 2])] ''/system/a'' ap_world0"
    using ap_match ap_holds(1) by (auto simp: available_def matches_def intro!: exI[of _ "[1, 2]"])
  then show ?thesis
    using applypatch_failure[OF ap_env1_laws(2,1) _ ap_names1 ap_names(2) w'(1)] w' by auto
qed

section \<open>Loading a partition\<close>

interpretation si: comparison_function "compare_size_indices sizes" for sizes
  by unfold_locales (auto simp: compare_size_indices_def split: if_splits)

lemma unat_minus: "k \<le> unat s \<Longrightarrow> unat (s - of_nat k :: u32) = unat s - k"
proof -
  assume k: "k \<le> unat s"
  have "unat s < 2 ^ 32" using unsigned_less[of s] by simp
  then have "k < 2 ^ 32" using k by simp
  then have "unat (of_nat k :: u32) = k" by (simp add: unsigned_of_nat take_bit_nat_eq_self)
  moreover from this have "(of_nat k :: u32) \<le> s" using k by (simp add: word_le_nat_alt)
  ultimately show ?thesis by (simp add: unat_sub)
qed

lemma try_sizes_found:
  assumes "sha_stream E" "sha_digest E"
  shows "try_sizes E qs r data (SHA_update E (SHA_init E) data) w = Inr (Some True, r', data', ctx', w') \<Longrightarrow>
    sorted_wrt (\<lambda>a b. fst a \<le> fst b) qs \<Longrightarrow> (\<And>q. q \<in> set qs \<Longrightarrow> length data \<le> unat (fst q)) \<Longrightarrow>
    ctx' = SHA_update E (SHA_init E) data' \<and> take (length data) data' = data \<and>
    (\<exists>sz str. (sz, Some str) \<in> set qs \<and> length data' = unat sz \<and> ParseSha1 str = Some (SHA E data')
      \<and> (\<forall>q \<in> set qs. fst q < sz \<longrightarrow> (\<exists>x. snd q = Some x \<and> ParseSha1 x \<noteq> Some (SHA E (take (unat (fst q)) data')))))"
proof (induction qs arbitrary: r data w)
  case (Cons q qs)
  obtain sz dg where q: "q = (sz, dg)" by (cases q)
  obtain d r1 w1 str parsed where dg: "dg = Some str" "ParseSha1 str = Some parsed"
    and len: "length d = unat (sz - of_nat (length data))"
    and c: "if memcmp (SHA_final E (SHA_update E (SHA_update E (SHA_init E) data) d)) parsed SHA_DIGEST_SIZE = 0
            then data' = data @ d \<and> ctx' = SHA_update E (SHA_update E (SHA_init E) data) d
            else try_sizes E qs r1 (data @ d) (SHA_update E (SHA_update E (SHA_init E) data) d) w1
                   = Inr (Some True, r', data', ctx', w')"
    using try_sizes_Cons[OF Cons.prems(1)[unfolded q] assms(1)] by (metis option.distinct(1))
  have u: "SHA_update E (SHA_update E (SHA_init E) data) d = SHA_update E (SHA_init E) (data @ d)"
    using assms(1) by (simp add: sha_stream_def)
  have l: "length (data @ d) = unat sz" using len Cons.prems(3)[of q] unat_minus[of "length data" sz] q by simp
  have sh: "memcmp (SHA E (data @ d)) parsed SHA_DIGEST_SIZE = 0 \<longleftrightarrow> SHA E (data @ d) = parsed"
    using memcmp_digest ParseSha1_length[OF dg(2)] assms(2) by (simp add: sha_digest_def SHA_def)
  note c = c[unfolded u SHA_def[symmetric] sh]
  have le: "sz \<le> fst p" if "p \<in> set qs" for p using Cons.prems(2) q that by auto
  show ?case
  proof (cases "SHA E (data @ d) = parsed")
    case True
    then have "data' = data @ d" "ctx' = SHA_update E (SHA_init E) (data @ d)" using c by auto
    moreover have "(sz, Some str) \<in> set (q # qs)" "ParseSha1 str = Some (SHA E (data @ d))" using q dg True by auto
    moreover have "\<not> fst p < sz" if "p \<in> set (q # qs)" for p using that le[of p] q by auto
    ultimately have "\<exists>sz str. (sz, Some str) \<in> set (q # qs) \<and> length data' = unat sz \<and> ParseSha1 str = Some (SHA E data')
      \<and> (\<forall>q \<in> set (q # qs). fst q < sz \<longrightarrow> (\<exists>x. snd q = Some x \<and> ParseSha1 x \<noteq> Some (SHA E (take (unat (fst q)) data'))))"
      using l by (intro exI[of _ sz] exI[of _ str]) auto
    then show ?thesis using \<open>data' = data @ d\<close> \<open>ctx' = _\<close> by simp
  next
    case False
    have "length (data @ d) \<le> unat (fst p)" if "p \<in> set qs" for p using le[OF that] l by (simp add: word_le_nat_alt)
    then have IH: "ctx' = SHA_update E (SHA_init E) data'" "take (length (data @ d)) data' = data @ d"
      "\<exists>sz str. (sz, Some str) \<in> set qs \<and> length data' = unat sz \<and> ParseSha1 str = Some (SHA E data')
        \<and> (\<forall>q \<in> set qs. fst q < sz \<longrightarrow> (\<exists>x. snd q = Some x \<and> ParseSha1 x \<noteq> Some (SHA E (take (unat (fst q)) data'))))"
      using Cons.IH[of r1 "data @ d" w1] c False Cons.prems(2) by auto
    have "take (unat (fst q)) data' = data @ d" using IH(2) l q by simp
    then have "\<exists>x. snd q = Some x \<and> ParseSha1 x \<noteq> Some (SHA E (take (unat (fst q)) data'))" using dg q False by auto
    moreover have "take (length data) data' = data"
      using arg_cong[OF IH(2), of "take (length data)"] by (simp add: min_def)
    ultimately show ?thesis using IH(1,3) by auto
  qed
qed simp

text \<open>
  C37: a partition that was loaded is verified: its data has one of the listed sizes together with the digest
  listed for it, the reported digest and size are those of the data, and no smaller listed size matches the
  beginning of the data; the pairs may be listed in any order.
\<close>

theorem LoadPartitionContents_verified:
  assumes "sha_stream E" "sha_digest E" "LoadPartitionContents E name file w = Inr ((0, file'), w')"
  shows "\<exists>magic rest ps data sz str.
    tokens name = magic # rest
    \<and> read_pairs ((length (List.filter (\<lambda>c. c = CHR '':'') name) - 1) div 2) (drop 1 rest) = Inr (Some ps)
    \<and> (sz, Some str) \<in> set ps \<and> ParseSha1 str = Some (SHA E data) \<and> length data = unat sz
    \<and> fc_data file' = Valid data \<and> fc_size file' = int (length data) \<and> sha1 file' = SHA E data \<and> files w' = files w
    \<and> (\<forall>p \<in> set ps. fst p < sz \<longrightarrow> (\<exists>x. snd p = Some x \<and> ParseSha1 x \<noteq> Some (SHA E (take (unat (fst p)) data))))"
proof -
  obtain magic rest ps r w1 r2 data ctx w2 where t: "tokens name = magic # rest"
    and p: "read_pairs ((length (List.filter (\<lambda>c. c = CHR '':'') name) - 1) div 2) (drop 1 rest) = Inr (Some ps)"
    and ts: "try_sizes E (map ((!) ps) (qsort (compare_size_indices (map fst ps)) [0..<length ps])) r [] (SHA_init E) w1
           = Inr (Some True, r2, data, ctx, w2)"
    and f: "file' = \<lparr>sha1 = SHA_final E ctx, fc_data = Valid data, fc_size = int (length data),
                 st_mode = 420, st_uid = 0, st_gid = 0\<rparr>"
    using LoadPartition_cases[OF assms(3)] by (auto split: if_splits)
  define ix where "ix = qsort (compare_size_indices (map fst ps)) [0..<length ps]"
  have ix: "set ix = {0..<length ps}" unfolding ix_def using si.set_qsort[of "map fst ps" "[0..<length ps]"] by auto
  have "sorted_wrt (\<lambda>a b. compare_size_indices (map fst ps) a b \<le> 0) ix" unfolding ix_def by (rule si.qsort_sorted)
  then have "sorted_wrt (\<lambda>a b. fst (ps ! a) \<le> fst (ps ! b)) ix"
    by (rule sorted_wrt_mono_rel[rotated]) (auto simp: compare_size_indices_def ix not_less split: if_splits)
  then have s: "sorted_wrt (\<lambda>a b. fst a \<le> fst b) (map ((!) ps) ix)" by (simp add: sorted_wrt_map)
  have st: "set (map ((!) ps) ix) = set ps" using ix by (metis list.set_map map_nth set_upt)
  have e: "SHA_init E = SHA_update E (SHA_init E) []" using assms(1) by (simp add: sha_stream_def)
  have "try_sizes E (map ((!) ps) ix) r [] (SHA_update E (SHA_init E) []) w1 = Inr (Some True, r2, data, ctx, w2)"
    using ts by (simp flip: e ix_def)
  from try_sizes_found[OF assms(1,2) this s] obtain sz str where
    m: "ctx = SHA_update E (SHA_init E) data" "(sz, Some str) \<in> set ps" "length data = unat sz" "ParseSha1 str = Some (SHA E data)"
      "\<forall>q \<in> set ps. fst q < sz \<longrightarrow> (\<exists>x. snd q = Some x \<and> ParseSha1 x \<noteq> Some (SHA E (take (unat (fst q)) data)))"
    unfolding st by auto
  then show ?thesis using t p f LoadPartition_files[OF assms(1,3)] by (auto simp: SHA_def)
qed

lemma emmc0_tokens: "tokens emmc0 = [''EMMC'', ''dev'', ''3'', hex (digest0 [9]), ''2'', hex (digest0 [1, 2])]"
  by code_simp

lemma emmc0_colons: "length (List.filter (\<lambda>c. c = CHR '':'') emmc0) = 5"
  by code_simp

lemma emmc0_loads:
  "\<exists>file' w'. LoadPartitionContents ap_env0 emmc0 ap_junk emmc_world = Inr ((0, file'), w') \<and> fc_data file' = Valid [1, 2]"
proof -
  have s: "fst (strtol ''3'') = 3" "fst (strtol ''2'') = 2" by code_simp+
  have q: "qsort (compare_size_indices [3, 2]) [0, Suc 0] = [Suc 0, 0]" by code_simp
  have "read_pairs (Suc (Suc 0)) [''3'', hex (digest0 [9]), ''2'', hex (digest0 [1, 2])]
      = Inr (Some [(3, Some (hex (digest0 [9]))), (2, Some (hex (digest0 [1, 2])))])"
    by (simp add: Let_def s)
  then have rp: "read_pairs 2 [''3'', hex (digest0 [9]), ''2'', hex (digest0 [1, 2])]
      = Inr (Some [(3, Some (hex (digest0 [9]))), (2, Some (hex (digest0 [1, 2])))])"
    by (simp only: numeral_2_eq_2)
  have up: "[0..<length [(3 :: u32, Some (hex (digest0 [9]))), (2, Some (hex (digest0 [1, 2])))]] = [0, 1]" by simp
  show ?thesis
    by (simp add: LoadPartitionContents_def emmc0_tokens emmc0_colons Let_def s rp up q
      open_part_def sys_stat_def emmc_world_def read_part_def digest0_hex digest0_memcmp rd_def close_part_def)
qed

theorem LoadPartitionContents_verified_witness:
  "\<exists>file' w' ps data sz str. LoadPartitionContents ap_env0 emmc0 ap_junk emmc_world = Inr ((0, file'), w')
    \<and> fc_data file' = Valid data \<and> (sz, Some str) \<in> set ps \<and> ParseSha1 str = Some (SHA ap_env0 data)
    \<and> length data = unat (sz :: u32) \<and> sha1 file' = SHA ap_env0 data"
proof -
  obtain file' w' where l: "LoadPartitionContents ap_env0 emmc0 ap_junk emmc_world = Inr ((0, file'), w')"
    using emmc0_loads by blast
  obtain ps data sz str where "(sz, Some str) \<in> set ps" "ParseSha1 str = Some (SHA ap_env0 data)" "length data = unat (sz :: u32)"
    "fc_data file' = Valid data" "sha1 file' = SHA ap_env0 data"
    using LoadPartitionContents_verified[OF ap_env0_laws(3,2) l] by blast
  then show ?thesis using l by (intro exI conjI)
qed

text \<open>
  When the target is a partition and the source is taken from the saved copy, the run saves the source file
  whose buffer it has just freed: the copy is opened for writing, and thereby emptied, first.
\<close>

lemma partition_from_copy_uses_freed:
  assumes "is_partition T" "source_patch_value st = None" "fc_data (source_file st) = Freed" "fc_size (source_file st) > 0"
    and "MakeFreeSpaceOnCache E (word_of_int (fc_size (source_file st))) w = (0, w1)" "sys_ok E (calls w1)"
  shows "patch_loop E S T ts fs 1 st w = Inl UseAfterFree"
  using assms
  by (subst patch_loop.simps) (simp add: prepare_def back_up_def SaveFileContents_def sys_open_trunc_def)

end
