(* ===== verification/Backed_Block.thy ===== *)
theory Backed_Block
  imports Prelude
begin

text \<open>
  The queue of data blocks of the image builder (\<open>ext4_utils/backed_block.c\<close>): a linked list in a heap, kept in
  order of block numbers, with a pointer to the last block that was queued as a shortcut.
\<close>

section \<open>Data\<close>

text \<open>A node is backed by memory (\<open>filename\<close> is \<open>NULL\<close>) or by a part of a file.\<close>

record data_block =
  block :: u32
  dlen :: u32
  ddata :: bytes
  filename :: "string option"
  offset :: int
  dnext :: "nat option"

record db_queue =
  db_heap :: "nat \<Rightarrow> data_block option"
  data_blocks :: "nat option"
  last_used :: "nat option"

definition node :: "db_queue \<Rightarrow> nat \<Rightarrow> data_block res" where
  "node q p = (case db_heap q p of None \<Rightarrow> Inl UseAfterFree | Some n \<Rightarrow> Inr n)"

definition set_next :: "nat \<Rightarrow> nat option \<Rightarrow> db_queue \<Rightarrow> db_queue" where
  "set_next p nx q = q\<lparr>db_heap := (db_heap q)(p := map_option (\<lambda>n. n\<lparr>dnext := nx\<rparr>) (db_heap q p))\<rparr>"

section \<open>Queueing\<close>

text \<open>The \<open>for\<close> loop: from \<open>db\<close> to the last node whose successor is not below the new block.\<close>

partial_function (option) advance :: "db_queue \<Rightarrow> u32 \<Rightarrow> nat \<Rightarrow> nat res option" where
  "advance q new_block db =
     (case db_heap q db of
        None \<Rightarrow> Some (Inl UseAfterFree)
      | Some n \<Rightarrow>
          (case dnext n of
             None \<Rightarrow> Some (Inr db)
           | Some nx \<Rightarrow>
               (case db_heap q nx of
                  None \<Rightarrow> Some (Inl UseAfterFree)
                | Some m \<Rightarrow> if block m < new_block then advance q new_block nx else Some (Inr db))))"

declare advance.simps [code]

definition queue_db :: "nat \<Rightarrow> db_queue \<Rightarrow> db_queue res" where
  "queue_db new_db q =
     (case data_blocks q of
        None \<Rightarrow> Inr (q\<lparr>data_blocks := Some new_db\<rparr>)
      | Some head \<Rightarrow>
          bindR (node q head) (\<lambda>h.
          bindR (node q new_db) (\<lambda>n.
          if block h > block n then Inr ((set_next new_db (Some head) q)\<lparr>data_blocks := Some new_db\<rparr>)
          else
            bindR (case last_used q of
                     None \<Rightarrow> Inr head
                   | Some l \<Rightarrow> bindR (node q l) (\<lambda>m. Inr (if block n > block m then l else head))) (\<lambda>start.
            let q = q\<lparr>last_used := Some new_db\<rparr> in
            bindR (bindR (of_loop (advance q (block n) start)) id) (\<lambda>db.
            bindR (node q db) (\<lambda>m.
            case dnext m of
              None \<Rightarrow> Inr (set_next db (Some new_db) q)
            | Some nx \<Rightarrow> Inr (set_next db (Some new_db) (set_next new_db (Some nx) q))))))))"

text \<open>\<open>malloc\<close> hands out an address, or none; the result is \<open>errno\<close> on failure.\<close>

definition ENOMEM :: int where "ENOMEM = 12"

definition queue_data_block :: "nat option \<Rightarrow> bytes \<Rightarrow> u32 \<Rightarrow> u32 \<Rightarrow> db_queue \<Rightarrow> (int \<times> db_queue) res" where
  "queue_data_block new_db data n blk q =
     (case new_db of
        None \<Rightarrow> Inr (ENOMEM, q)
      | Some a \<Rightarrow>
          bindR (queue_db a (q\<lparr>db_heap := (db_heap q)(a \<mapsto>
              \<lparr>block = blk, dlen = n, ddata = data, filename = None, offset = 0, dnext = None\<rparr>)\<rparr>)) (\<lambda>q. Inr (0, q)))"

definition queue_data_file :: "nat option \<Rightarrow> string \<Rightarrow> int \<Rightarrow> u32 \<Rightarrow> u32 \<Rightarrow> db_queue \<Rightarrow> (int \<times> db_queue) res" where
  "queue_data_file new_db file_name off n blk q =
     (case new_db of
        None \<Rightarrow> Inr (ENOMEM, q)
      | Some a \<Rightarrow>
          bindR (queue_db a (q\<lparr>db_heap := (db_heap q)(a \<mapsto>
              \<lparr>block = blk, dlen = n, ddata = [], filename = Some file_name, offset = off, dnext = None\<rparr>)\<rparr>)) (\<lambda>q. Inr (0, q)))"

section \<open>Walking the queue\<close>

text \<open>
  The callbacks get the output, the byte offset of the block, and the data or the file with offset, and
  the length converted to \<open>int\<close>. The check of the order only reports.
\<close>

partial_function (option) for_each_from ::
  "('o \<Rightarrow> u64 \<Rightarrow> bytes \<Rightarrow> int \<Rightarrow> 'o res) \<Rightarrow> ('o \<Rightarrow> u64 \<Rightarrow> string \<Rightarrow> int \<Rightarrow> int \<Rightarrow> 'o res) \<Rightarrow> u32 \<Rightarrow> db_queue
   \<Rightarrow> nat option \<Rightarrow> 'o \<Rightarrow> 'o res option" where
  "for_each_from data_func file_func bs q p out =
     (case p of
        None \<Rightarrow> Some (Inr out)
      | Some a \<Rightarrow>
          (case db_heap q a of
             None \<Rightarrow> Some (Inl UseAfterFree)
           | Some db \<Rightarrow>
               if bs = 0 then Some (Inl DivByZero)
               else (case (case filename db of
                        Some f \<Rightarrow> file_func out (ucast (block db) * ucast bs) f (offset db) (sint (dlen db))
                      | None \<Rightarrow> data_func out (ucast (block db) * ucast bs) (ddata db) (sint (dlen db))) of
                  Inl e \<Rightarrow> Some (Inl e)
                | Inr out \<Rightarrow> for_each_from data_func file_func bs q (dnext db) out)))"

declare for_each_from.simps [code]

definition for_each_data_block ::
  "('o \<Rightarrow> u64 \<Rightarrow> bytes \<Rightarrow> int \<Rightarrow> 'o res) \<Rightarrow> ('o \<Rightarrow> u64 \<Rightarrow> string \<Rightarrow> int \<Rightarrow> int \<Rightarrow> 'o res) \<Rightarrow> u32 \<Rightarrow> db_queue
   \<Rightarrow> 'o \<Rightarrow> 'o res" where
  "for_each_data_block data_func file_func bs q out =
     bindR (of_loop (for_each_from data_func file_func bs q (data_blocks q) out)) id"

text \<open>Freeing walks the list as well; the data is left alone.\<close>

partial_function (option) free_from :: "db_queue \<Rightarrow> nat option \<Rightarrow> db_queue res option" where
  "free_from q p =
     (case p of
        None \<Rightarrow> Some (Inr q)
      | Some a \<Rightarrow>
          (case db_heap q a of
             None \<Rightarrow> Some (Inl UseAfterFree)
           | Some db \<Rightarrow> free_from (q\<lparr>db_heap := (db_heap q)(a := None)\<rparr>) (dnext db)))"

declare free_from.simps [code]

definition free_data_blocks :: "db_queue \<Rightarrow> db_queue res" where
  "free_data_blocks q =
     (if data_blocks q = None then Inr q
      else bindR (bindR (of_loop (free_from q (data_blocks q))) id) (\<lambda>q.
        Inr (q\<lparr>data_blocks := None, last_used := None\<rparr>)))"

section \<open>Notions used in the statements\<close>

text \<open>A list segment in the heap, the queue it is, and the list of blocks it stands for.\<close>

fun lseg :: "(nat \<Rightarrow> data_block option) \<Rightarrow> nat option \<Rightarrow> nat list \<Rightarrow> nat option \<Rightarrow> bool" where
  "lseg h p [] r \<longleftrightarrow> p = r"
| "lseg h p (a # as) r \<longleftrightarrow> p = Some a \<and> (\<exists>n. h a = Some n \<and> lseg h (dnext n) as r)"

definition contents :: "db_queue \<Rightarrow> nat list \<Rightarrow> data_block list" where
  "contents q as = map (\<lambda>a. (the (db_heap q a))\<lparr>dnext := None\<rparr>) as"

definition queue_wf :: "db_queue \<Rightarrow> nat list \<Rightarrow> bool" where
  "queue_wf q as \<longleftrightarrow>
     lseg (db_heap q) (data_blocks q) as None \<and> distinct as \<and> sorted (map block (contents q as))
     \<and> (\<forall>l. last_used q = Some l \<longrightarrow> l \<in> set as)"

text \<open>Insertion in order of block numbers; a block equal to the first one goes behind it.\<close>

fun insert_tail :: "data_block \<Rightarrow> data_block list \<Rightarrow> data_block list" where
  "insert_tail n [] = [n]"
| "insert_tail n (x # xs) = (if block x < block n then x # insert_tail n xs else n # x # xs)"

fun insert_db :: "data_block \<Rightarrow> data_block list \<Rightarrow> data_block list" where
  "insert_db n [] = [n]"
| "insert_db n (x # xs) = (if block x > block n then n # x # xs else x # insert_tail n xs)"

text \<open>Where the search starts, everything before is below the new block.\<close>

definition search_start :: "db_queue \<Rightarrow> nat \<Rightarrow> u32 \<Rightarrow> nat" where
  "search_start q x b = (case last_used q of None \<Rightarrow> x | Some l \<Rightarrow> if block (the (db_heap q l)) < b then l else x)"

text \<open>One step of a walk, and the walks over the whole list.\<close>

definition visit ::
  "('o \<Rightarrow> u64 \<Rightarrow> bytes \<Rightarrow> int \<Rightarrow> 'o res) \<Rightarrow> ('o \<Rightarrow> u64 \<Rightarrow> string \<Rightarrow> int \<Rightarrow> int \<Rightarrow> 'o res) \<Rightarrow> u32 \<Rightarrow> data_block \<Rightarrow> 'o \<Rightarrow> 'o res" where
  "visit data_func file_func bs db out =
     (case filename db of
        Some f \<Rightarrow> file_func out (ucast (block db) * ucast bs) f (offset db) (sint (dlen db))
      | None \<Rightarrow> data_func out (ucast (block db) * ucast bs) (ddata db) (sint (dlen db)))"

definition empty_queue :: db_queue where
  "empty_queue = \<lparr>db_heap = (\<lambda>_. None), data_blocks = None, last_used = None\<rparr>"

section \<open>The abstract queue\<close>

lemma lseg_append: "lseg h p (as @ bs) r \<longleftrightarrow> (\<exists>m. lseg h p as m \<and> lseg h m bs r)"
  by (induction as arbitrary: p) auto

lemma lseg_frame: "(\<And>a. a \<in> set as \<Longrightarrow> h a = h' a) \<Longrightarrow> lseg h p as r = lseg h' p as r"
  by (induction as arbitrary: p) auto

lemma lseg_some: "lseg h p as r \<Longrightarrow> a \<in> set as \<Longrightarrow> \<exists>n. h a = Some n"
  by (induction as arbitrary: p) auto

lemma contents_frame: "(\<And>a. a \<in> set as \<Longrightarrow> db_heap q a = db_heap q' a) \<Longrightarrow> contents q as = contents q' as"
  by (simp add: contents_def)

lemma insert_tail_eq:
  "insert_tail n xs = takeWhile (\<lambda>x. block x < block n) xs @ n # dropWhile (\<lambda>x. block x < block n) xs"
  by (induction xs) auto

lemma mset_insert_db: "mset (insert_db n xs) = add_mset n (mset xs)"
  by (cases xs) (auto simp: insert_tail_eq simp flip: mset_append union_code)

lemma sorted_insert_tail: "sorted (map block xs) \<Longrightarrow> sorted (map block (insert_tail n xs))"
  by (induction xs) (auto simp: insert_tail_eq dest: set_takeWhileD set_dropWhileD split: if_splits)

lemma insert_db_sorted:
  assumes "sorted (map block xs)"
  shows "sorted (map block (insert_db n xs))"
proof (cases xs)
  case (Cons x ys)
  have "set (insert_tail n ys) = insert n (set ys)"
    by (metis insert_tail_eq list.simps(15) set_append takeWhile_dropWhile_id Un_insert_right)
  then show ?thesis using assms Cons sorted_insert_tail[of ys n] by auto
qed simp

text \<open>The loop stops behind the last block below the new one.\<close>

lemma advance_stops:
  assumes "lseg (db_heap q) (Some s) (s # as) None"
  shows "advance q b s
    = Some (Inr (last (s # takeWhile (\<lambda>a. block (the (db_heap q a)) < b) as)))"
  using assms
proof (induction as arbitrary: s)
  case Nil
  then show ?case by (subst advance.simps) auto
next
  case (Cons a as)
  then obtain n m where n: "db_heap q s = Some n" "dnext n = Some a" "db_heap q a = Some m" by auto
  have "lseg (db_heap q) (Some a) (a # as) None" using Cons.prems n by auto
  note IH = Cons.IH[OF this]
  show ?case
  proof (cases "block m < b")
    case True
    then have "advance q b s = advance q b a" using n by (subst advance.simps) simp
    then show ?thesis using IH True n by simp
  next
    case False
    then show ?thesis using n by (subst advance.simps) simp
  qed
qed

lemma lseg_link:
  assumes "lseg h p (xs @ [d]) m" "lseg h m ys None" "distinct (xs @ d # ys)" "a \<notin> set (xs @ d # ys)" "h a = Some n"
  shows "lseg (h(a \<mapsto> n\<lparr>dnext := m\<rparr>, d := map_option (\<lambda>x. x\<lparr>dnext := Some a\<rparr>) (h d))) p (xs @ d # a # ys) None"
proof -
  obtain k dn where l: "lseg h p xs k" "k = Some d" "h d = Some dn" using assms(1) by (auto simp: lseg_append)
  let ?h = "h(a \<mapsto> n\<lparr>dnext := m\<rparr>, d := map_option (\<lambda>x. x\<lparr>dnext := Some a\<rparr>) (h d))"
  have same: "h z = ?h z" if "z \<in> set xs \<or> z \<in> set ys" for z using that assms(3,4) by auto
  have "lseg ?h p xs k" using l(1) lseg_frame[of xs h ?h p k] same by blast
  moreover have "lseg ?h m ys None" using assms(2) lseg_frame[of ys h ?h m None] same by blast
  ultimately show ?thesis using l assms(4) by (auto simp: lseg_append)
qed

lemma set_next_eq: "db_heap q a = Some n \<Longrightarrow> dnext n = nx \<Longrightarrow> set_next a nx q = q"
  by (simp add: set_next_def fun_upd_idem)

lemma search_start_split:
  assumes "queue_wf q (x # xs)"
  shows "\<exists>pre post. x # xs = pre @ search_start q x b # post
    \<and> (pre \<noteq> [] \<longrightarrow> (\<forall>z \<in> set (tl pre @ [search_start q x b]). block (the (db_heap q z)) < b))"
proof (cases "\<exists>l. last_used q = Some l \<and> block (the (db_heap q l)) < b")
  case True
  then obtain l where l: "last_used q = Some l" "block (the (db_heap q l)) < b" by blast
  then have "l \<in> set (x # xs)" using assms(1) unfolding queue_wf_def by blast
  then obtain pre post where s: "x # xs = pre @ l # post" by (meson split_list)
  have "sorted (map (\<lambda>x. block (the (db_heap q x))) (x # xs))" using assms(1) by (simp add: queue_wf_def contents_def comp_def)
  then have "\<forall>z \<in> set pre. block (the (db_heap q z)) \<le> block (the (db_heap q l))" unfolding s by (auto simp: sorted_append)
  then have "\<forall>z \<in> set (tl pre @ [l]). block (the (db_heap q z)) < b"
    using l(2) list.set_sel(2)[of pre] by (cases pre) auto
  then show ?thesis using s l by (auto simp: search_start_def)
next
  case False
  then have "search_start q x b = x" by (auto simp: search_start_def split: option.splits)
  then show ?thesis by (auto intro: exI[of _ "[]"])
qed

lemma queue_db_search:
  assumes "queue_wf q (x # xs)" "db_heap q a = Some n" "dnext n = None" "\<not> block n < block (the (db_heap q x))"
    and "advance (q\<lparr>last_used := Some a\<rparr>) (block n) (search_start q x (block n)) = Some (Inr d)" "db_heap q d = Some dn"
  shows "queue_db a q = Inr (set_next d (Some a) (set_next a (dnext dn) (q\<lparr>last_used := Some a\<rparr>)))"
proof -
  obtain h where h: "db_heap q x = Some h" "data_blocks q = Some x" using assms(1) by (auto simp: queue_wf_def)
  have sw: "(case last_used q of None \<Rightarrow> Inr x
      | Some l \<Rightarrow> bindR (node q l) (\<lambda>m. Inr (if block n > block m then l else x))) = Inr (search_start q x (block n))"
  proof (cases "last_used q")
    case (Some l)
    then obtain ln where "db_heap q l = Some ln" using assms(1) lseg_some unfolding queue_wf_def by blast
    then show ?thesis using Some by (simp add: search_start_def node_def)
  qed (simp add: search_start_def)
  have e: "queue_db a q = (case dnext dn of
       None \<Rightarrow> Inr (set_next d (Some a) (q\<lparr>last_used := Some a\<rparr>))
     | Some nx \<Rightarrow> Inr (set_next d (Some a) (set_next a (Some nx) (q\<lparr>last_used := Some a\<rparr>))))"
    using h assms(2,4,5,6) sw by (simp add: queue_db_def node_def Let_def)
  show ?thesis
  proof (cases "dnext dn")
    case None
    then show ?thesis using e set_next_eq[of "q\<lparr>last_used := Some a\<rparr>" a n None] assms(2,3) by simp
  qed (simp add: e)
qed

text \<open>The new state stands for the list with the block inserted, when the heap does.\<close>

lemma queue_inserted:
  assumes "queue_wf q as" "db_heap q' = h'" "lseg h' (data_blocks q') as' None"
    and "\<And>y. (the (h' y))\<lparr>dnext := None\<rparr> = (the (db_heap q y))\<lparr>dnext := None\<rparr>"
    and "distinct as'" "\<And>l. last_used q' = Some l \<Longrightarrow> l \<in> set as'"
    and "contents q as' = insert_db n (contents q as)"
  shows "queue_wf q' as' \<and> contents q' as' = insert_db n (contents q as)"
proof -
  have ct: "contents q' as' = insert_db n (contents q as)" using assms(2,4,7) by (simp add: contents_def)
  have "sorted (map block (contents q as))" using assms(1) by (simp add: queue_wf_def)
  then have "sorted (map block (contents q' as'))" unfolding ct by (rule insert_db_sorted)
  then show ?thesis using assms ct by (simp add: queue_wf_def)
qed

lemma contents_inserted:
  assumes "x # xs = pre @ s # post" "pre \<noteq> [] \<longrightarrow> (\<forall>z \<in> set (tl pre @ [s]). block (the (db_heap q z)) < block n)"
    and "\<not> block n < block (the (db_heap q x))" "contents q [a] = [n]"
  shows "contents q (pre @ s # takeWhile (\<lambda>z. block (the (db_heap q z)) < block n) post @ a
        # dropWhile (\<lambda>z. block (the (db_heap q z)) < block n) post) = insert_db n (contents q (x # xs))"
proof -
  define c where "c = (\<lambda>a. (the (db_heap q a))\<lparr>dnext := None\<rparr>)"
  have cont: "contents q as = map c as" for as by (simp add: contents_def c_def)
  have bc: "block (c y) = block (the (db_heap q y))" for y by (simp add: c_def)
  have tws: "map c (takeWhile (\<lambda>z. block (the (db_heap q z)) < block n) post) = takeWhile (\<lambda>y. block y < block n) (map c post)"
    "map c (dropWhile (\<lambda>z. block (the (db_heap q z)) < block n) post) = dropWhile (\<lambda>y. block y < block n) (map c post)"
    by (simp_all add: takeWhile_map dropWhile_map comp_def bc)
  show ?thesis
  proof (cases pre)
    case Nil
    then show ?thesis using assms by (simp add: cont insert_tail_eq tws bc)
  next
    case (Cons y ys)
    then have "\<forall>z \<in> set (map c (ys @ [s])). block z < block n" using assms(2) bc by auto
    then show ?thesis using assms Cons by (simp add: cont insert_tail_eq tws bc takeWhile_append dropWhile_append)
  qed
qed

lemma queue_db_behind:
  assumes "queue_wf q (x # xs)" "a \<notin> set (x # xs)" "db_heap q a = Some n" "dnext n = None" "\<not> block n < block (the (db_heap q x))"
  shows "\<exists>q' as'. queue_db a q = Inr q' \<and> queue_wf q' as' \<and> contents q' as' = insert_db n (contents q (x # xs))
    \<and> set as' = insert a (set (x # xs)) \<and> (\<forall>y. y \<notin> insert a (set (x # xs)) \<longrightarrow> db_heap q' y = db_heap q y)"
proof -
  define s where "s = search_start q x (block n)"
  obtain pre post where sp: "x # xs = pre @ s # post"
    "pre \<noteq> [] \<longrightarrow> (\<forall>z \<in> set (tl pre @ [s]). block (the (db_heap q z)) < block n)"
    using search_start_split[OF assms(1)] unfolding s_def by blast
  define tw where "tw = takeWhile (\<lambda>z. block (the (db_heap q z)) < block n) post"
  define dw where "dw = dropWhile (\<lambda>z. block (the (db_heap q z)) < block n) post"
  define d where "d = last (s # tw)"
  define ys where "ys = pre @ butlast (s # tw)"
  have yd: "ys @ [d] = pre @ s # tw" by (simp add: ys_def d_def del: last.simps butlast.simps)
  have all: "x # xs = (ys @ [d]) @ dw" unfolding yd sp(1) by (simp add: tw_def dw_def)
  have seg: "lseg (db_heap q) (Some x) (x # xs) None" "distinct (x # xs)"
    using assms(1) by (auto simp: queue_wf_def)
  obtain m where m: "lseg (db_heap q) (Some x) (ys @ [d]) m" "lseg (db_heap q) m dw None"
    using seg(1) unfolding all lseg_append[of _ _ "ys @ [d]"] by blast
  then obtain dn where dn: "db_heap q d = Some dn" "dnext dn = m" by (auto simp: lseg_append)
  have "lseg (db_heap q) (Some s) (s # post) None" using seg(1) unfolding sp(1) by (auto simp: lseg_append)
  then have adv: "advance (q\<lparr>last_used := Some a\<rparr>) (block n) s = Some (Inr d)"
    using advance_stops[of "q\<lparr>last_used := Some a\<rparr>" s post "block n"] by (simp add: d_def tw_def)
  define q' where "q' = set_next d (Some a) (set_next a m (q\<lparr>last_used := Some a\<rparr>))"
  have qd: "queue_db a q = Inr q'"
    using queue_db_search[OF assms(1,3,4,5) adv[unfolded s_def] dn(1)] dn(2) by (simp add: q'_def)
  define h' where "h' = (db_heap q)(a \<mapsto> n\<lparr>dnext := m\<rparr>, d := map_option (\<lambda>x. x\<lparr>dnext := Some a\<rparr>) (db_heap q d))"
  have da: "d \<noteq> a" "d \<in> set (x # xs)" using assms(2) unfolding all by auto
  have hq: "db_heap q' = h'" using da(1) assms(3) by (simp add: q'_def h'_def set_next_def)
  have dbx: "data_blocks q' = Some x" using assms(1) by (auto simp: q'_def set_next_def queue_wf_def)
  have sl: "lseg h' (data_blocks q') (ys @ d # a # dw) None"
    unfolding h'_def dbx using seg(2) assms(2,3) m unfolding all by (intro lseg_link) auto
  have e: "ys @ d # a # dw = pre @ s # tw @ a # dw" using arg_cong[OF yd, of "\<lambda>l. l @ a # dw"] by simp
  have ca: "contents q [a] = [n]" using assms(3,4) by (simp add: contents_def)
  have "queue_wf q' (ys @ d # a # dw) \<and> contents q' (ys @ d # a # dw) = insert_db n (contents q (x # xs))"
  proof (rule queue_inserted[OF assms(1) hq sl])
    show "(the (h' y))\<lparr>dnext := None\<rparr> = (the (db_heap q y))\<lparr>dnext := None\<rparr>" for y
      using assms(3) dn by (simp add: h'_def)
    show "distinct (ys @ d # a # dw)" using seg(2) assms(2) unfolding all by auto
    show "last_used q' = Some l \<Longrightarrow> l \<in> set (ys @ d # a # dw)" for l by (auto simp: q'_def set_next_def)
    show "contents q (ys @ d # a # dw) = insert_db n (contents q (x # xs))"
      using contents_inserted[OF sp assms(5) ca] unfolding e by (simp add: tw_def dw_def)
  qed
  moreover have "set (ys @ d # a # dw) = insert a (set (x # xs))" unfolding all by auto
  moreover have "\<forall>y. y \<notin> insert a (set (x # xs)) \<longrightarrow> db_heap q' y = db_heap q y" using hq da by (auto simp: h'_def)
  ultimately show ?thesis using qd by blast
qed

lemma queue_db_insert:
  assumes "queue_wf q as" "a \<notin> set as" "db_heap q a = Some n" "dnext n = None"
  shows "\<exists>q' as'. queue_db a q = Inr q' \<and> queue_wf q' as' \<and> contents q' as' = insert_db n (contents q as)
    \<and> set as' = insert a (set as) \<and> (\<forall>y. y \<notin> insert a (set as) \<longrightarrow> db_heap q' y = db_heap q y)"
proof (cases as)
  case Nil
  then have "queue_db a q = Inr (q\<lparr>data_blocks := Some a\<rparr>)" "queue_wf (q\<lparr>data_blocks := Some a\<rparr>) [a]"
    using assms by (auto simp: queue_db_def queue_wf_def contents_def)
  moreover have "contents (q\<lparr>data_blocks := Some a\<rparr>) [a] = [n]" using assms(3,4) by (simp add: contents_def)
  ultimately show ?thesis using Nil by (auto simp: contents_def intro!: exI[of _ "[a]"])
next
  case (Cons x xs)
  show ?thesis
  proof (cases "block n < block (the (db_heap q x))")
    case True
    define q' where "q' = (set_next a (Some x) q)\<lparr>data_blocks := Some a\<rparr>"
    define h' where "h' = (db_heap q)(a \<mapsto> n\<lparr>dnext := Some x\<rparr>)"
    obtain h where h: "db_heap q x = Some h" "data_blocks q = Some x" using assms(1) Cons by (auto simp: queue_wf_def)
    have qd: "queue_db a q = Inr q'" using True h assms(3) by (simp add: queue_db_def node_def q'_def)
    have hq: "db_heap q' = h'" by (simp add: q'_def h'_def set_next_def assms(3))
    have "\<forall>z \<in> set as. db_heap q z = h' z" using assms(2) by (auto simp: h'_def)
    then have sl: "lseg h' (data_blocks q') (a # as) None"
      using assms(1) h lseg_frame[of as "db_heap q" h' "Some x" None] by (auto simp: q'_def h'_def queue_wf_def)
    have "queue_wf q' (a # as) \<and> contents q' (a # as) = insert_db n (contents q as)"
      by (rule queue_inserted[OF assms(1) hq sl])
         (use assms True Cons in \<open>auto simp: h'_def q'_def set_next_def queue_wf_def contents_def\<close>)
    then show ?thesis using qd hq by (intro exI[of _ q'] exI[of _ "a # as"]) (auto simp: h'_def)
  next
    case False
    then show ?thesis using queue_db_behind[of q x xs a n] assms Cons by simp
  qed
qed

lemma for_each_from_eq:
  assumes "bs \<noteq> 0"
  shows "lseg (db_heap q) p as None \<Longrightarrow>
    for_each_from f g bs q p out = Some (foldR (visit f g bs) (contents q as) out)"
proof (induction as arbitrary: p out)
  case Nil
  then show ?case by (subst for_each_from.simps) (simp add: contents_def)
next
  case (Cons a as)
  then obtain n where n: "p = Some a" "db_heap q a = Some n" "lseg (db_heap q) (dnext n) as None" by auto
  have v: "visit f g bs (n\<lparr>dnext := None\<rparr>) out = visit f g bs n out" by (simp add: visit_def split: option.splits)
  show ?case
  proof (cases "visit f g bs n out")
    case (Inl e)
    then show ?thesis using n assms v by (subst for_each_from.simps) (simp add: contents_def flip: visit_def)
  next
    case (Inr out1)
    then show ?thesis using n assms v Cons.IH[OF n(3), of out1]
      by (subst for_each_from.simps) (simp add: contents_def flip: visit_def)
  qed
qed

lemma free_from_eq:
  "lseg (db_heap q) p as None \<Longrightarrow> distinct as \<Longrightarrow>
   free_from q p = Some (Inr (q\<lparr>db_heap := (\<lambda>x. if x \<in> set as then None else db_heap q x)\<rparr>))"
proof (induction as arbitrary: q p)
  case Nil
  then show ?case by (subst free_from.simps) simp
next
  case (Cons a as)
  then obtain n where n: "p = Some a" "db_heap q a = Some n" "lseg (db_heap q) (dnext n) as None" by auto
  let ?q = "q\<lparr>db_heap := (db_heap q)(a := None)\<rparr>"
  have "\<forall>x \<in> set as. db_heap q x = db_heap ?q x" using Cons.prems(2) by auto
  then have l: "lseg (db_heap ?q) (dnext n) as None" using n(3) lseg_frame[of as "db_heap q" "db_heap ?q"] by blast
  have "distinct as" using Cons.prems(2) by simp
  then have "free_from ?q (dnext n) = Some (Inr (?q\<lparr>db_heap := (\<lambda>x. if x \<in> set as then None else db_heap ?q x)\<rparr>))"
    by (rule Cons.IH[OF l])
  moreover have "(\<lambda>x. if x \<in> set as then None else db_heap ?q x) = (\<lambda>x. if x \<in> set (a # as) then None else db_heap q x)"
    by auto
  ultimately show ?case using n by (subst free_from.simps) simp
qed

lemma queue_new:
  assumes "queue_wf q as" "a \<notin> set as" "dnext db = None"
  shows "\<exists>q1 as1. queue_db a (q\<lparr>db_heap := (db_heap q)(a \<mapsto> db)\<rparr>) = Inr q1 \<and> queue_wf q1 as1
    \<and> set as1 = insert a (set as) \<and> contents q1 as1 = insert_db db (contents q as)"
proof -
  let ?q = "q\<lparr>db_heap := (db_heap q)(a \<mapsto> db)\<rparr>"
  have same: "\<forall>x \<in> set as. db_heap ?q x = db_heap q x" using assms(2) by auto
  then have c: "contents ?q as = contents q as" using contents_frame[of as ?q q] by blast
  then have "queue_wf ?q as"
    using assms(1) same lseg_frame[of as "db_heap ?q" "db_heap q"] unfolding queue_wf_def by fastforce
  then show ?thesis using queue_db_insert[of ?q as a db] assms(2,3) c by auto
qed

lemma for_each_eq:
  assumes "queue_wf q as" "bs \<noteq> 0"
  shows "for_each_data_block df ff bs q out = foldR (visit df ff bs) (contents q as) out"
  using for_each_from_eq[OF assms(2), of q "data_blocks q" as df ff out] assms(1)
  by (cases "foldR (visit df ff bs) (contents q as) out") (simp_all add: for_each_data_block_def queue_wf_def)

lemma free_eq:
  assumes "queue_wf q as"
  shows "\<exists>q1. free_data_blocks q = Inr q1 \<and> queue_wf q1 [] \<and> (\<forall>x \<in> set as. db_heap q1 x = None)"
proof (cases as)
  case Nil
  then show ?thesis using assms(1) by (auto simp: free_data_blocks_def queue_wf_def contents_def)
next
  case (Cons x xs)
  then show ?thesis using free_from_eq[of q "data_blocks q" as] assms
    by (auto simp: free_data_blocks_def queue_wf_def contents_def)
qed

text \<open>
  C17: the linked queue implements a sorted list. Queueing a block of memory or of a file at a fresh address, with
  the search starting at the last queued block when that is possible, inserts it in order of block numbers and
  always returns; walking the queue visits the list in this order; freeing it releases every node and leaves
  the empty queue. A failing allocation changes nothing.
\<close>

theorem queue_refines_sorted_list:
  assumes "queue_wf q as" "a \<notin> set as" "bs \<noteq> 0"
  shows "(\<exists>q1 as1. queue_data_block (Some a) data n blk q = Inr (0, q1) \<and> queue_wf q1 as1 \<and> set as1 = insert a (set as)
      \<and> contents q1 as1 = insert_db \<lparr>block = blk, dlen = n, ddata = data, filename = None, offset = 0, dnext = None\<rparr> (contents q as))
    \<and> (\<exists>q1 as1. queue_data_file (Some a) f off n blk q = Inr (0, q1) \<and> queue_wf q1 as1 \<and> set as1 = insert a (set as)
      \<and> contents q1 as1 = insert_db \<lparr>block = blk, dlen = n, ddata = [], filename = Some f, offset = off, dnext = None\<rparr> (contents q as))
    \<and> for_each_data_block df ff bs q out = foldR (visit df ff bs) (contents q as) out
    \<and> (\<exists>q1. free_data_blocks q = Inr q1 \<and> queue_wf q1 [] \<and> (\<forall>x \<in> set as. db_heap q1 x = None))
    \<and> queue_data_block None data n blk q = Inr (ENOMEM, q) \<and> queue_data_file None f off n blk q = Inr (ENOMEM, q)"
  using for_each_eq[OF assms(1,3), of df ff out] free_eq[OF assms(1)]
    queue_new[OF assms(1,2), of "\<lparr>block = blk, dlen = n, ddata = data, filename = None, offset = 0, dnext = None\<rparr>"]
    queue_new[OF assms(1,2), of "\<lparr>block = blk, dlen = n, ddata = [], filename = Some f, offset = off, dnext = None\<rparr>"]
  by (simp add: queue_data_block_def queue_data_file_def)

theorem queue_refines_sorted_list_witness:
  "\<exists>q1 as1 q2 as2. queue_data_block (Some 1) [7] 1 5 empty_queue = Inr (0, q1) \<and> queue_wf q1 as1
    \<and> queue_data_file (Some 2) ''f'' 0 1 3 q1 = Inr (0, q2) \<and> queue_wf q2 as2 \<and> map block (contents q2 as2) = [3, 5]"
proof -
  have "queue_wf empty_queue []" by (simp add: queue_wf_def empty_queue_def contents_def)
  moreover have "contents empty_queue [] = []" by (simp add: contents_def)
  ultimately obtain q1 as1 where q1: "queue_data_block (Some 1) [7] 1 5 empty_queue = Inr (0, q1)" "queue_wf q1 as1" "set as1 = {1}"
      "contents q1 as1 = [\<lparr>block = 5, dlen = 1, ddata = [7], filename = None, offset = 0, dnext = None\<rparr>]"
    using queue_refines_sorted_list[of empty_queue "[]" 1 1 "[7]" 1 5 "''f''" 0 "\<lambda>x _ _ _. Inr x" "\<lambda>x _ _ _ _. Inr x" "()"]
    by auto
  obtain q2 as2 where "queue_data_file (Some 2) ''f'' 0 1 3 q1 = Inr (0, q2)" "queue_wf q2 as2"
      "map block (contents q2 as2) = [3, 5]"
    using queue_refines_sorted_list[OF q1(2), of 2 1 "[]" 1 3 "''f''" 0 "\<lambda>x _ _ _. Inr x" "\<lambda>x _ _ _ _. Inr x" "()"] q1(3,4)
    by auto
  then show ?thesis using q1(1,2) by (intro exI conjI)
qed

end
