(* ===== verification/Sparse_Image.thy ===== *)
theory Sparse_Image
  imports Backed_Block
begin

text \<open>
  Writing and expanding sparse file system images: the checksum (\<open>ext4_utils/sparse_crc32.c\<close>), the output file with
  its plain and compressed operations (\<open>ext4_utils/output_file.c\<close>), the writer of an ext4 image from the queued
  blocks (\<open>write_ext4_image\<close> of \<open>ext4_utils/ext4_utils.c\<close>) and the expander (\<open>ext4_utils/simg2img.c\<close>).
\<close>

section \<open>The checksum\<close>

definition crc32_tab :: "u32 list" where
  "crc32_tab =
    [0x00000000, 0x77073096, 0xee0e612c, 0x990951ba, 0x076dc419, 0x706af48f, 0xe963a535, 0x9e6495a3,
     0x0edb8832, 0x79dcb8a4, 0xe0d5e91e, 0x97d2d988, 0x09b64c2b, 0x7eb17cbd, 0xe7b82d07, 0x90bf1d91,
     0x1db71064, 0x6ab020f2, 0xf3b97148, 0x84be41de, 0x1adad47d, 0x6ddde4eb, 0xf4d4b551, 0x83d385c7,
     0x136c9856, 0x646ba8c0, 0xfd62f97a, 0x8a65c9ec, 0x14015c4f, 0x63066cd9, 0xfa0f3d63, 0x8d080df5,
     0x3b6e20c8, 0x4c69105e, 0xd56041e4, 0xa2677172, 0x3c03e4d1, 0x4b04d447, 0xd20d85fd, 0xa50ab56b,
     0x35b5a8fa, 0x42b2986c, 0xdbbbc9d6, 0xacbcf940, 0x32d86ce3, 0x45df5c75, 0xdcd60dcf, 0xabd13d59,
     0x26d930ac, 0x51de003a, 0xc8d75180, 0xbfd06116, 0x21b4f4b5, 0x56b3c423, 0xcfba9599, 0xb8bda50f,
     0x2802b89e, 0x5f058808, 0xc60cd9b2, 0xb10be924, 0x2f6f7c87, 0x58684c11, 0xc1611dab, 0xb6662d3d,
     0x76dc4190, 0x01db7106, 0x98d220bc, 0xefd5102a, 0x71b18589, 0x06b6b51f, 0x9fbfe4a5, 0xe8b8d433,
     0x7807c9a2, 0x0f00f934, 0x9609a88e, 0xe10e9818, 0x7f6a0dbb, 0x086d3d2d, 0x91646c97, 0xe6635c01,
     0x6b6b51f4, 0x1c6c6162, 0x856530d8, 0xf262004e, 0x6c0695ed, 0x1b01a57b, 0x8208f4c1, 0xf50fc457,
     0x65b0d9c6, 0x12b7e950, 0x8bbeb8ea, 0xfcb9887c, 0x62dd1ddf, 0x15da2d49, 0x8cd37cf3, 0xfbd44c65,
     0x4db26158, 0x3ab551ce, 0xa3bc0074, 0xd4bb30e2, 0x4adfa541, 0x3dd895d7, 0xa4d1c46d, 0xd3d6f4fb,
     0x4369e96a, 0x346ed9fc, 0xad678846, 0xda60b8d0, 0x44042d73, 0x33031de5, 0xaa0a4c5f, 0xdd0d7cc9,
     0x5005713c, 0x270241aa, 0xbe0b1010, 0xc90c2086, 0x5768b525, 0x206f85b3, 0xb966d409, 0xce61e49f,
     0x5edef90e, 0x29d9c998, 0xb0d09822, 0xc7d7a8b4, 0x59b33d17, 0x2eb40d81, 0xb7bd5c3b, 0xc0ba6cad,
     0xedb88320, 0x9abfb3b6, 0x03b6e20c, 0x74b1d29a, 0xead54739, 0x9dd277af, 0x04db2615, 0x73dc1683,
     0xe3630b12, 0x94643b84, 0x0d6d6a3e, 0x7a6a5aa8, 0xe40ecf0b, 0x9309ff9d, 0x0a00ae27, 0x7d079eb1,
     0xf00f9344, 0x8708a3d2, 0x1e01f268, 0x6906c2fe, 0xf762575d, 0x806567cb, 0x196c3671, 0x6e6b06e7,
     0xfed41b76, 0x89d32be0, 0x10da7a5a, 0x67dd4acc, 0xf9b9df6f, 0x8ebeeff9, 0x17b7be43, 0x60b08ed5,
     0xd6d6a3e8, 0xa1d1937e, 0x38d8c2c4, 0x4fdff252, 0xd1bb67f1, 0xa6bc5767, 0x3fb506dd, 0x48b2364b,
     0xd80d2bda, 0xaf0a1b4c, 0x36034af6, 0x41047a60, 0xdf60efc3, 0xa867df55, 0x316e8eef, 0x4669be79,
     0xcb61b38c, 0xbc66831a, 0x256fd2a0, 0x5268e236, 0xcc0c7795, 0xbb0b4703, 0x220216b9, 0x5505262f,
     0xc5ba3bbe, 0xb2bd0b28, 0x2bb45a92, 0x5cb36a04, 0xc2d7ffa7, 0xb5d0cf31, 0x2cd99e8b, 0x5bdeae1d,
     0x9b64c2b0, 0xec63f226, 0x756aa39c, 0x026d930a, 0x9c0906a9, 0xeb0e363f, 0x72076785, 0x05005713,
     0x95bf4a82, 0xe2b87a14, 0x7bb12bae, 0x0cb61b38, 0x92d28e9b, 0xe5d5be0d, 0x7cdcefb7, 0x0bdbdf21,
     0x86d3d2d4, 0xf1d4e242, 0x68ddb3f8, 0x1fda836e, 0x81be16cd, 0xf6b9265b, 0x6fb077e1, 0x18b74777,
     0x88085ae6, 0xff0f6a70, 0x66063bca, 0x11010b5c, 0x8f659eff, 0xf862ae69, 0x616bffd3, 0x166ccf45,
     0xa00ae278, 0xd70dd2ee, 0x4e048354, 0x3903b3c2, 0xa7672661, 0xd06016f7, 0x4969474d, 0x3e6e77db,
     0xaed16a4a, 0xd9d65adc, 0x40df0b66, 0x37d83bf0, 0xa9bcae53, 0xdebb9ec5, 0x47b2cf7f, 0x30b5ffe9,
     0xbdbdf21c, 0xcabac28a, 0x53b39330, 0x24b4a3a6, 0xbad03605, 0xcdd70693, 0x54de5729, 0x23d967bf,
     0xb3667a2e, 0xc4614ab8, 0x5d681b02, 0x2a6f2b94, 0xb40bbe37, 0xc30c8ea1, 0x5a05df1b, 0x2d02ef8d]"

fun crc_loop :: "u32 \<Rightarrow> bytes \<Rightarrow> u32" where
  "crc_loop crc [] = crc"
| "crc_loop crc (p # ps) = crc_loop (crc32_tab ! unat ((crc XOR ucast p) AND 0xFF) XOR drop_bit 8 crc) ps"

definition sparse_crc32 :: "u32 \<Rightarrow> bytes \<Rightarrow> u32" where
  "sparse_crc32 crc_in buf = crc_loop (crc_in XOR NOT 0) buf XOR NOT 0"

section \<open>The sparse format\<close>

text \<open>Numbers in memory are little-endian.\<close>

definition le :: "nat \<Rightarrow> nat \<Rightarrow> bytes" where
  "le n v = map (\<lambda>i. of_nat (v div 256 ^ i)) [0..<n]"

fun un_le :: "bytes \<Rightarrow> nat" where
  "un_le [] = 0"
| "un_le (b # bs) = unat b + 256 * un_le bs"

record sparse_header =
  magic :: u32
  major_version :: u16
  minor_version :: u16
  file_hdr_sz :: u16
  chunk_hdr_sz :: u16
  blk_sz :: u32
  total_blks :: u32
  total_chunks :: u32
  image_checksum :: u32

record chunk_header =
  chunk_type :: u16
  reserved1 :: u16
  chunk_sz :: u32
  total_sz :: u32

definition SPARSE_HEADER_MAGIC :: u32 where "SPARSE_HEADER_MAGIC = 0xed26ff3a"
definition SPARSE_HEADER_MAJOR_VER :: u16 where "SPARSE_HEADER_MAJOR_VER = 1"
definition SPARSE_HEADER_MINOR_VER :: u16 where "SPARSE_HEADER_MINOR_VER = 0"
definition SPARSE_HEADER_LEN :: nat where "SPARSE_HEADER_LEN = 28"
definition CHUNK_HEADER_LEN :: nat where "CHUNK_HEADER_LEN = 12"
definition CHUNK_TYPE_RAW :: u16 where "CHUNK_TYPE_RAW = 0xCAC1"
definition CHUNK_TYPE_DONT_CARE :: u16 where "CHUNK_TYPE_DONT_CARE = 0xCAC3"

definition sparse_header_bytes :: "sparse_header \<Rightarrow> bytes" where
  "sparse_header_bytes h =
     le 4 (unat (magic h)) @ le 2 (unat (major_version h)) @ le 2 (unat (minor_version h))
     @ le 2 (unat (file_hdr_sz h)) @ le 2 (unat (chunk_hdr_sz h)) @ le 4 (unat (blk_sz h))
     @ le 4 (unat (total_blks h)) @ le 4 (unat (total_chunks h)) @ le 4 (unat (image_checksum h))"

definition chunk_header_bytes :: "chunk_header \<Rightarrow> bytes" where
  "chunk_header_bytes h =
     le 2 (unat (chunk_type h)) @ le 2 (unat (reserved1 h)) @ le 4 (unat (chunk_sz h)) @ le 4 (unat (total_sz h))"

definition field :: "bytes \<Rightarrow> nat \<Rightarrow> nat \<Rightarrow> nat" where
  "field b p n = un_le (take n (drop p b))"

definition to_sparse_header :: "bytes \<Rightarrow> sparse_header" where
  "to_sparse_header b =
     \<lparr>magic = of_nat (field b 0 4), major_version = of_nat (field b 4 2), minor_version = of_nat (field b 6 2),
      file_hdr_sz = of_nat (field b 8 2), chunk_hdr_sz = of_nat (field b 10 2), blk_sz = of_nat (field b 12 4),
      total_blks = of_nat (field b 16 4), total_chunks = of_nat (field b 20 4), image_checksum = of_nat (field b 24 4)\<rparr>"

definition to_chunk_header :: "bytes \<Rightarrow> chunk_header" where
  "to_chunk_header b =
     \<lparr>chunk_type = of_nat (field b 0 2), reserved1 = of_nat (field b 2 2), chunk_sz = of_nat (field b 4 4),
      total_sz = of_nat (field b 8 4)\<rparr>"

section \<open>The output file\<close>

record fs_info =
  fs_len :: u64
  block_size :: u32

text \<open>
  The environment: the results of \<open>lseek64\<close>, of \<open>write\<close> and \<open>gzwrite\<close> for a number of bytes, by the number of calls so
  far; what a compressed stream looks like in the file; and the files that blocks can be backed by.
\<close>

record out_env =
  seek_ok :: "nat \<Rightarrow> bool"
  out_write :: "nat \<Rightarrow> nat \<Rightarrow> int"
  gzip :: "bytes \<Rightarrow> bytes"
  open_ok :: bool
  gzdopen_ok :: bool
  zero_buf_ok :: bool
  in_file :: "string \<Rightarrow> bytes option"
  mmap_ok :: "string \<Rightarrow> int \<Rightarrow> int \<Rightarrow> bool"

text \<open>Overwriting at a position; a gap behind the end is filled with zeroes.\<close>

definition put_at :: "bytes \<Rightarrow> nat \<Rightarrow> bytes \<Rightarrow> bytes" where
  "put_at xs p d = take p xs @ replicate (p - length xs) 0 @ d @ drop (p + length d) xs"

record output_file =
  fd_data :: bytes
  fd_pos :: nat
  gz_fd :: "bytes option"
  sparse :: bool
  cur_out_ptr :: u64
  chunk_cnt :: u32
  crc32 :: u32
  header :: sparse_header
  ocalls :: nat

definition otick :: "output_file \<Rightarrow> output_file" where
  "otick out = out\<lparr>ocalls := ocalls out + 1\<rparr>"

definition file_seek :: "out_env \<Rightarrow> int \<Rightarrow> output_file \<Rightarrow> int \<times> output_file" where
  "file_seek E off out =
     (if seek_ok E (ocalls out) \<and> 0 \<le> off then (0, (otick out)\<lparr>fd_pos := nat off\<rparr>) else (- 1, otick out))"

definition file_write :: "out_env \<Rightarrow> bytes \<Rightarrow> output_file \<Rightarrow> int \<times> output_file" where
  "file_write E data out =
     (let ret = min (out_write E (ocalls out) (length data)) (int (length data)); out' = otick out in
      if ret < 0 then (- 1, out')
      else
        let out' = out'\<lparr>fd_data := put_at (fd_data out) (fd_pos out) (take (nat ret) data), fd_pos := fd_pos out + nat ret\<rparr> in
        (if ret < int (length data) then - 1 else 0, out'))"

text \<open>On a stream opened for writing only forward seeks work; they write zeroes.\<close>

definition gz_file_seek :: "out_env \<Rightarrow> int \<Rightarrow> bytes \<Rightarrow> output_file \<Rightarrow> int \<times> output_file" where
  "gz_file_seek E off z out =
     (if seek_ok E (ocalls out) \<and> int (length z) \<le> off
      then (0, (otick out)\<lparr>gz_fd := Some (z @ replicate (nat off - length z) 0)\<rparr>) else (- 1, otick out))"

definition gz_file_write :: "out_env \<Rightarrow> bytes \<Rightarrow> bytes \<Rightarrow> output_file \<Rightarrow> int \<times> output_file" where
  "gz_file_write E data z out =
     (let ret = min (out_write E (ocalls out) (length data)) (int (length data)) in
      if ret < 0 then (- 1, otick out)
      else (if ret < int (length data) then - 1 else 0, (otick out)\<lparr>gz_fd := Some (z @ take (nat ret) data)\<rparr>))"

definition gz_file_close :: "out_env \<Rightarrow> bytes \<Rightarrow> output_file \<Rightarrow> output_file" where
  "gz_file_close E z out =
     out\<lparr>fd_data := put_at (fd_data out) (fd_pos out) (gzip E z), fd_pos := fd_pos out + length (gzip E z), gz_fd := None\<rparr>"

text \<open>The operations in use are those of the compressed stream as long as there is one.\<close>

definition ops_seek :: "out_env \<Rightarrow> int \<Rightarrow> output_file \<Rightarrow> int \<times> output_file" where
  "ops_seek E off out = (case gz_fd out of None \<Rightarrow> file_seek E off out | Some z \<Rightarrow> gz_file_seek E off z out)"

definition ops_write :: "out_env \<Rightarrow> bytes \<Rightarrow> output_file \<Rightarrow> int \<times> output_file" where
  "ops_write E data out = (case gz_fd out of None \<Rightarrow> file_write E data out | Some z \<Rightarrow> gz_file_write E data z out)"

definition initial_sparse_header :: sparse_header where
  "initial_sparse_header =
     \<lparr>magic = SPARSE_HEADER_MAGIC, major_version = SPARSE_HEADER_MAJOR_VER, minor_version = SPARSE_HEADER_MINOR_VER,
      file_hdr_sz = of_nat SPARSE_HEADER_LEN, chunk_hdr_sz = of_nat CHUNK_HEADER_LEN, blk_sz = 0, total_blks = 0,
      total_chunks = 0, image_checksum = 0\<rparr>"

section \<open>Chunks\<close>

definition zero_buf :: "fs_info \<Rightarrow> bytes" where
  "zero_buf info = replicate (unat (block_size info)) 0"

text \<open>The checksum of skipped zeroes, a block at a time.\<close>

partial_function (option) crc_zeroes :: "fs_info \<Rightarrow> u64 \<Rightarrow> u32 \<Rightarrow> u32 res option" where
  "crc_zeroes info skip_len crc =
     (if skip_len = 0 then Some (Inr crc)
      else
        let chunk = (if skip_len > ucast (block_size info) then sint (block_size info) else s32 (uint skip_len)) in
        case region (zero_buf info) 0 chunk of
          Inl e \<Rightarrow> Some (Inl e)
        | Inr z \<Rightarrow> crc_zeroes info (skip_len - word_of_int chunk) (sparse_crc32 crc z))"

declare crc_zeroes.simps [code]

definition emit_skip_chunk :: "out_env \<Rightarrow> fs_info \<Rightarrow> u64 \<Rightarrow> output_file \<Rightarrow> (int \<times> output_file) res" where
  "emit_skip_chunk E info skip_len out =
     (if block_size info = 0 then Inl DivByZero
      else if skip_len mod ucast (block_size info) \<noteq> 0 then Inr (- 1, out)
      else
        case ops_write E (chunk_header_bytes
            \<lparr>chunk_type = CHUNK_TYPE_DONT_CARE, reserved1 = 0, chunk_sz = ucast (skip_len div ucast (block_size info)),
             total_sz = of_nat CHUNK_HEADER_LEN\<rparr>) out of (ret, out) \<Rightarrow>
          if ret < 0 then Inr (- 1, out)
          else
            let out = out\<lparr>cur_out_ptr := cur_out_ptr out + skip_len, chunk_cnt := chunk_cnt out + 1\<rparr> in
            bindR (bindR (of_loop (crc_zeroes info skip_len (crc32 out))) id) (\<lambda>crc. Inr (0, out\<lparr>crc32 := crc\<rparr>)))"

text \<open>The length is an \<open>int\<close>, the rounding is done in the unsigned type of the block size.\<close>

definition write_chunk_raw :: "out_env \<Rightarrow> fs_info \<Rightarrow> u64 \<Rightarrow> bytes \<Rightarrow> int \<Rightarrow> output_file \<Rightarrow> (int \<times> output_file) res" where
  "write_chunk_raw E info off data n out =
     (if off < cur_out_ptr out then Inr (- 1, out)
      else
        bindR (if off > cur_out_ptr out
               then bindR (emit_skip_chunk E info (off - cur_out_ptr out) out) (\<lambda>(_, out). Inr out) else Inr out) (\<lambda>out.
        if block_size info = 0 then Inl DivByZero
        else if off mod ucast (block_size info) \<noteq> 0 then Inr (- 1, out)
        else if off \<noteq> cur_out_ptr out then Inr (- 1, out)
        else
          let rnd = (word_of_int n + (block_size info - 1)) AND NOT (block_size info - 1);
              rnd_up_len = sint rnd; zero_len = s32 (rnd_up_len - n) in
          case ops_write E (chunk_header_bytes
              \<lparr>chunk_type = CHUNK_TYPE_RAW, reserved1 = 0, chunk_sz = rnd div block_size info,
               total_sz = of_nat CHUNK_HEADER_LEN + rnd\<rparr>) out of (ret, out) \<Rightarrow>
            if ret < 0 then Inr (- 1, out)
            else bindR (region data 0 n) (\<lambda>d.
              case ops_write E d out of (ret, out) \<Rightarrow>
                if ret < 0 then Inr (- 1, out)
                else
                  bindR (if zero_len \<noteq> 0 then region (zero_buf info) 0 zero_len else Inr []) (\<lambda>z.
                  case (if zero_len \<noteq> 0 then ops_write E z out else (0, out)) of (ret, out) \<Rightarrow>
                    if ret < 0 then Inr (- 1, out)
                    else
                      let crc = sparse_crc32 (crc32 out) d;
                          crc = (if zero_len \<noteq> 0 then sparse_crc32 crc z else crc) in
                      Inr (0, out\<lparr>crc32 := crc, cur_out_ptr := cur_out_ptr out + word_of_int rnd_up_len,
                                  chunk_cnt := chunk_cnt out + 1\<rparr>)))))"

section \<open>Opening, writing, padding and closing\<close>

definition open_output_file :: "out_env \<Rightarrow> fs_info \<Rightarrow> bool \<Rightarrow> bool \<Rightarrow> sparse_header \<Rightarrow> output_file option res" where
  "open_output_file E info gz sp hdr =
     (if \<not> zero_buf_ok E \<or> \<not> open_ok E then Inr None
      else
        bindR (if sp
               then (if block_size info = 0 then Inl DivByZero
                     else Inr (hdr\<lparr>blk_sz := block_size info, total_blks := ucast (fs_len info div ucast (block_size info))\<rparr>))
               else Inr hdr) (\<lambda>hdr.
        let out = \<lparr>fd_data = [], fd_pos = 0, gz_fd = None, sparse = sp, cur_out_ptr = 0, chunk_cnt = 0, crc32 = 0,
                   header = hdr, ocalls = 0\<rparr> in
        case (if sp then file_write E (sparse_header_bytes hdr) out else (0, out)) of (ret, out) \<Rightarrow>
          if ret < 0 then Inr None
          else if gz then Inr (if gzdopen_ok E then Some (out\<lparr>gz_fd := Some []\<rparr>) else None)
          else Inr (Some out)))"

definition close_output_file :: "out_env \<Rightarrow> output_file \<Rightarrow> output_file" where
  "close_output_file E out =
     (let out = (case gz_fd out of None \<Rightarrow> out | Some z \<Rightarrow> gz_file_close E z out) in
      if sparse out
      then
        let out = out\<lparr>header := (header out)\<lparr>total_chunks := chunk_cnt out, image_checksum := crc32 out\<rparr>\<rparr>;
            out = snd (ops_seek E 0 out) in
        snd (ops_write E (sparse_header_bytes (header out)) out)
      else out)"

definition pad_output_file :: "out_env \<Rightarrow> fs_info \<Rightarrow> u64 \<Rightarrow> output_file \<Rightarrow> output_file res" where
  "pad_output_file E info n out =
     (if n > fs_len info then Inr out
      else if sparse out then
        (if n < cur_out_ptr out then Inr out
         else if n > cur_out_ptr out
         then bindR (emit_skip_chunk E info (n - cur_out_ptr out) out) (\<lambda>(_, out). Inr out)
         else Inr out)
      else case ops_seek E (sint (n - 1)) out of (ret, out) \<Rightarrow>
        Inr (if ret < 0 then out else snd (ops_write E [0] out)))"

definition write_data_block :: "out_env \<Rightarrow> fs_info \<Rightarrow> output_file \<Rightarrow> u64 \<Rightarrow> bytes \<Rightarrow> int \<Rightarrow> output_file res" where
  "write_data_block E info out off data n =
     (if off + word_of_int n > fs_len info then Inr out
      else if sparse out then bindR (write_chunk_raw E info off data n out) (\<lambda>(_, out). Inr out)
      else case ops_seek E (sint off) out of (ret, out) \<Rightarrow>
        if ret < 0 then Inr out
        else bindR (region data 0 n) (\<lambda>d. Inr (snd (ops_write E d out))))"

text \<open>A mapped file reads as zeroes up to the end of its last page.\<close>

definition page_padded :: "bytes \<Rightarrow> bytes" where
  "page_padded d = d @ replicate ((4096 - length d mod 4096) mod 4096) 0"

definition write_data_file ::
  "out_env \<Rightarrow> fs_info \<Rightarrow> output_file \<Rightarrow> u64 \<Rightarrow> string \<Rightarrow> int \<Rightarrow> int \<Rightarrow> output_file res" where
  "write_data_file E info out off file_name foff n =
     (if off + word_of_int n \<ge> fs_len info then Inr out
      else case in_file E file_name of
        None \<Rightarrow> Inr out
      | Some content \<Rightarrow>
          if \<not> mmap_ok E file_name foff n then Inr out
          else bindR (region (page_padded content) foff n) (\<lambda>data.
            if sparse out then bindR (write_chunk_raw E info off data n out) (\<lambda>(_, out). Inr out)
            else case ops_seek E (sint off) out of (ret, out) \<Rightarrow>
              Inr (if ret < 0 then out else snd (ops_write E data out))))"

text \<open>
  The image writer: super block, block group descriptors, queued blocks, padding. The result is the contents of
  the output file, or \<open>None\<close> when it could not be opened.
\<close>

definition write_ext4_image ::
  "out_env \<Rightarrow> fs_info \<Rightarrow> bytes \<Rightarrow> bytes \<Rightarrow> u32 \<Rightarrow> u32 \<Rightarrow> db_queue \<Rightarrow> bool \<Rightarrow> bool \<Rightarrow> sparse_header \<Rightarrow> bytes option res" where
  "write_ext4_image E info sb bg_desc first_data_block bg_desc_blocks q gz sp hdr =
     bindR (open_output_file E info gz sp hdr) (\<lambda>r.
     case r of
       None \<Rightarrow> Inr None
     | Some out \<Rightarrow>
         bindR (if block_size info > 1024
                then write_data_block E info out 0 (store (replicate 4096 0) 1024 sb) (sint (block_size info))
                else write_data_block E info out 1024 sb 1024) (\<lambda>out.
         bindR (write_data_block E info out (ucast (first_data_block + 1) * ucast (block_size info)) bg_desc
                  (sint (bg_desc_blocks * block_size info))) (\<lambda>out.
         bindR (for_each_data_block (write_data_block E info) (write_data_file E info) (block_size info) q out) (\<lambda>out.
         bindR (pad_output_file E info (fs_len info) out) (\<lambda>out.
         Inr (Some (fd_data (close_output_file E out))))))))"

section \<open>Expanding a sparse image\<close>

definition COPY_BUF_SIZE :: u64 where "COPY_BUF_SIZE = 1024 * 1024"

text \<open>
  The two files: what is left of the input, and the output with its position; \<open>fw n\<close> says whether the \<open>n\<close>-th \<open>fwrite\<close> works.
  \<open>None\<close> stands for \<open>exit(-1)\<close>.
\<close>

record expander =
  sin :: bytes
  sout :: bytes
  spos :: nat
  scrc :: u32
  sblocks :: u32
  swrites :: nat

definition fread :: "nat \<Rightarrow> expander \<Rightarrow> (bytes \<times> expander) option" where
  "fread n x = (if n \<le> length (sin x) then Some (take n (sin x), x\<lparr>sin := drop n (sin x)\<rparr>) else None)"

definition fwrite :: "(nat \<Rightarrow> bool) \<Rightarrow> bytes \<Rightarrow> expander \<Rightarrow> expander option" where
  "fwrite fw d x =
     (if fw (swrites x)
      then Some (x\<lparr>sout := put_at (sout x) (spos x) d, spos := spos x + length d, swrites := swrites x + 1\<rparr>) else None)"

function process_raw_chunk :: "(nat \<Rightarrow> bool) \<Rightarrow> u64 \<Rightarrow> expander \<Rightarrow> expander option" where
  "process_raw_chunk fw n x =
     (if n = 0 then Some x
      else
        let chunk = (if n > COPY_BUF_SIZE then COPY_BUF_SIZE else n) in
        case fread (unat chunk) x of
          None \<Rightarrow> None
        | Some (d, x) \<Rightarrow>
            (case fwrite fw d (x\<lparr>scrc := sparse_crc32 (scrc x) d\<rparr>) of
               None \<Rightarrow> None
             | Some x \<Rightarrow> process_raw_chunk fw (n - chunk) x))"
  by pat_completeness auto

termination
proof (relation "measure (\<lambda>(fw, n, x). unat n)")
  fix n chunk :: u64
  assume "n \<noteq> 0" "chunk = (if n > COPY_BUF_SIZE then COPY_BUF_SIZE else n)"
  then have "chunk \<le> n" "chunk \<noteq> 0" by (auto simp: COPY_BUF_SIZE_def)
  then show "((fw, n - chunk, y), fw, n, x) \<in> measure (\<lambda>(fw, n, x). unat n)" for fw x y
    using unat_sub_less[of chunk n] by simp
qed simp

declare process_raw_chunk.simps [simp del]

text \<open>Seeking forward in steps; the last step is the first chunk size of the second loop.\<close>

definition skip_step :: "u64 \<Rightarrow> u32" where
  "skip_step n = (if n > 0x80000000 then 0x80000000 else ucast n)"

function skip_seek :: "u64 \<Rightarrow> nat \<Rightarrow> u32 \<Rightarrow> nat \<times> u32" where
  "skip_seek n pos prev =
     (if n = 0 then (pos, prev)
      else skip_seek (n - ucast (skip_step n)) (pos + unat (skip_step n)) (skip_step n))"
  by pat_completeness auto

termination
proof (relation "measure (\<lambda>(n, pos, prev). unat n)")
  fix n :: u64 and pos :: nat and prev :: u32
  assume n: "n \<noteq> 0"
  have "ucast (ucast n :: u32) = n" if "n \<le> 0x80000000" using that ucast_ucast_small[of n] by (simp add: word_le_nat_alt)
  then have "ucast (skip_step n) \<le> n" "ucast (skip_step n) \<noteq> (0 :: u64)" using n by (auto simp: skip_step_def)
  then show "((n - ucast (skip_step n), pos + unat (skip_step n), skip_step n), n, pos, prev) \<in> measure (\<lambda>(n, pos, prev). unat n)"
    using unat_sub_less[of "ucast (skip_step n)" n] by simp
qed simp

declare skip_seek.simps [simp del]

partial_function (option) skip_crc :: "bytes \<Rightarrow> u32 \<Rightarrow> u64 \<Rightarrow> u32 \<Rightarrow> u32 \<Rightarrow> u32 res option" where
  "skip_crc zerobuf bsz n skip_chunk crc =
     (if n = 0 then Some (Inr crc)
      else
        let skip_chunk = (if skip_chunk > bsz then bsz else skip_chunk) in
        case region zerobuf 0 (uint skip_chunk) of
          Inl e \<Rightarrow> Some (Inl e)
        | Inr z \<Rightarrow> skip_crc zerobuf bsz (n - ucast skip_chunk) skip_chunk (sparse_crc32 crc z))"

declare skip_crc.simps [code]

definition process_skip_chunk :: "bytes \<Rightarrow> u32 \<Rightarrow> u32 \<Rightarrow> expander \<Rightarrow> expander res" where
  "process_skip_chunk zerobuf bsz blocks x =
     (let n = ucast blocks * ucast bsz :: u64;
          (pos, prev) = skip_seek n (spos x) 0 in
      bindR (bindR (of_loop (skip_crc zerobuf bsz n prev (scrc x))) id) (\<lambda>crc.
      Inr (x\<lparr>spos := pos, scrc := crc\<rparr>)))"

definition process_chunk :: "(nat \<Rightarrow> bool) \<Rightarrow> bytes \<Rightarrow> sparse_header \<Rightarrow> expander \<Rightarrow> expander option res" where
  "process_chunk fw zerobuf h x =
     (case fread CHUNK_HEADER_LEN x of
        None \<Rightarrow> Inr None
      | Some (b, x) \<Rightarrow>
          let c = to_chunk_header b;
              x = (if unat (chunk_hdr_sz h) > CHUNK_HEADER_LEN
                   then x\<lparr>sin := drop (unat (chunk_hdr_sz h) - CHUNK_HEADER_LEN) (sin x)\<rparr> else x) in
          if chunk_type c = CHUNK_TYPE_RAW then
            (if total_sz c \<noteq> ucast (chunk_hdr_sz h) + chunk_sz c * blk_sz h then Inr None
             else (case process_raw_chunk fw (ucast (chunk_sz c) * ucast (blk_sz h)) x of
                     None \<Rightarrow> Inr None
                   | Some x \<Rightarrow> Inr (Some (x\<lparr>sblocks := sblocks x + chunk_sz c\<rparr>))))
          else if chunk_type c = CHUNK_TYPE_DONT_CARE then
            (if total_sz c \<noteq> ucast (chunk_hdr_sz h) then Inr None
             else bindR (process_skip_chunk zerobuf (blk_sz h) (chunk_sz c) x) (\<lambda>x.
               Inr (Some (x\<lparr>sblocks := sblocks x + chunk_sz c\<rparr>))))
          else Inr None)"

fun process_chunks :: "(nat \<Rightarrow> bool) \<Rightarrow> bytes \<Rightarrow> sparse_header \<Rightarrow> nat \<Rightarrow> expander \<Rightarrow> expander option res" where
  "process_chunks fw zerobuf h 0 x = Inr (Some x)"
| "process_chunks fw zerobuf h (Suc n) x =
     bindR (process_chunk fw zerobuf h x) (\<lambda>r.
     case r of None \<Rightarrow> Inr None | Some x \<Rightarrow> process_chunks fw zerobuf h n x)"

text \<open>
  \<open>main\<close>: the exit code and the output file, which is left incomplete by an early exit. \<open>zerobuf\<close> is whatever \<open>malloc\<close> returned for the block size, \<open>None\<close> when it fails.
\<close>

definition simg2img ::
  "(nat \<Rightarrow> bool) \<Rightarrow> (nat \<Rightarrow> bytes option) \<Rightarrow> bool \<Rightarrow> bytes \<Rightarrow> (int \<times> bytes option) res" where
  "simg2img fw malloc_zerobuf truncate_ok input =
     (let x = \<lparr>sin = input, sout = [], spos = 0, scrc = 0, sblocks = 0, swrites = 0\<rparr> in
      case fread SPARSE_HEADER_LEN x of
        None \<Rightarrow> Inr (- 1, None)
      | Some (b, x) \<Rightarrow>
          let h = to_sparse_header b in
          if magic h \<noteq> SPARSE_HEADER_MAGIC \<or> major_version h \<noteq> SPARSE_HEADER_MAJOR_VER then Inr (- 1, None)
          else
            let x = (if unat (file_hdr_sz h) > SPARSE_HEADER_LEN
                     then x\<lparr>sin := drop (unat (file_hdr_sz h) - SPARSE_HEADER_LEN) (sin x)\<rparr> else x) in
            (case malloc_zerobuf (unat (blk_sz h)) of
               None \<Rightarrow> Inr (- 1, None)
             | Some zerobuf \<Rightarrow>
                 bindR (process_chunks fw zerobuf h (unat (total_chunks h)) x) (\<lambda>r.
                 case r of
                   None \<Rightarrow> Inr (- 1, None)
                 | Some x \<Rightarrow>
                     if \<not> truncate_ok then Inr (- 1, None)
                     else
                       let size = unat (ucast (sblocks x) * ucast (blk_sz h) :: u64);
                           image = take size (sout x @ replicate (size - length (sout x)) 0) in
                       Inr (if total_blks h \<noteq> sblocks x \<or> image_checksum h \<noteq> scrc x then - 1 else 0, Some image))))"

section \<open>Notions used in the statements\<close>

text \<open>A chunk as data: what it looks like in the file, what it expands to, and when it can be represented.\<close>

datatype chunk = RawChunk bytes | SkipChunk nat

fun chunk_bytes :: "nat \<Rightarrow> chunk \<Rightarrow> bytes" where
  "chunk_bytes bs (RawChunk d) =
     chunk_header_bytes \<lparr>chunk_type = CHUNK_TYPE_RAW, reserved1 = 0, chunk_sz = of_nat (length d div bs),
                         total_sz = of_nat (12 + length d)\<rparr> @ d"
| "chunk_bytes bs (SkipChunk k) =
     chunk_header_bytes \<lparr>chunk_type = CHUNK_TYPE_DONT_CARE, reserved1 = 0, chunk_sz = of_nat k, total_sz = 12\<rparr>"

fun expand :: "nat \<Rightarrow> chunk \<Rightarrow> bytes" where
  "expand bs (RawChunk d) = d"
| "expand bs (SkipChunk k) = replicate (k * bs) 0"

fun chunk_ok :: "nat \<Rightarrow> chunk \<Rightarrow> bool" where
  "chunk_ok bs (RawChunk d) \<longleftrightarrow> bs dvd length d \<and> length d < 2 ^ 31"
| "chunk_ok bs (SkipChunk k) \<longleftrightarrow> k < 2 ^ 32"

definition works :: "out_env \<Rightarrow> bool" where
  "works E \<longleftrightarrow> (\<forall>n. seek_ok E n) \<and> (\<forall>n k. out_write E n k \<ge> int k) \<and> open_ok E \<and> zero_buf_ok E"

text \<open>The supported block sizes.\<close>

definition ext4_block :: "u32 \<Rightarrow> bool" where
  "ext4_block b \<longleftrightarrow> b = 1024 \<or> b = 2048 \<or> b = 4096"

text \<open>The writer has written the chunks \<open>cs\<close> behind some header, which expand to \<open>img\<close>.\<close>

definition written :: "fs_info \<Rightarrow> chunk list \<Rightarrow> bytes \<Rightarrow> output_file \<Rightarrow> bool" where
  "written info cs img out \<longleftrightarrow>
     sparse out \<and> gz_fd out = None \<and> fd_pos out = length (fd_data out)
     \<and> drop 28 (fd_data out) = List.concat (map (chunk_bytes (unat (block_size info))) cs) \<and> 28 \<le> length (fd_data out)
     \<and> List.concat (map (expand (unat (block_size info))) cs) = img \<and> list_all (chunk_ok (unat (block_size info))) cs
     \<and> chunk_cnt out = of_nat (length cs) \<and> cur_out_ptr out = of_nat (length img) \<and> crc32 out = sparse_crc32 0 img
     \<and> header out = initial_sparse_header\<lparr>blk_sz := block_size info, total_blks := ucast (fs_len info div ucast (block_size info))\<rparr>"

definition pad_len :: "nat \<Rightarrow> nat \<Rightarrow> nat" where
  "pad_len bs n = (n + bs - 1) div bs * bs - n"

text \<open>The expander has produced \<open>img\<close>, with skipped zeroes at the end possibly not written yet.\<close>

definition expanded :: "bytes \<Rightarrow> expander \<Rightarrow> bool" where
  "expanded img x \<longleftrightarrow>
     length (sout x) \<le> spos x \<and> spos x = length img \<and> sout x @ replicate (spos x - length (sout x)) 0 = img
     \<and> scrc x = sparse_crc32 0 img"

text \<open>Regions of data by byte offset: their place in the image, in the order in which they are written.\<close>

fun layout_ok :: "nat \<Rightarrow> nat \<Rightarrow> nat \<Rightarrow> (nat \<times> bytes) list \<Rightarrow> bool" where
  "layout_ok bs limit cur [] = True"
| "layout_ok bs limit cur ((off, d) # rs) \<longleftrightarrow>
     cur \<le> off \<and> bs dvd off \<and> off + length d \<le> limit \<and> length d + bs \<le> 2 ^ 31
     \<and> layout_ok bs limit (off + length d + pad_len bs (length d)) rs"

definition put_region :: "nat \<Rightarrow> bytes \<Rightarrow> nat \<times> bytes \<Rightarrow> bytes" where
  "put_region bs img r = img @ replicate (fst r - length img) 0 @ snd r @ replicate (pad_len bs (length (snd r))) 0"

definition image_of :: "nat \<Rightarrow> (nat \<times> bytes) list \<Rightarrow> bytes" where
  "image_of n rs = foldl (\<lambda>img (off, d). put_at img off d) (replicate n 0) rs"

text \<open>The data behind a queued block.\<close>

definition backing :: "out_env \<Rightarrow> data_block \<Rightarrow> bytes option" where
  "backing E db =
     (let n = unat (dlen db) in
      case filename db of
        None \<Rightarrow> if n \<le> length (ddata db) then Some (take n (ddata db)) else None
      | Some f \<Rightarrow>
          (case in_file E f of
             None \<Rightarrow> None
           | Some c \<Rightarrow>
               if mmap_ok E f (offset db) (int n) \<and> 0 \<le> offset db \<and> offset db + int n \<le> int (length (page_padded c))
               then Some (take n (drop (nat (offset db)) (page_padded c))) else None))"

definition block_region :: "out_env \<Rightarrow> nat \<Rightarrow> nat \<Rightarrow> data_block \<Rightarrow> nat \<times> bytes \<Rightarrow> bool" where
  "block_region E b limit db r \<longleftrightarrow>
     backing E db = Some (snd r) \<and> fst r = unat (block db) * b \<and> (filename db \<noteq> None \<longrightarrow> fst r + length (snd r) < limit)"

text \<open>The regions of an image: super block, block group descriptors, and the queued blocks.\<close>

definition super_region :: "nat \<Rightarrow> bytes \<Rightarrow> nat \<times> bytes" where
  "super_region b sb = (if b > 1024 then (0, take b (store (replicate 4096 0) 1024 sb)) else (1024, sb))"

definition desc_region :: "nat \<Rightarrow> u32 \<Rightarrow> u32 \<Rightarrow> bytes \<Rightarrow> nat \<times> bytes" where
  "desc_region b first_data_block bg_desc_blocks bg_desc =
     (unat (first_data_block + 1) * b, take (unat bg_desc_blocks * b) bg_desc)"

definition out_env0 :: out_env where
  "out_env0 = \<lparr>seek_ok = (\<lambda>_. True), out_write = (\<lambda>_ k. int k), gzip = id, open_ok = True, gzdopen_ok = True,
     zero_buf_ok = True, in_file = (\<lambda>_. None), mmap_ok = (\<lambda>_ _ _. True)\<rparr>"

definition queue0 :: db_queue where
  "queue0 = \<lparr>db_heap = [1 \<mapsto> \<lparr>block = 5, dlen = 1, ddata = [9], filename = None, offset = 0, dnext = None\<rparr>],
     data_blocks = Some 1, last_used = None\<rparr>"

text \<open>The division by the reversed polynomial, bit by bit.\<close>

definition crc_step :: "u32 \<Rightarrow> u32" where
  "crc_step c = (if bit c 0 then drop_bit 1 c XOR 0xEDB88320 else drop_bit 1 c)"

definition crc_byte :: "u32 \<Rightarrow> u8 \<Rightarrow> u32" where
  "crc_byte c p = (crc_step ^^ 8) (c XOR ucast p)"

text \<open>The division is linear, so its results on the bytes follow from those on the powers of two.\<close>

fun xor_closure :: "u32 list \<Rightarrow> u32 list" where
  "xor_closure [] = [0]"
| "xor_closure (p # ps) = xor_closure ps @ map ((XOR) p) (xor_closure ps)"

section \<open>Checksum and headers\<close>

lemma crc_loop_append: "crc_loop c (a @ b) = crc_loop (crc_loop c a) b"
  by (induction a arbitrary: c) auto

lemma sparse_crc32_append: "sparse_crc32 (sparse_crc32 c a) b = sparse_crc32 c (a @ b)"
  by (simp add: sparse_crc32_def crc_loop_append xor.assoc)

lemma sparse_crc32_Nil [simp]: "sparse_crc32 c [] = c"
  by (simp add: sparse_crc32_def xor.assoc)

lemma length_le [simp]: "length (le n v) = n"
  by (simp add: le_def)

lemma le_Suc: "le (Suc n) v = of_nat v # le n (v div 256)"
proof -
  have "[0..<Suc n] = 0 # map Suc [0..<n]" by (simp add: upt_conv_Cons map_Suc_upt del: upt_Suc)
  then show ?thesis by (simp add: le_def comp_def div_mult2_eq)
qed

lemma un_le_le: "un_le (le n v) = v mod 256 ^ n"
proof (induction n arbitrary: v)
  case (Suc n)
  have "unat (of_nat v :: u8) = v mod 256" by (simp add: unsigned_of_nat take_bit_eq_mod)
  then show ?case using Suc mod_mult2_eq[of v 256 "256 ^ n"] by (simp add: le_Suc)
qed (simp add: le_def)

lemma un_le_le_word:
  "un_le (le 4 (unat (v :: u32))) = unat v" "un_le (le 2 (unat (x :: u16))) = unat x"
proof -
  have "unat v < 2 ^ 32" "unat x < 2 ^ 16" using unsigned_less[of v] unsigned_less[of x] by simp_all
  then show "un_le (le 4 (unat v)) = unat v" "un_le (le 2 (unat x)) = unat x" by (simp_all add: un_le_le)
qed

lemma length_headers [simp]:
  "length (sparse_header_bytes h) = 28" "length (chunk_header_bytes c) = 12"
  by (simp_all add: sparse_header_bytes_def chunk_header_bytes_def)

lemma header_roundtrip: "to_sparse_header (sparse_header_bytes h @ rest) = h"
  by (simp add: to_sparse_header_def field_def sparse_header_bytes_def un_le_le_word)

lemma chunk_header_roundtrip: "to_chunk_header (chunk_header_bytes h @ rest) = h"
  by (simp add: to_chunk_header_def field_def chunk_header_bytes_def un_le_le_word)

section \<open>Chunk streams\<close>

lemma file_write_works:
  assumes "works E" "gz_fd out = None" "fd_pos out = length (fd_data out)"
  shows "ops_write E d out = (0, out\<lparr>fd_data := fd_data out @ d, fd_pos := length (fd_data out @ d), ocalls := ocalls out + 1\<rparr>)"
proof -
  have "min (out_write E (ocalls out) (length d)) (int (length d)) = int (length d)"
    using assms(1) by (simp add: works_def min_absorb2)
  then show ?thesis using assms(2,3) by (simp add: ops_write_def file_write_def otick_def put_at_def)
qed

lemma ext4_block_unat: "ext4_block b \<Longrightarrow> unat b \<in> {1024, 2048, 4096} \<and> b \<noteq> 0 \<and> sint b = int (unat b)"
  by (auto simp: ext4_block_def)

lemma and_not_mask_slice: "w AND NOT (mask m) = push_bit m (drop_bit m w)" for w :: "u32"
  by (rule bit_word_eqI) (auto simp: bit_simps)

lemma unat_and_not_mask: "unat (w AND NOT (mask m)) = unat w div 2 ^ m * 2 ^ m" for w :: "u32"
proof -
  have w: "unat w < 2 ^ 32" using unsigned_less[of w] by simp
  have "unat w div 2 ^ m * 2 ^ m \<le> unat w" by simp
  then have "unat w div 2 ^ m * 2 ^ m < 2 ^ 32" using w by linarith
  then show ?thesis unfolding and_not_mask_slice unsigned_push_bit_eq unsigned_drop_bit_eq
    using take_bit_nat_eq_self[of "unat w" 32] w
    by (simp add: drop_bit_eq_div push_bit_eq_mult take_bit_nat_eq_self)
qed

lemma block_round_up:
  assumes "b = (2 :: u32) ^ m" "m < 31" "n + 2 ^ m \<le> 2 ^ 31"
  shows "unat ((of_nat n + (b - 1)) AND NOT (b - 1)) = (n + 2 ^ m - 1) div 2 ^ m * 2 ^ m"
proof -
  have b: "b - 1 = mask m" by (simp add: assms(1) mask_eq_decr_exp)
  have e: "of_nat n + (b - 1) = (of_nat (n + 2 ^ m - 1) :: u32)"
  proof -
    have "n + 2 ^ m - 1 = n + (2 ^ m - 1)" "of_nat (2 ^ m - 1) = (2 ^ m - 1 :: u32)" by (simp_all add: of_nat_diff)
    then show ?thesis unfolding assms(1) by (simp only: of_nat_add)
  qed
  have "unat (of_nat (n + 2 ^ m - 1) :: u32) = n + 2 ^ m - 1"
    by (rule unat_of_nat_small) (use assms(3) in simp)
  moreover have "(of_nat n + (b - 1)) AND NOT (b - 1) = of_nat (n + 2 ^ m - 1) AND NOT (mask m)" by (metis e b)
  ultimately show ?thesis by (simp only: unat_and_not_mask)
qed

lemma unat_of_nat64: "m < 2 ^ 64 \<Longrightarrow> unat (of_nat m :: u64) = m"
  by (simp add: unsigned_of_nat take_bit_nat_eq_self)

lemma unat_of_nat32: "m < 2 ^ 32 \<Longrightarrow> unat (of_nat m :: u32) = m"
  by (simp add: unsigned_of_nat take_bit_nat_eq_self)

lemma crc_zeroes_eq:
  assumes "ext4_block (block_size info)" "k * unat (block_size info) < 2 ^ 64"
  shows "crc_zeroes info (of_nat (k * unat (block_size info))) crc
    = Some (Inr (sparse_crc32 crc (replicate (k * unat (block_size info)) 0)))"
  using assms(2)
proof (induction k arbitrary: crc)
  case 0
  then show ?case by (subst crc_zeroes.simps) simp
next
  case (Suc k)
  define b where "b = unat (block_size info)"
  note bb = ext4_block_unat[OF assms(1), folded b_def]
  define n :: u64 where "n = of_nat (Suc k * b)"
  have un: "unat n = Suc k * b" unfolding n_def by (rule unat_of_nat64) (use Suc.prems in \<open>simp add: b_def\<close>)
  have b0: "0 < b" using bb by auto
  have n0: "n \<noteq> 0"
  proof
    assume "n = 0"
    then have "unat n = 0" by simp
    then show False using un b0 by simp
  qed
  have ub: "unat (ucast (block_size info) :: u64) = b" by (simp add: unat_ucast_up b_def)
  have sn: "s32 (uint n) = int b" if "k = 0"
  proof -
    have "unat n = b" using un that by simp
    then have "uint n = int b" by (metis of_nat_unat of_int_of_nat_eq of_int_eq_id id_apply)
    then show ?thesis using bb by (elim conjE insertE) (simp_all add: s32_def)
  qed
  have c: "(if n > ucast (block_size info) then sint (block_size info) else s32 (uint n)) = int b"
  proof (cases "k = 0")
    case True
    then have "\<not> n > ucast (block_size info)" using un ub by (simp add: word_less_nat_alt)
    then show ?thesis using sn True by simp
  next
    case False
    then have "n > ucast (block_size info)" using un ub bb by (auto simp: word_less_nat_alt)
    then show ?thesis using bb by simp
  qed
  have r: "region (zero_buf info) 0 (int b) = Inr (replicate b 0)" by (simp add: region_def zero_buf_def b_def)
  have sub: "n - word_of_int (int b) = of_nat (k * b)" by (simp add: n_def)
  have rep: "sparse_crc32 (sparse_crc32 crc (replicate b 0)) (replicate (k * b) 0) = sparse_crc32 crc (replicate (Suc k * b) 0)"
    by (simp add: sparse_crc32_append replicate_add[symmetric] add.commute)
  have "crc_zeroes info n crc = crc_zeroes info (of_nat (k * b)) (sparse_crc32 crc (replicate b 0))"
    by (subst crc_zeroes.simps) (simp only: Let_def c r sub n0 if_False sum.case)
  also have "\<dots> = Some (Inr (sparse_crc32 crc (replicate (Suc k * b) 0)))"
    using Suc.IH[of "sparse_crc32 crc (replicate b 0)", folded b_def] Suc.prems[folded b_def] rep by simp
  finally show ?case unfolding n_def b_def .
qed

lemma emit_skip_chunk_works:
  assumes "works E" "ext4_block (block_size info)" "written info cs img out"
    and "k < 2 ^ 32" "length img + k * unat (block_size info) < 2 ^ 64"
  shows "\<exists>out'. emit_skip_chunk E info (of_nat (k * unat (block_size info))) out = Inr (0, out')
    \<and> written info (cs @ [SkipChunk k]) (img @ replicate (k * unat (block_size info)) 0) out'"
proof -
  define b where "b = unat (block_size info)"
  note bb = ext4_block_unat[OF assms(2), folded b_def]
  define n :: u64 where "n = of_nat (k * b)"
  have un: "unat n = k * b" unfolding n_def by (rule unat_of_nat64) (use assms(5) in \<open>simp add: b_def\<close>)
  have ub: "unat (ucast (block_size info) :: u64) = b" by (simp add: unat_ucast_up b_def)
  have md: "n mod ucast (block_size info) = 0"
    using un ub bb by (simp add: word_arith_nat_mod)
  have dv: "ucast (n div ucast (block_size info)) = (of_nat k :: u32)"
  proof -
    have "unat (n div ucast (block_size info)) = k" using un ub bb by (auto simp: unat_div)
    then show ?thesis by (metis of_nat_unat)
  qed
  have g: "gz_fd out = None" "fd_pos out = length (fd_data out)" using assms(3) by (auto simp: written_def)
  have cz: "crc_zeroes info n c = Some (Inr (sparse_crc32 c (replicate (k * b) 0)))" for c
    using crc_zeroes_eq[OF assms(2), of k c] assms(5) by (simp add: n_def b_def)
  define d where "d = chunk_bytes b (SkipChunk k)"
  define out' where "out' = out\<lparr>fd_data := fd_data out @ d, fd_pos := length (fd_data out @ d), ocalls := ocalls out + 1,
    cur_out_ptr := cur_out_ptr out + n, chunk_cnt := chunk_cnt out + 1, crc32 := sparse_crc32 (crc32 out) (replicate (k * b) 0)\<rparr>"
  have "emit_skip_chunk E info n out = Inr (0, out')"
    using bb md dv cz file_write_works[OF assms(1) g, of d]
    by (simp add: emit_skip_chunk_def CHUNK_HEADER_LEN_def d_def out'_def Let_def)
  moreover have "written info (cs @ [SkipChunk k]) (img @ replicate (k * b) 0) out'"
    using assms(3,4) unfolding written_def b_def[symmetric]
    by (simp add: out'_def d_def n_def sparse_crc32_append add.commute)
  ultimately show ?thesis unfolding n_def b_def by blast
qed

lemma round_up_eq: "0 < bs \<Longrightarrow> (n + bs - 1) div bs * bs = n + pad_len bs n"
proof -
  assume bs: "0 < bs"
  have m: "(n + bs - 1) div bs * bs = n + bs - 1 - (n + bs - 1) mod bs" by (simp add: minus_mod_eq_div_mult)
  have "(n + bs - 1) mod bs < bs" using bs by simp
  then have "n \<le> (n + bs - 1) div bs * bs" unfolding m using bs by linarith
  then show ?thesis by (simp add: pad_len_def)
qed

lemma pad_len_dvd: "0 < bs \<Longrightarrow> bs dvd n + pad_len bs n"
  using round_up_eq[of bs n] by (metis dvd_triv_right)

lemma pad_len_less: "0 < bs \<Longrightarrow> pad_len bs n < bs"
proof -
  assume bs: "0 < bs"
  have "(n + bs - 1) div bs * bs \<le> n + bs - 1" by simp
  then show ?thesis unfolding pad_len_def using bs by linarith
qed

lemma block_round_up':
  assumes "ext4_block b" "n + unat b \<le> 2 ^ 31"
  shows "unat ((of_nat n + (b - 1)) AND NOT (b - 1)) = n + pad_len (unat b) n"
proof -
  obtain m where m: "b = 2 ^ m" "unat b = 2 ^ m" "m < 31"
    using assms(1) unfolding ext4_block_def
  proof (elim disjE)
    show "b = 1024 \<Longrightarrow> thesis" by (rule that[of 10]) auto
    show "b = 2048 \<Longrightarrow> thesis" by (rule that[of 11]) auto
    show "b = 4096 \<Longrightarrow> thesis" by (rule that[of 12]) auto
  qed
  show ?thesis using block_round_up[OF m(1,3), of n] assms(2) m(2) round_up_eq[of "2 ^ m" n] by simp
qed

text \<open>Filling the gap in front of a chunk.\<close>

lemma gap_works:
  assumes "works E" "ext4_block (block_size info)" "written info cs img out"
    and "unat (block_size info) dvd length img" "unat (block_size info) dvd off" "length img \<le> off" "off < 2 ^ 42"
  shows "\<exists>out' cs'. (if of_nat off > cur_out_ptr out
        then bindR (emit_skip_chunk E info (of_nat off - cur_out_ptr out) out) (\<lambda>(_, out). Inr out) else Inr out) = Inr out'
    \<and> written info cs' (img @ replicate (off - length img) 0) out' \<and> length cs' \<le> length cs + 1"
proof -
  define b where "b = unat (block_size info)"
  have b: "b \<ge> 1024" using ext4_block_unat[OF assms(2)] by (auto simp: b_def)
  have c: "cur_out_ptr out = of_nat (length img)" using assms(3) by (simp add: written_def)
  have uo: "unat (of_nat off :: u64) = off" "unat (of_nat (length img) :: u64) = length img"
    using assms(6,7) by (auto intro!: unat_of_nat64)
  show ?thesis
  proof (cases "off = length img")
    case True
    then show ?thesis using assms(3) c by auto
  next
    case False
    then have gt: "of_nat off > cur_out_ptr out" using assms(6) uo c by (simp add: word_less_nat_alt)
    obtain k where k: "off - length img = k * b" using assms(4,5) by (metis b_def dvd_diff_nat dvdE mult.commute)
    have "k * 1024 \<le> k * b" using b by simp
    then have "k * 1024 < 2 ^ 42" using k assms(7) by linarith
    then have "k < 2 ^ 32" by simp
    moreover have "length img + k * b = off" using k assms(6) by linarith
    then have "length img + k * b < 2 ^ 64" using assms(7) by simp
    moreover have "of_nat off - cur_out_ptr out = (of_nat (k * b) :: u64)"
      unfolding c k[symmetric] using assms(6) by (simp add: of_nat_diff)
    ultimately show ?thesis
      using emit_skip_chunk_works[OF assms(1-3), of k] gt k by (fastforce simp: b_def)
  qed
qed

lemma write_chunk_raw_works:
  assumes "works E" "ext4_block (block_size info)" "written info cs img out"
    and "unat (block_size info) dvd length img" "unat (block_size info) dvd off" "length img \<le> off" "off < 2 ^ 42"
    and "length d + unat (block_size info) \<le> 2 ^ 31" "take (length d) data = d"
  shows "\<exists>out' cs'. write_chunk_raw E info (of_nat off) data (int (length d)) out = Inr (0, out')
    \<and> written info cs' (img @ replicate (off - length img) 0 @ d @ replicate (pad_len (unat (block_size info)) (length d)) 0) out'
    \<and> length cs' \<le> length cs + 2"
proof -
  define b where "b = unat (block_size info)"
  note bb = ext4_block_unat[OF assms(2), folded b_def]
  have b0: "0 < b" using bb by auto
  define n where "n = length d"
  define z where "z = pad_len b n"
  have uo: "unat (of_nat off :: u64) = off" using assms(7) by (intro unat_of_nat64) simp
  have ui: "unat (cur_out_ptr out) = length img"
    using assms(3,6,7) by (simp add: written_def) (auto intro!: unat_of_nat64)
  have lt: "\<not> of_nat off < cur_out_ptr out" using uo ui assms(6) by (simp add: word_less_nat_alt)
  obtain out1 cs1 where g: "(if of_nat off > cur_out_ptr out
        then bindR (emit_skip_chunk E info (of_nat off - cur_out_ptr out) out) (\<lambda>(_, out). Inr out) else Inr out) = Inr out1"
    and w1: "written info cs1 (img @ replicate (off - length img) 0) out1" and l1: "length cs1 \<le> length cs + 1"
    using gap_works[OF assms(1-7)] by blast
  have c1: "cur_out_ptr out1 = of_nat off" using w1 assms(6) by (simp add: written_def)
  have md: "(of_nat off :: u64) mod ucast (block_size info) = 0"
    using assms(5) uo by (simp add: word_arith_nat_mod unat_ucast_up mod_eq_0_iff_dvd)
  define rnd where "rnd = (word_of_int (int n) + (block_size info - 1)) AND NOT (block_size info - 1)"
  have ur: "unat rnd = n + z" unfolding rnd_def z_def b_def
    using block_round_up'[OF assms(2), of n] assms(8) by (simp add: n_def)
  have nz: "n + z < 2 ^ 31" using pad_len_less[OF b0, of n] assms(8) by (simp add: z_def n_def b_def)
  have sr: "sint rnd = int (n + z)"
  proof -
    have "rnd = of_nat (n + z)" using ur by (metis of_nat_unat ucast_id)
    then show ?thesis using sint_small[OF nz] by simp
  qed
  have zl: "s32 (int (n + z) - int n) = int z" using nz by (simp add: s32_id)
  have zb: "z \<le> b" using pad_len_less[OF b0, of n] by (simp add: z_def)
  have zbuf: "zero_buf info = replicate b 0" by (simp add: zero_buf_def b_def)
  have rz: "region (zero_buf info) 0 (int z) = Inr (replicate z 0)" using zb zbuf by (simp add: region_def)
  have rd: "region data 0 (int n) = Inr d"
  proof -
    have "length d \<le> length data" by (metis assms(9) length_take min.cobounded1)
    then show ?thesis using assms(9) by (simp add: region_def n_def)
  qed
  define dz where "dz = d @ replicate z 0"
  have ldz: "length dz = n + z" by (simp add: dz_def n_def)
  have rnd: "rnd = of_nat (length dz)" using ur ldz by (metis of_nat_unat ucast_id)
  have "unat (rnd div block_size info) = length dz div b" using ur ldz by (simp add: unat_div b_def)
  then have sz: "rnd div block_size info = of_nat (length dz div b)" by (metis of_nat_unat ucast_id)
  define hb where "hb = chunk_header_bytes \<lparr>chunk_type = CHUNK_TYPE_RAW, reserved1 = 0, chunk_sz = of_nat (length dz div b),
      total_sz = of_nat (12 + length dz)\<rparr>"
  have hb: "chunk_header_bytes \<lparr>chunk_type = CHUNK_TYPE_RAW, reserved1 = 0, chunk_sz = rnd div block_size info,
      total_sz = of_nat CHUNK_HEADER_LEN + rnd\<rparr> = hb" unfolding hb_def sz by (simp add: CHUNK_HEADER_LEN_def rnd)
  have p1: "gz_fd out1 = None" "fd_pos out1 = length (fd_data out1)" using w1 by (auto simp: written_def)
  define out2 where "out2 = out1\<lparr>fd_data := fd_data out1 @ hb, fd_pos := length (fd_data out1 @ hb), ocalls := ocalls out1 + 1\<rparr>"
  define out3 where "out3 = out2\<lparr>fd_data := fd_data out2 @ d, fd_pos := length (fd_data out2 @ d), ocalls := ocalls out2 + 1\<rparr>"
  define out4 where "out4 = (if z \<noteq> 0 then out3\<lparr>fd_data := fd_data out3 @ replicate z 0, fd_pos := length (fd_data out3 @ replicate z 0),
      ocalls := ocalls out3 + 1\<rparr> else out3)"
  have p2: "gz_fd out2 = None" "fd_pos out2 = length (fd_data out2)" "gz_fd out3 = None" "fd_pos out3 = length (fd_data out3)"
    using p1 by (simp_all add: out2_def out3_def)
  have o2: "ops_write E hb out1 = (0, out2)" "ops_write E d out2 = (0, out3)"
    "(if int z \<noteq> 0 then ops_write E (replicate z 0) out3 else (0, out3)) = (0, out4)"
    using file_write_works[OF assms(1) p1] file_write_works[OF assms(1) p2(1,2)] file_write_works[OF assms(1) p2(3,4)]
    by (simp_all add: out2_def out3_def out4_def)
  define out5 where "out5 = out4\<lparr>crc32 := sparse_crc32 (crc32 out4) dz, cur_out_ptr := cur_out_ptr out4 + of_nat (n + z),
      chunk_cnt := chunk_cnt out4 + 1\<rparr>"
  have crc: "(if int z \<noteq> 0 then sparse_crc32 (sparse_crc32 (crc32 out4) d) (replicate z 0) else sparse_crc32 (crc32 out4) d)
      = sparse_crc32 (crc32 out4) dz" by (simp add: dz_def sparse_crc32_append)
  have zr: "(if int z \<noteq> 0 then region (zero_buf info) 0 (int z) else Inr []) = Inr (replicate z 0)" using rz by simp
  have "write_chunk_raw E info (of_nat off) data (int n) out = Inr (0, out5)"
    unfolding write_chunk_raw_def if_not_P[OF lt] g bindR.simps Let_def rnd_def[symmetric] sr zl hb o2 prod.case rd zr crc
    using bb md c1 by (simp add: out5_def)
  moreover have "written info (cs1 @ [RawChunk dz]) (img @ replicate (off - length img) 0 @ dz) out5"
  proof -
    have f5: "fd_data out5 = fd_data out1 @ chunk_bytes b (RawChunk dz)"
      by (simp add: out5_def out4_def out3_def out2_def hb_def dz_def)
    have s5: "sparse out5 = sparse out1" "gz_fd out5 = None" "header out5 = header out1" "chunk_cnt out5 = chunk_cnt out1 + 1"
      "cur_out_ptr out5 = cur_out_ptr out1 + of_nat (length dz)" "crc32 out5 = sparse_crc32 (crc32 out1) dz"
      "fd_pos out5 = length (fd_data out5)"
      using p1 ldz by (simp_all add: out5_def out4_def out3_def out2_def)
    have ok: "chunk_ok b (RawChunk dz)" using ldz nz pad_len_dvd[OF b0, of n] by (simp add: z_def)
    show ?thesis using w1 f5 s5 ok unfolding written_def b_def[symmetric] by (simp add: sparse_crc32_append)
  qed
  moreover have "length (cs1 @ [RawChunk dz]) \<le> length cs + 2" using l1 by simp
  ultimately show ?thesis unfolding dz_def z_def n_def b_def by blast
qed

section \<open>Expanding the chunks\<close>

lemma expanded_sin [simp]: "expanded img (x\<lparr>sin := v\<rparr>) = expanded img x" "expanded img (x\<lparr>sblocks := u\<rparr>) = expanded img x"
  by (simp_all add: expanded_def)

lemma fwrite_expanded:
  assumes "expanded img x"
  shows "\<exists>x'. fwrite (\<lambda>_. True) d (x\<lparr>scrc := sparse_crc32 (scrc x) d\<rparr>) = Some x' \<and> expanded (img @ d) x'
    \<and> sin x' = sin x \<and> sblocks x' = sblocks x"
  using assms by (auto simp: fwrite_def expanded_def put_at_def sparse_crc32_append)

lemma process_raw_chunk_works:
  "sin x = d @ rest \<Longrightarrow> unat n = length d \<Longrightarrow> expanded img x \<Longrightarrow>
   \<exists>x'. process_raw_chunk (\<lambda>_. True) n x = Some x' \<and> sin x' = rest \<and> expanded (img @ d) x' \<and> sblocks x' = sblocks x"
proof (induction "length d" arbitrary: d n x img rule: less_induct)
  case less
  show ?case
  proof (cases "n = 0")
    case True
    then show ?thesis using less.prems by (subst process_raw_chunk.simps) simp
  next
    case False
    define chunk where "chunk = (if n > COPY_BUF_SIZE then COPY_BUF_SIZE else n)"
    have c: "chunk \<le> n" "chunk \<noteq> 0" using False by (auto simp: chunk_def COPY_BUF_SIZE_def)
    then have cn: "unat chunk \<le> length d" "unat chunk > 0"
      using less.prems(2) unat_gt_0[of chunk] by (auto simp: word_le_nat_alt)
    define d1 where "d1 = take (unat chunk) d"
    define d2 where "d2 = drop (unat chunk) d"
    have fr: "fread (unat chunk) x = Some (d1, x\<lparr>sin := d2 @ rest\<rparr>)"
      using less.prems(1) cn by (simp add: fread_def d1_def d2_def)
    have e: "expanded img (x\<lparr>sin := d2 @ rest\<rparr>)" using less.prems(3) by simp
    obtain x1 where fw: "fwrite (\<lambda>_. True) d1 ((x\<lparr>sin := d2 @ rest\<rparr>)\<lparr>scrc := sparse_crc32 (scrc (x\<lparr>sin := d2 @ rest\<rparr>)) d1\<rparr>) = Some x1"
      and x1: "expanded (img @ d1) x1" "sin x1 = d2 @ rest" "sblocks x1 = sblocks x"
      using fwrite_expanded[OF e, of d1] by auto
    have "unat (n - chunk) = length d2" using unat_sub[of chunk n] c less.prems(2) by (simp add: d2_def word_le_nat_alt)
    moreover have "length d2 < length d" using cn by (simp add: d2_def)
    ultimately obtain x' where "process_raw_chunk (\<lambda>_. True) (n - chunk) x1 = Some x'" "sin x' = rest"
        "expanded ((img @ d1) @ d2) x'" "sblocks x' = sblocks x1"
      using less.hyps[of d2 x1 "n - chunk" "img @ d1"] x1 by blast
    moreover have "process_raw_chunk (\<lambda>_. True) n x = process_raw_chunk (\<lambda>_. True) (n - chunk) x1"
      using False fr fw by (subst process_raw_chunk.simps) (simp add: Let_def flip: chunk_def)
    ultimately show ?thesis using x1 by (simp add: d1_def d2_def)
  qed
qed

lemma skip_seek_eq:
  assumes "b dvd 2 ^ 31" "0 < b"
  shows "b dvd unat n \<Longrightarrow> b dvd unat prev \<Longrightarrow>
    \<exists>p'. skip_seek n pos prev = (pos + unat n, p') \<and> b dvd unat p' \<and> (n \<noteq> 0 \<longrightarrow> p' \<noteq> 0)"
proof (induction "unat n" arbitrary: n pos prev rule: less_induct)
  case less
  show ?case
  proof (cases "n = 0")
    case True
    then show ?thesis using less.prems by (subst skip_seek.simps) simp
  next
    case False
    define s where "s = skip_step n"
    have us: "unat (ucast s :: u64) = unat s" by (rule unat_ucast_up)
    have sv: "unat s = (if unat n > 2 ^ 31 then 2 ^ 31 else unat n)"
    proof (cases "n > 0x80000000")
      case True
      then show ?thesis by (simp add: s_def skip_step_def word_less_nat_alt)
    next
      case F: False
      then have "unat n \<le> 2 ^ 31" by (simp add: word_less_nat_alt)
      then show ?thesis using F unat_ucast_down[of n] by (simp add: s_def skip_step_def)
    qed
    have n0: "unat n \<noteq> 0" using False by (simp add: unat_eq_0)
    then have s0: "unat s \<noteq> 0" "unat s \<le> unat n" using sv by auto
    then have "s \<noteq> 0" by auto
    have ds: "b dvd unat s" using sv assms(1) less.prems(1) by auto
    have un: "unat (n - ucast s) = unat n - unat s"
      using unat_sub[of "ucast s" n] us s0 by (simp add: word_le_nat_alt)
    obtain p' where p': "skip_seek (n - ucast s) (pos + unat s) s = (pos + unat s + unat (n - ucast s), p')" "b dvd unat p'"
        "n - ucast s \<noteq> 0 \<longrightarrow> p' \<noteq> 0"
      using less.hyps[of "n - ucast s" s "pos + unat s"] un s0 n0 ds less.prems(1) by auto
    have "p' \<noteq> 0"
    proof (cases "n - ucast s = 0")
      case True
      then have "p' = s" using p'(1) by (subst (asm) skip_seek.simps) simp
      then show ?thesis using \<open>s \<noteq> 0\<close> by simp
    qed (use p' in simp)
    moreover have "skip_seek n pos prev = skip_seek (n - ucast s) (pos + unat s) s"
      using False by (subst skip_seek.simps) (simp add: s_def)
    ultimately show ?thesis using p'(1,2) un s0 by simp
  qed
qed

lemma skip_crc_eq:
  assumes "0 < b" "b < 2 ^ 32" "zerobuf = replicate b 0" "unat bsz = b" "unat sk \<ge> b"
  shows "k * b < 2 ^ 64 \<Longrightarrow> skip_crc zerobuf bsz (of_nat (k * b)) sk crc = Some (Inr (sparse_crc32 crc (replicate (k * b) 0)))"
  using assms(5)
proof (induction k arbitrary: crc sk)
  case 0
  then show ?case by (subst skip_crc.simps) simp
next
  case (Suc k)
  define n :: u64 where "n = of_nat (Suc k * b)"
  have un: "unat n = Suc k * b" unfolding n_def by (rule unat_of_nat64[OF Suc.prems(1)])
  have n0: "n \<noteq> 0"
  proof
    assume "n = 0"
    then have "unat n = 0" by simp
    then show False using un assms(1) by simp
  qed
  have sk: "(if sk > bsz then bsz else sk) = bsz" using Suc.prems(2) assms(4) by (auto simp: word_less_nat_alt not_less unsigned_word_eqI)
  have ub: "uint bsz = int b" using assms(4) by (metis of_nat_unat of_int_of_nat_eq of_int_eq_id id_apply)
  have r: "region zerobuf 0 (uint bsz) = Inr (replicate b 0)" by (simp add: region_def ub assms(3))
  have sub: "n - ucast bsz = of_nat (k * b)"
  proof -
    have "ucast bsz = (of_nat b :: u64)" using assms(4) by (metis of_nat_unat)
    then show ?thesis by (simp add: n_def)
  qed
  have rep: "sparse_crc32 (sparse_crc32 crc (replicate b 0)) (replicate (k * b) 0) = sparse_crc32 crc (replicate (Suc k * b) 0)"
    by (simp add: sparse_crc32_append replicate_add[symmetric] add.commute)
  have "skip_crc zerobuf bsz n sk crc = skip_crc zerobuf bsz (of_nat (k * b)) bsz (sparse_crc32 crc (replicate b 0))"
    by (subst skip_crc.simps) (simp only: Let_def sk r sub n0 if_False sum.case)
  also have "\<dots> = Some (Inr (sparse_crc32 crc (replicate (Suc k * b) 0)))"
    using Suc.IH[of bsz "sparse_crc32 crc (replicate b 0)"] Suc.prems(1) rep assms(4) by simp
  finally show ?case unfolding n_def .
qed

lemma process_skip_chunk_works:
  assumes "expanded img x" "unat bsz = b" "b dvd 2 ^ 31" "0 < b" "k < 2 ^ 32" "k * b < 2 ^ 64"
  shows "\<exists>x'. process_skip_chunk (replicate b 0) bsz (of_nat k) x = Inr x' \<and> sin x' = sin x
    \<and> expanded (img @ replicate (k * b) 0) x' \<and> sblocks x' = sblocks x"
proof -
  have "unat bsz < 2 ^ 32" using unsigned_less[of bsz] by simp
  then have b: "b < 2 ^ 32" using assms(2) by simp
  define n :: u64 where "n = ucast (of_nat k :: u32) * ucast bsz"
  have "ucast (of_nat k :: u32) = (of_nat k :: u64)" "ucast bsz = (of_nat b :: u64)"
    using assms(2,5) unat_of_nat32[of k] by (metis of_nat_unat)+
  then have n: "n = of_nat (k * b)" by (simp add: n_def)
  have un: "unat n = k * b" unfolding n by (rule unat_of_nat64[OF assms(6)])
  obtain p' where p': "skip_seek n (spos x) 0 = (spos x + k * b, p')" "b dvd unat p'" "n \<noteq> 0 \<longrightarrow> p' \<noteq> 0"
    using skip_seek_eq[OF assms(3,4), of n 0 "spos x"] un by auto
  have cr: "skip_crc (replicate b 0) bsz n p' (scrc x) = Some (Inr (sparse_crc32 (scrc x) (replicate (k * b) 0)))"
  proof (cases "k = 0")
    case True
    then show ?thesis by (subst skip_crc.simps) (simp add: n)
  next
    case False
    then have "n \<noteq> 0" using un assms(4) by auto
    then have "unat p' \<noteq> 0" using p'(3) by (simp add: unat_eq_0)
    then have "b \<le> unat p'" using p'(2) by (meson dvd_imp_le neq0_conv)
    then show ?thesis using skip_crc_eq[OF assms(4) b refl assms(2) _ assms(6)] by (simp add: n)
  qed
  show ?thesis
    using assms(1) cr p'(1)
    by (auto simp: process_skip_chunk_def Let_def expanded_def sparse_crc32_append replicate_add[symmetric] simp flip: n_def)
qed

lemma of_nat_words:
  assumes "k < 2 ^ 32"
  shows "ucast (of_nat k :: u32) = (of_nat k :: u64)"
  using unat_of_nat32[OF assms] by (metis of_nat_unat)

lemma process_chunk_works:
  assumes "ext4_block (blk_sz h)" "b = unat (blk_sz h)" "chunk_hdr_sz h = 12"
    and "sin x = chunk_bytes b c @ rest" "chunk_ok b c" "expanded img x" "b dvd length img" "sblocks x = of_nat (length img div b)"
  shows "\<exists>x'. process_chunk (\<lambda>_. True) (replicate b 0) h x = Inr (Some x') \<and> sin x' = rest \<and> expanded (img @ expand b c) x'
    \<and> b dvd length (img @ expand b c) \<and> sblocks x' = of_nat (length (img @ expand b c) div b)"
proof -
  have bb: "b \<in> {1024, 2048, 4096}" "0 < b" "b dvd 2 ^ 31" using ext4_block_unat[OF assms(1)] assms(2) by auto
  have bw: "blk_sz h = of_nat b" "ucast (blk_sz h) = (of_nat b :: u64)" using assms(2) by (metis of_nat_unat ucast_id)+
  have h12: "\<not> unat (chunk_hdr_sz h) > CHUNK_HEADER_LEN" using assms(3) by (simp add: CHUNK_HEADER_LEN_def)
  have ne: "CHUNK_TYPE_DONT_CARE \<noteq> CHUNK_TYPE_RAW" by (simp add: CHUNK_TYPE_DONT_CARE_def CHUNK_TYPE_RAW_def)
  show ?thesis
  proof (cases c)
    case (RawChunk d)
    define ch where "ch = \<lparr>chunk_type = CHUNK_TYPE_RAW, reserved1 = 0, chunk_sz = of_nat (length d div b), total_sz = of_nat (12 + length d)\<rparr>"
    have fr: "fread CHUNK_HEADER_LEN x = Some (chunk_header_bytes ch, x\<lparr>sin := d @ rest\<rparr>)"
      using assms(4) RawChunk by (simp add: fread_def CHUNK_HEADER_LEN_def ch_def)
    have dv: "b dvd length d" "length d < 2 ^ 31" using assms(5) RawChunk by auto
    have k: "length d div b < 2 ^ 32" using le_less_trans[OF div_le_dividend dv(2), of b] by simp
    have t: "of_nat (12 + length d) = ucast (chunk_hdr_sz h) + of_nat (length d div b) * blk_sz h"
      using dv(1) by (simp add: assms(3) bw(1) flip: of_nat_mult)
    have "ucast (of_nat (length d div b) :: u32) * ucast (blk_sz h) = (of_nat (length d) :: u64)"
      using dv(1) by (simp add: of_nat_words[OF k] bw(2) flip: of_nat_mult)
    then have un: "unat (ucast (of_nat (length d div b) :: u32) * ucast (blk_sz h) :: u64) = length d"
      using unat_of_nat64[of "length d"] dv(2) by simp
    obtain x' where x': "process_raw_chunk (\<lambda>_. True) (ucast (of_nat (length d div b) :: u32) * ucast (blk_sz h)) (x\<lparr>sin := d @ rest\<rparr>) = Some x'"
        "sin x' = rest" "expanded (img @ d) x'" "sblocks x' = sblocks x"
      using process_raw_chunk_works[OF _ un, of "x\<lparr>sin := d @ rest\<rparr>" rest img] assms(6) by auto
    have hc: "to_chunk_header (chunk_header_bytes ch) = ch" using chunk_header_roundtrip[of ch "[]"] by simp
    have "process_chunk (\<lambda>_. True) (replicate b 0) h x = Inr (Some (x'\<lparr>sblocks := sblocks x' + of_nat (length d div b)\<rparr>))"
      unfolding process_chunk_def fr option.case prod.case Let_def hc if_not_P[OF h12]
      using t x'(1) by (simp add: ch_def)
    moreover have "length (img @ d) div b = length img div b + length d div b" using assms(7) by (simp add: div_plus_div_distrib_dvd_left)
    ultimately show ?thesis using x'(2-4) assms(7,8) dv(1) RawChunk by auto
  next
    case (SkipChunk k)
    define ch where "ch = \<lparr>chunk_type = CHUNK_TYPE_DONT_CARE, reserved1 = 0, chunk_sz = of_nat k, total_sz = 12 :: u32\<rparr>"
    have fr: "fread CHUNK_HEADER_LEN x = Some (chunk_header_bytes ch, x\<lparr>sin := rest\<rparr>)"
      using assms(4) SkipChunk by (simp add: fread_def CHUNK_HEADER_LEN_def ch_def)
    have k: "k < 2 ^ 32" using assms(5) SkipChunk by simp
    then have kb: "k * b < 2 ^ 64" using bb(1) by auto
    obtain x' where x': "process_skip_chunk (replicate b 0) (blk_sz h) (of_nat k) (x\<lparr>sin := rest\<rparr>) = Inr x'" "sin x' = rest"
        "expanded (img @ replicate (k * b) 0) x'" "sblocks x' = sblocks x"
      using process_skip_chunk_works[of img "x\<lparr>sin := rest\<rparr>" "blk_sz h" b k] assms(2,6) bb k kb by auto
    have hc: "to_chunk_header (chunk_header_bytes ch) = ch" using chunk_header_roundtrip[of ch "[]"] by simp
    have "process_chunk (\<lambda>_. True) (replicate b 0) h x = Inr (Some (x'\<lparr>sblocks := sblocks x' + of_nat k\<rparr>))"
      unfolding process_chunk_def fr option.case prod.case Let_def hc if_not_P[OF h12]
      using ne x'(1) assms(3) by (simp add: ch_def)
    moreover have "length (img @ replicate (k * b) 0) div b = length img div b + k" using bb(2) by simp
    ultimately show ?thesis using x'(2-4) assms(7,8) SkipChunk by auto
  qed
qed

lemma process_chunks_work:
  assumes "ext4_block (blk_sz h)" "b = unat (blk_sz h)" "chunk_hdr_sz h = 12"
  shows "sin x = List.concat (map (chunk_bytes b) cs) @ rest \<Longrightarrow> list_all (chunk_ok b) cs \<Longrightarrow> expanded img x \<Longrightarrow> b dvd length img \<Longrightarrow>
    sblocks x = of_nat (length img div b) \<Longrightarrow>
    \<exists>x'. process_chunks (\<lambda>_. True) (replicate b 0) h (length cs) x = Inr (Some x')
      \<and> expanded (img @ List.concat (map (expand b) cs)) x'
      \<and> sblocks x' = of_nat (length (img @ List.concat (map (expand b) cs)) div b)"
proof (induction cs arbitrary: x img)
  case (Cons c cs)
  obtain x1 where x1: "process_chunk (\<lambda>_. True) (replicate b 0) h x = Inr (Some x1)"
      "sin x1 = List.concat (map (chunk_bytes b) cs) @ rest" "expanded (img @ expand b c) x1" "b dvd length (img @ expand b c)"
      "sblocks x1 = of_nat (length (img @ expand b c) div b)"
    using process_chunk_works[OF assms, of x c "List.concat (map (chunk_bytes b) cs) @ rest" img] Cons.prems by auto
  then show ?case using Cons.IH[OF x1(2) _ x1(3-5)] Cons.prems(2) by auto
qed simp

lemma simg2img_works:
  assumes "ext4_block (blk_sz h)" "b = unat (blk_sz h)" "chunk_hdr_sz h = 12" "file_hdr_sz h = 28"
    and "magic h = SPARSE_HEADER_MAGIC" "major_version h = SPARSE_HEADER_MAJOR_VER"
    and "list_all (chunk_ok b) cs" "img = List.concat (map (expand b) cs)" "length cs < 2 ^ 32" "total_chunks h = of_nat (length cs)"
    and "image_checksum h = sparse_crc32 0 img" "total_blks h = of_nat (length img div b)" "b dvd length img" "length img < 2 ^ 42"
  shows "simg2img (\<lambda>_. True) (\<lambda>n. Some (replicate n 0)) True (sparse_header_bytes h @ List.concat (map (chunk_bytes b) cs))
    = Inr (0, Some img)"
proof -
  define x where "x = \<lparr>sin = List.concat (map (chunk_bytes b) cs), sout = [], spos = 0, scrc = 0, sblocks = 0, swrites = 0\<rparr>"
  have fr: "fread SPARSE_HEADER_LEN \<lparr>sin = sparse_header_bytes h @ List.concat (map (chunk_bytes b) cs), sout = [], spos = 0,
      scrc = 0, sblocks = 0, swrites = 0\<rparr> = Some (sparse_header_bytes h, x)"
    by (simp add: fread_def SPARSE_HEADER_LEN_def x_def)
  have hh: "to_sparse_header (sparse_header_bytes h) = h" using header_roundtrip[of h "[]"] by simp
  have h28: "\<not> unat (file_hdr_sz h) > SPARSE_HEADER_LEN" using assms(4) by (simp add: SPARSE_HEADER_LEN_def)
  have nc: "unat (total_chunks h) = length cs" using assms(9,10) unat_of_nat32[of "length cs"] by simp
  obtain x' where x': "process_chunks (\<lambda>_. True) (replicate b 0) h (length cs) x = Inr (Some x')" "expanded img x'"
      "sblocks x' = of_nat (length img div b)"
    using process_chunks_work[OF assms(1-3), of x cs "[]" "[]"] assms(7,8) by (auto simp: x_def expanded_def)
  have b: "1024 \<le> b" using ext4_block_unat[OF assms(1)] assms(2) by auto
  have bw: "ucast (blk_sz h) = (of_nat b :: u64)" using assms(2) by (metis of_nat_unat)
  have "length img div b \<le> length img div 1024" using b by (simp add: div_le_mono2)
  moreover have "length img div 1024 < 2 ^ 32" using assms(14) by (simp add: less_mult_imp_div_less)
  ultimately have "length img div b < 2 ^ 32" by linarith
  then have "ucast (sblocks x') * ucast (blk_sz h) = (of_nat (length img) :: u64)"
    using assms(13) by (simp add: x'(3) of_nat_words bw flip: of_nat_mult)
  then have sz: "unat (ucast (sblocks x') * ucast (blk_sz h) :: u64) = length img"
    using unat_of_nat64[of "length img"] assms(14) by simp
  have im: "take (length img) (sout x' @ replicate (length img - length (sout x')) 0) = img"
    using x'(2) unfolding expanded_def by (metis append_Nil2 diff_self_eq_0 length_append length_replicate take_all order_refl)
  show ?thesis
    unfolding simg2img_def Let_def fr option.case prod.case hh if_not_P[OF h28] nc assms(2)[symmetric] x'(1) bindR.simps sz im
    using assms(5,6,11,12) x'(2,3) by (simp add: expanded_def)
qed

section \<open>Writing an image\<close>

lemma pad_in_limit:
  assumes "0 < bs" "bs dvd limit" "bs dvd off" "off + n \<le> limit"
  shows "off + n + pad_len bs n \<le> limit"
proof (rule ccontr)
  assume a: "\<not> off + n + pad_len bs n \<le> limit"
  have d: "bs dvd off + n + pad_len bs n" using assms(3) pad_len_dvd[OF assms(1), of n] by (simp add: add.assoc)
  then have "bs dvd off + n + pad_len bs n - limit" using assms(2) by (rule dvd_diff_nat)
  moreover have "0 < off + n + pad_len bs n - limit" using a by simp
  ultimately have "bs \<le> off + n + pad_len bs n - limit" by (rule dvd_imp_le)
  then show False using assms(4) pad_len_less[OF assms(1), of n] by linarith
qed

lemma put_region_spec:
  assumes "0 < bs" "bs dvd limit" "length img \<le> limit" "layout_ok bs limit (length img) [(off, d)]"
  shows "length (put_region bs img (off, d)) = off + length d + pad_len bs (length d)"
    and "length (put_region bs img (off, d)) \<le> limit" "bs dvd length (put_region bs img (off, d))"
    and "put_at (img @ replicate (limit - length img) 0) off d
      = put_region bs img (off, d) @ replicate (limit - length (put_region bs img (off, d))) 0"
proof -
  have l: "length img \<le> off" "bs dvd off" "off + length d \<le> limit" using assms(4) by auto
  show len: "length (put_region bs img (off, d)) = off + length d + pad_len bs (length d)"
    using l by (simp add: put_region_def)
  show le: "length (put_region bs img (off, d)) \<le> limit" unfolding len by (rule pad_in_limit[OF assms(1,2) l(2,3)])
  show "bs dvd length (put_region bs img (off, d))" unfolding len
    using l(2) pad_len_dvd[OF assms(1), of "length d"] by (simp add: add.assoc)
  have "limit - (off + length d) = pad_len bs (length d) + (limit - (off + length d + pad_len bs (length d)))"
    using le len by simp
  then show "put_at (img @ replicate (limit - length img) 0) off d
      = put_region bs img (off, d) @ replicate (limit - length (put_region bs img (off, d))) 0"
    using l le unfolding len by (simp add: put_at_def put_region_def replicate_add[symmetric] min_def) 
qed

lemma regions_image:
  assumes "0 < bs" "bs dvd limit"
  shows "layout_ok bs limit (length img) rs \<Longrightarrow> length img \<le> limit \<Longrightarrow> bs dvd length img \<Longrightarrow>
    length (foldl (put_region bs) img rs) \<le> limit \<and> bs dvd length (foldl (put_region bs) img rs)
    \<and> foldl (\<lambda>im (off, d). put_at im off d) (img @ replicate (limit - length img) 0) rs
      = foldl (put_region bs) img rs @ replicate (limit - length (foldl (put_region bs) img rs)) 0"
proof (induction rs arbitrary: img)
  case (Cons r rs)
  obtain off d where r: "r = (off, d)" by (cases r)
  have l1: "layout_ok bs limit (length img) [(off, d)]" using Cons.prems(1) r by simp
  note ps = put_region_spec[OF assms Cons.prems(2) l1]
  have "layout_ok bs limit (length (put_region bs img (off, d))) rs" using Cons.prems(1) r ps(1) by simp
  then show ?case using Cons.IH[OF _ ps(2,3)] ps(4) r by simp
qed simp

lemma write_data_block_works:
  assumes "works E" "ext4_block (block_size info)" "b = unat (block_size info)" "b dvd unat (fs_len info)" "unat (fs_len info) < 2 ^ 42"
    and "written info cs img out" "b dvd length img" "layout_ok b (unat (fs_len info)) (length img) [(off, d)]"
    and "take (length d) data = d"
  shows "\<exists>out' cs'. write_data_block E info out (of_nat off) data (int (length d)) = Inr out'
    \<and> written info cs' (put_region b img (off, d)) out' \<and> length cs' \<le> length cs + 2"
proof -
  have l: "length img \<le> off" "b dvd off" "off + length d \<le> unat (fs_len info)" "length d + b \<le> 2 ^ 31" using assms(8) by auto
  have "of_nat off + word_of_int (int (length d)) = (of_nat (off + length d) :: u64)" by simp
  moreover have "unat (of_nat (off + length d) :: u64) = off + length d" using l(3) assms(5) by (intro unat_of_nat64) simp
  ultimately have "\<not> of_nat off + word_of_int (int (length d)) > fs_len info" using l(3) by (simp add: word_less_nat_alt)
  moreover have "sparse out" using assms(6) by (simp add: written_def)
  moreover have "off < 2 ^ 42" using l(3) assms(5) by linarith
  ultimately show ?thesis
    using write_chunk_raw_works[OF assms(1,2,6), of off d data] assms(3,7,9) l
    by (fastforce simp: write_data_block_def put_region_def)
qed

lemma length_backing: "backing E db = Some d \<Longrightarrow> length d = unat (dlen db)"
  by (auto simp: backing_def Let_def min_def simp del: of_nat_unat split: option.splits if_splits)

lemma write_data_file_eq:
  assumes "filename db = Some f" "backing E db = Some d" "off + length d < unat (fs_len info)" "sparse out"
    and "unat (fs_len info) < 2 ^ 42"
  shows "write_data_file E info out (of_nat off) f (offset db) (int (length d))
    = write_data_block E info out (of_nat off) d (int (length d))"
proof -
  obtain c where c: "in_file E f = Some c" "mmap_ok E f (offset db) (int (length d))" "0 \<le> offset db"
      "offset db + int (length d) \<le> int (length (page_padded c))" "d = take (length d) (drop (nat (offset db)) (page_padded c))"
    using assms(1,2) length_backing[OF assms(2)] by (auto simp: backing_def Let_def simp del: of_nat_unat split: option.splits if_splits)
  have r: "region (page_padded c) (offset db) (int (length d)) = Inr d" using c(3-5) by (simp add: region_def)
  have "of_nat off + word_of_int (int (length d)) = (of_nat (off + length d) :: u64)" by simp
  moreover have "unat (of_nat (off + length d) :: u64) = off + length d" using assms(3,5) by (intro unat_of_nat64) simp
  ultimately have lt: "of_nat off + word_of_int (int (length d)) < fs_len info" using assms(3) by (simp add: word_less_nat_alt)
  then have "\<not> fs_len info \<le> of_nat off + word_of_int (int (length d))" "\<not> fs_len info < of_nat off + word_of_int (int (length d))"
    by (simp_all add: not_le not_less)
  then show ?thesis
    unfolding write_data_file_def write_data_block_def c(1) option.case r bindR.simps using c(2) assms(4) by simp
qed

lemma visit_works:
  assumes "works E" "ext4_block (block_size info)" "b = unat (block_size info)" "b dvd unat (fs_len info)" "unat (fs_len info) < 2 ^ 42"
    and "written info cs img out" "b dvd length img" "layout_ok b (unat (fs_len info)) (length img) [r]"
    and "block_region E b (unat (fs_len info)) db r"
  shows "\<exists>out' cs'. visit (write_data_block E info) (write_data_file E info) (block_size info) db out = Inr out'
    \<and> written info cs' (put_region b img r) out' \<and> length cs' \<le> length cs + 2"
proof -
  obtain off d where r: "r = (off, d)" by (cases r)
  have br: "backing E db = Some d" "off = unat (block db) * b" "filename db \<noteq> None \<longrightarrow> off + length d < unat (fs_len info)"
    using assms(9) r by (auto simp: block_region_def)
  have "ucast (block db) = (of_nat (unat (block db)) :: u64)" "ucast (block_size info) = (of_nat b :: u64)"
    using assms(3) by (metis of_nat_unat)+
  then have o: "ucast (block db) * ucast (block_size info) = (of_nat off :: u64)" using br(2) by simp
  have dl: "unat (dlen db) = length d" using length_backing[OF br(1)] by simp
  moreover have "length d < 2 ^ 31" using assms(8) r ext4_block_unat[OF assms(2)] assms(3) by auto
  ultimately have n: "sint (dlen db) = int (length d)" using sint_small[of "length d"] by (metis of_nat_unat ucast_id)
  have sp: "sparse out" using assms(6) by (simp add: written_def)
  have eq: "visit (write_data_block E info) (write_data_file E info) (block_size info) db out
      = write_data_block E info out (of_nat off) (if filename db = None then ddata db else d) (int (length d))"
    using write_data_file_eq[OF _ br(1) _ sp assms(5), of _ off] br(3) o n by (auto simp: visit_def split: option.splits)
  have "take (length d) (if filename db = None then ddata db else d) = d"
    using br(1) dl by (auto simp: backing_def Let_def split: if_splits option.splits)
  then show ?thesis
    using write_data_block_works[OF assms(1-7) assms(8)[unfolded r]] unfolding eq r by blast
qed

lemma visits_work:
  assumes "works E" "ext4_block (block_size info)" "b = unat (block_size info)" "b dvd unat (fs_len info)" "unat (fs_len info) < 2 ^ 42"
  shows "written info cs img out \<Longrightarrow> b dvd length img \<Longrightarrow> length img \<le> unat (fs_len info) \<Longrightarrow>
    layout_ok b (unat (fs_len info)) (length img) rs \<Longrightarrow> list_all2 (block_region E b (unat (fs_len info))) dbs rs \<Longrightarrow>
    \<exists>out' cs'. foldR (visit (write_data_block E info) (write_data_file E info) (block_size info)) dbs out = Inr out'
      \<and> written info cs' (foldl (put_region b) img rs) out' \<and> length cs' \<le> length cs + 2 * length rs"
proof (induction rs arbitrary: dbs cs img out)
  case (Cons r rs)
  obtain db dbs' where dbs: "dbs = db # dbs'" "block_region E b (unat (fs_len info)) db r"
      "list_all2 (block_region E b (unat (fs_len info))) dbs' rs"
    using Cons.prems(5) by (auto simp: list_all2_Cons2)
  obtain off d where r: "r = (off, d)" by (cases r)
  have l1: "layout_ok b (unat (fs_len info)) (length img) [r]" using Cons.prems(4) r by simp
  have b0: "0 < b" using ext4_block_unat[OF assms(2)] assms(3) by auto
  note ps = put_region_spec[OF b0 assms(4) Cons.prems(3) l1[unfolded r]]
  obtain out1 cs1 where o1: "visit (write_data_block E info) (write_data_file E info) (block_size info) db out = Inr out1"
      "written info cs1 (put_region b img r) out1" "length cs1 \<le> length cs + 2"
    using visit_works[OF assms Cons.prems(1,2) l1 dbs(2)] by blast
  have "layout_ok b (unat (fs_len info)) (length (put_region b img r)) rs" using Cons.prems(4) r ps(1) by simp
  then obtain out' cs' where "foldR (visit (write_data_block E info) (write_data_file E info) (block_size info)) dbs' out1 = Inr out'"
      "written info cs' (foldl (put_region b) (put_region b img r) rs) out'" "length cs' \<le> length cs1 + 2 * length rs"
    using Cons.IH[OF o1(2) _ _ _ dbs(3)] ps(2,3) r by auto
  then show ?case using dbs(1) o1 by auto
qed auto

text \<open>Padding and closing.\<close>

lemma pad_works:
  assumes "works E" "ext4_block (block_size info)" "unat (block_size info) dvd unat (fs_len info)" "unat (fs_len info) < 2 ^ 42"
    and "written info cs img out" "unat (block_size info) dvd length img" "length img \<le> unat (fs_len info)"
  shows "\<exists>out' cs'. pad_output_file E info (fs_len info) out = Inr out'
    \<and> written info cs' (img @ replicate (unat (fs_len info) - length img) 0) out' \<and> length cs' \<le> length cs + 1"
proof -
  have f: "fs_len info = of_nat (unat (fs_len info))" by simp
  have c: "cur_out_ptr out = of_nat (length img)" "sparse out" using assms(5) by (auto simp: written_def)
  have "unat (of_nat (length img) :: u64) = length img" using assms(4,7) by (intro unat_of_nat64) simp
  then have "\<not> fs_len info < cur_out_ptr out" using assms(7) c by (simp add: word_less_nat_alt)
  then show ?thesis
    using gap_works[OF assms(1,2,5,6,3,7,4)] c(2) unfolding f[symmetric] by (simp add: pad_output_file_def)
qed

lemma close_works:
  assumes "works E" "written info cs img out"
  shows "fd_data (close_output_file E out)
    = sparse_header_bytes (initial_sparse_header\<lparr>blk_sz := block_size info, total_blks := ucast (fs_len info div ucast (block_size info)),
        total_chunks := of_nat (length cs), image_checksum := sparse_crc32 0 img\<rparr>)
      @ List.concat (map (chunk_bytes (unat (block_size info))) cs)"
proof -
  have "out_write E n 28 \<ge> int 28" "seek_ok E n" for n
    using assms(1) unfolding works_def by blast+
  then have "min (out_write E n 28) 28 = 28" "seek_ok E n" for n by (simp_all add: min_absorb2)
  then show ?thesis
    using assms(2) by (auto simp: close_output_file_def written_def ops_seek_def file_seek_def ops_write_def file_write_def
        otick_def put_at_def Let_def)
qed

section \<open>From the queue to the expanded image\<close>

lemma open_works:
  assumes "works E" "ext4_block (block_size info)"
  shows "\<exists>out. open_output_file E info False True initial_sparse_header = Inr (Some out) \<and> written info [] [] out"
proof -
  define hdr where "hdr = initial_sparse_header\<lparr>blk_sz := block_size info, total_blks := ucast (fs_len info div ucast (block_size info))\<rparr>"
  define out where "out = \<lparr>fd_data = [], fd_pos = 0, gz_fd = None, sparse = True, cur_out_ptr = 0, chunk_cnt = 0, crc32 = 0,
                   header = hdr, ocalls = 0\<rparr>"
  define out1 where "out1 = out\<lparr>fd_data := sparse_header_bytes hdr, fd_pos := 28, ocalls := 1\<rparr>"
  have "file_write E (sparse_header_bytes hdr) out = (0, out1)"
    using file_write_works[OF assms(1), of out "sparse_header_bytes hdr"] by (simp add: ops_write_def out_def out1_def)
  then have "open_output_file E info False True initial_sparse_header = Inr (Some out1)"
    using assms ext4_block_unat[OF assms(2)]
    by (simp add: open_output_file_def works_def Let_def flip: hdr_def out_def)
  moreover have "written info [] [] out1" by (simp add: written_def out1_def out_def hdr_def)
  ultimately show ?thesis by blast
qed

lemma super_works:
  assumes "works E" "ext4_block (block_size info)" "b = unat (block_size info)" "b dvd unat (fs_len info)" "unat (fs_len info) < 2 ^ 42"
    and "written info [] [] out" "length sb = 1024" "layout_ok b (unat (fs_len info)) 0 [super_region b sb]"
  shows "\<exists>out' cs'. (if block_size info > 1024
                then write_data_block E info out 0 (store (replicate 4096 0) 1024 sb) (sint (block_size info))
                else write_data_block E info out 1024 sb 1024) = Inr out'
    \<and> written info cs' (put_region b [] (super_region b sb)) out' \<and> length cs' \<le> Suc (Suc 0)"
proof (cases "b > 1024")
  case True
  have l: "length (take b (store (replicate 4096 0) 1024 sb)) = b"
    using ext4_block_unat[OF assms(2)] assms(3,7) by (auto simp: store_def)
  have "layout_ok b (unat (fs_len info)) (length ([] :: bytes)) [(0, take b (store (replicate 4096 0) 1024 sb))]"
    using assms(8) True by (simp add: super_region_def)
  then show ?thesis
    using write_data_block_works[OF assms(1-6) _ _, of 0 "take b (store (replicate 4096 0) 1024 sb)" "store (replicate 4096 0) 1024 sb"]
      True l ext4_block_unat[OF assms(2)] assms(3) by (simp add: super_region_def word_less_nat_alt)
next
  case False
  then have "layout_ok b (unat (fs_len info)) (length ([] :: bytes)) [(1024, sb)]" using assms(8) by (simp add: super_region_def)
  then show ?thesis
    using write_data_block_works[OF assms(1-6) _ _, of 1024 sb sb] False assms(3,7) by (simp add: super_region_def word_less_nat_alt)
qed

lemma desc_works:
  assumes "works E" "ext4_block (block_size info)" "b = unat (block_size info)" "b dvd unat (fs_len info)" "unat (fs_len info) < 2 ^ 42"
    and "written info cs img out" "b dvd length img" "layout_ok b (unat (fs_len info)) (length img) [desc_region b fdb gdb bg]"
    and "unat gdb * b \<le> length bg"
  shows "\<exists>out' cs'. write_data_block E info out (ucast (fdb + 1) * ucast (block_size info)) bg (sint (gdb * block_size info)) = Inr out'
    \<and> written info cs' (put_region b img (desc_region b fdb gdb bg)) out' \<and> length cs' \<le> length cs + 2"
proof -
  have l: "length (take (unat gdb * b) bg) = unat gdb * b" using assms(9) by simp
  then have s: "unat gdb * b < 2 ^ 31" using assms(8) ext4_block_unat[OF assms(2)] assms(3) by (auto simp: desc_region_def)
  have "gdb * block_size info = of_nat (unat gdb * b)" using assms(3) by simp
  then have n: "sint (gdb * block_size info) = int (unat gdb * b)" using sint_small[OF s] by simp
  have "ucast (fdb + 1) = (of_nat (unat (fdb + 1)) :: u64)" "ucast (block_size info) = (of_nat b :: u64)"
    using assms(3) by (metis of_nat_unat)+
  then have o: "ucast (fdb + 1) * ucast (block_size info) = (of_nat (unat (fdb + 1) * b) :: u64)" by simp
  show ?thesis unfolding n o desc_region_def
    using write_data_block_works[OF assms(1-7) assms(8)[unfolded desc_region_def], of bg] l by simp
qed

lemma image_written:
  assumes "works E" "ext4_block (block_size info)" "b = unat (block_size info)" "b dvd unat (fs_len info)" "unat (fs_len info) < 2 ^ 42"
    and "queue_wf q as" "length sb = 1024" "unat gdb * b \<le> length bg"
    and "list_all2 (block_region E b (unat (fs_len info))) (contents q as) rs" "length rs < 2 ^ 30"
    and "layout_ok b (unat (fs_len info)) 0 (super_region b sb # desc_region b fdb gdb bg # rs)"
  shows "\<exists>cs. write_ext4_image E info sb bg fdb gdb q False True initial_sparse_header
      = Inr (Some (sparse_header_bytes (initial_sparse_header\<lparr>blk_sz := block_size info,
            total_blks := ucast (fs_len info div ucast (block_size info)), total_chunks := of_nat (length cs),
            image_checksum := sparse_crc32 0 (List.concat (map (expand b) cs))\<rparr>) @ List.concat (map (chunk_bytes b) cs)))
    \<and> list_all (chunk_ok b) cs \<and> length cs < 2 ^ 32
    \<and> List.concat (map (expand b) cs) = image_of (unat (fs_len info)) (super_region b sb # desc_region b fdb gdb bg # rs)
    \<and> length (List.concat (map (expand b) cs)) = unat (fs_len info)"
proof -
  define L where "L = unat (fs_len info)"
  have b0: "0 < b" using ext4_block_unat[OF assms(2)] assms(3) by auto
  define s where "s = super_region b sb"
  define g where "g = desc_region b fdb gdb bg"
  have L0: "layout_ok b L 0 (s # g # rs)" using assms(11) by (simp add: L_def s_def g_def)
  have img: "length (foldl (put_region b) [] (s # g # rs)) \<le> L" "b dvd length (foldl (put_region b) [] (s # g # rs))"
      "image_of L (s # g # rs) = foldl (put_region b) [] (s # g # rs) @ replicate (L - length (foldl (put_region b) [] (s # g # rs))) 0"
    using regions_image[OF b0 assms(4), of "[]" "s # g # rs"] L0 by (simp_all add: L_def image_of_def)
  have l1: "layout_ok b L 0 [s]" using L0 by (cases s) simp
  have p1: "length (put_region b [] s) \<le> L" "b dvd length (put_region b [] s)" "layout_ok b L (length (put_region b [] s)) (g # rs)"
    using put_region_spec[OF b0 assms(4), of "[]" "fst s" "snd s"] l1 L0 by (cases s; simp add: L_def)+
  have l2: "layout_ok b L (length (put_region b [] s)) [g]" using p1(3) by (cases g) simp
  have p2: "length (put_region b (put_region b [] s) g) \<le> L" "b dvd length (put_region b (put_region b [] s) g)"
      "layout_ok b L (length (put_region b (put_region b [] s) g)) rs"
    using put_region_spec[OF b0 assms(4), of "put_region b [] s" "fst g" "snd g"] l2 p1 by (cases g; simp add: L_def)+
  obtain out0 where o0: "open_output_file E info False True initial_sparse_header = Inr (Some out0)" "written info [] [] out0"
    using open_works[OF assms(1,2)] by blast
  obtain out1 cs1 where o1: "(if block_size info > 1024
                then write_data_block E info out0 0 (store (replicate 4096 0) 1024 sb) (sint (block_size info))
                else write_data_block E info out0 1024 sb 1024) = Inr out1"
      "written info cs1 (put_region b [] s) out1" "length cs1 \<le> Suc (Suc 0)"
    using super_works[OF assms(1-5) o0(2) assms(7)] l1 unfolding L_def s_def by blast
  obtain out2 cs2 where o2: "write_data_block E info out1 (ucast (fdb + 1) * ucast (block_size info)) bg (sint (gdb * block_size info)) = Inr out2"
      "written info cs2 (put_region b (put_region b [] s) g) out2" "length cs2 \<le> length cs1 + 2"
    using desc_works[OF assms(1-5) o1(2) p1(2)] l2 assms(8) unfolding L_def g_def by blast
  obtain out3 cs3 where o3: "foldR (visit (write_data_block E info) (write_data_file E info) (block_size info)) (contents q as) out2 = Inr out3"
      "written info cs3 (foldl (put_region b) [] (s # g # rs)) out3" "length cs3 \<le> length cs2 + 2 * length rs"
    using visits_work[OF assms(1-5) o2(2) p2(2) p2(1)[unfolded L_def] p2(3)[unfolded L_def] assms(9)] by auto
  obtain out4 cs4 where o4: "pad_output_file E info (fs_len info) out3 = Inr out4"
      "written info cs4 (image_of L (s # g # rs)) out4" "length cs4 \<le> length cs3 + 1"
    using pad_works[OF assms(1,2) assms(4)[unfolded assms(3)] assms(5) o3(2)] img unfolding L_def assms(3) by auto
  have fe: "for_each_data_block (write_data_block E info) (write_data_file E info) (block_size info) q out2 = Inr out3"
    using for_each_eq[OF assms(6), of "block_size info" "write_data_block E info" "write_data_file E info" out2] o3(1) ext4_block_unat[OF assms(2)] by auto
  have "write_ext4_image E info sb bg fdb gdb q False True initial_sparse_header = Inr (Some (fd_data (close_output_file E out4)))"
    unfolding write_ext4_image_def o0(1) bindR.simps option.case o1(1) o2(1) fe o4(1) ..
  moreover have "length cs4 < 2 ^ 32" using o1(3) o2(3) o3(3) o4(3) assms(10) by simp
  moreover have "List.concat (map (expand b) cs4) = image_of L (s # g # rs)" "list_all (chunk_ok b) cs4"
    using o4(2) by (auto simp: written_def assms(3))
  moreover have "length (image_of L (s # g # rs)) = L" using img by simp
  ultimately show ?thesis
    using close_works[OF assms(1) o4(2)] unfolding L_def s_def g_def assms(3) by (intro exI[of _ cs4]) simp
qed



text \<open>A block of a file that ends exactly at the end of the file system is not written, and nobody is told.\<close>

lemma last_file_block_lost:
  "off + word_of_int n = fs_len info \<Longrightarrow> write_data_file E info out off f foff n = Inr out"
  by (simp add: write_data_file_def)

section \<open>The checksum is the CRC-32\<close>

lemma crc_step_xor: "crc_step (a XOR b) = crc_step a XOR crc_step b"
  by (rule bit_word_eqI) (auto simp: crc_step_def bit_simps)

lemma crc_steps_xor: "(crc_step ^^ n) (a XOR b) = (crc_step ^^ n) a XOR (crc_step ^^ n) b"
  by (induction n) (auto simp: crc_step_xor)

lemma of_nat_exp_plus: "i < 2 ^ k \<Longrightarrow> (of_nat (2 ^ k + i :: nat) :: u32) = of_nat (2 ^ k) XOR of_nat i"
proof -
  assume i: "i < 2 ^ k"
  have "\<not> bit i k" using i by (metis bit_take_bit_iff less_irrefl take_bit_nat_eq_self)
  then have "2 ^ k AND i = 0" by (intro bit_eqI) (auto simp: bit_simps)
  then have "2 ^ k + i = 2 ^ k XOR i" by (simp add: disjunctive_xor_eq_or disjunctive_add_eq_or)
  then show ?thesis by (simp only: of_nat_xor_eq)
qed

lemma xor_closure_steps:
  "xor_closure (rev (map (\<lambda>j. (crc_step ^^ n) (of_nat (2 ^ j))) [0..<k])) = map (\<lambda>i. (crc_step ^^ n) (of_nat i)) [0..<2 ^ k]"
proof (induction k)
  case 0
  have "(crc_step ^^ n) 0 = 0" by (induction n) (auto simp: crc_step_def)
  then show ?case by simp
next
  case (Suc k)
  have "[0..<2 ^ Suc k] = [0..<2 ^ k] @ map (\<lambda>i. 2 ^ k + i) [0..<2 ^ k]"
    by (simp add: upt_add_eq_append[of 0 "2 ^ k" "2 ^ k", simplified] map_add_upt mult_2 add.commute)
  then show ?case using Suc by (simp add: of_nat_exp_plus crc_steps_xor del: of_nat_add)
qed

lemma crc_powers:
  "(crc_step ^^ 8) 1 = 0x77073096" "(crc_step ^^ 8) 2 = 0xEE0E612C" "(crc_step ^^ 8) 4 = 0x076DC419"
  "(crc_step ^^ 8) 8 = 0x0EDB8832" "(crc_step ^^ 8) 16 = 0x1DB71064" "(crc_step ^^ 8) 32 = 0x3B6E20C8"
  "(crc_step ^^ 8) 64 = 0x76DC4190" "(crc_step ^^ 8) 128 = 0xEDB88320"
proof -
  have "(crc_step ^^ 8) x = crc_step (crc_step (crc_step (crc_step (crc_step (crc_step (crc_step (crc_step x)))))))" for x
    by (simp add: numeral_eq_Suc)
  then show "(crc_step ^^ 8) 1 = 0x77073096" "(crc_step ^^ 8) 2 = 0xEE0E612C" "(crc_step ^^ 8) 4 = 0x076DC419"
    "(crc_step ^^ 8) 8 = 0x0EDB8832" "(crc_step ^^ 8) 16 = 0x1DB71064" "(crc_step ^^ 8) 32 = 0x3B6E20C8"
    "(crc_step ^^ 8) 64 = 0x76DC4190" "(crc_step ^^ 8) 128 = 0xEDB88320"
    by (simp_all add: crc_step_def)
qed

lemma crc_table: "map (\<lambda>i. (crc_step ^^ 8) (of_nat i)) [0..<256] = crc32_tab"
proof -
  have "xor_closure [0xEDB88320, 0x76DC4190, 0x3B6E20C8, 0x1DB71064, 0x0EDB8832, 0x076DC419, 0xEE0E612C, 0x77073096]
      = crc32_tab"
    by (simp add: crc32_tab_def)
  moreover have "rev (map (\<lambda>j. (crc_step ^^ 8) (of_nat (2 ^ j))) [0..<8])
      = [0xEDB88320, 0x76DC4190, 0x3B6E20C8, 0x1DB71064, 0x0EDB8832, 0x076DC419, 0xEE0E612C, 0x77073096]"
    by (simp add: upt_rec crc_powers)
  ultimately show ?thesis using xor_closure_steps[of 8 8] by simp
qed

lemma crc_steps_shift: "n \<le> 8 \<Longrightarrow> (crc_step ^^ n) (x AND NOT (mask 8)) = drop_bit n (x AND NOT (mask 8))"
proof (induction n)
  case (Suc n)
  have "\<not> bit (drop_bit n (x AND NOT (mask 8))) 0" using Suc.prems by (simp add: bit_simps)
  then show ?case using Suc by (simp add: crc_step_def drop_bit_drop_bit)
qed simp

lemma crc_byte_table: "crc_byte c p = crc32_tab ! unat ((c XOR ucast p) AND 0xFF) XOR drop_bit 8 c"
proof -
  define x where "x = c XOR ucast p"
  have m: "(0xFF :: u32) = mask 8" by (simp add: mask_eq_exp_minus_1)
  have lt: "unat (x AND mask 8) < 256"
    using take_bit_nat_less_exp[of 8 "unat x"] by (simp add: unsigned_take_bit_eq flip: take_bit_eq_mask)
  have "x = (x AND mask 8) XOR (x AND NOT (mask 8))" by (rule bit_word_eqI) (auto simp: bit_simps)
  then have "(crc_step ^^ 8) x = (crc_step ^^ 8) (x AND mask 8) XOR drop_bit 8 (x AND NOT (mask 8))"
    using crc_steps_xor[of 8 "x AND mask 8" "x AND NOT (mask 8)"] crc_steps_shift[of 8 x] by simp
  moreover have "(crc_step ^^ 8) (x AND mask 8) = crc32_tab ! unat (x AND mask 8)"
    using lt arg_cong[OF crc_table, of "\<lambda>l. l ! unat (x AND mask 8)"] by simp
  moreover have "drop_bit 8 (x AND NOT (mask 8)) = drop_bit 8 c"
    by (rule bit_word_eqI) (auto simp: bit_simps x_def dest: bit_imp_le_length)
  ultimately show ?thesis by (simp add: crc_byte_def x_def m)
qed

text \<open>
  C38: the table-driven checksum is the CRC-32 of the standard, computed bit by bit with the reversed polynomial
  \<open>0xEDB88320\<close>, and it can be computed in pieces: this is what lets writer and expander go over the image in
  chunks of different sizes.
\<close>

theorem sparse_crc32_correct:
  "sparse_crc32 crc buf = NOT (foldl crc_byte (NOT crc) buf)
    \<and> sparse_crc32 (sparse_crc32 crc a) b = sparse_crc32 crc (a @ b)"
proof -
  have "crc_loop c buf = foldl crc_byte c buf" for c
    by (induction buf arbitrary: c) (simp_all add: crc_byte_table)
  moreover have "c XOR NOT 0 = NOT c" for c :: u32 by (rule bit_word_eqI) (auto simp: bit_simps)
  ultimately show ?thesis
    by (simp only: sparse_crc32_append) (simp only: sparse_crc32_def)
qed

end
