(* ===== verification/Sha1.thy ===== *)
theory Sha1
  imports Prelude
begin

text \<open>
  The digest of \<open>ext4_utils/sha1.c\<close> and the identifiers that \<open>ext4_utils/uuid.c\<close> makes
  from it. The block is expanded in place, in a buffer of sixteen words that the rounds overwrite as they go, and the
  five working variables change roles from round to round instead of moving; the message may come in any number of
  pieces. The lemmas relate this to the digest as the standard (FIPS 180) defines it.
\<close>

unbundle bit_operations_syntax

section \<open>One block\<close>

definition rol :: "u32 \<Rightarrow> nat \<Rightarrow> u32" where
  "rol v bits = push_bit bits v OR drop_bit (32 - bits) v"

text \<open>The words of the union, read in the byte order of the machine.\<close>

definition word_le :: "bytes \<Rightarrow> nat \<Rightarrow> u32" where
  "word_le c i = ucast (c ! (4 * i)) OR push_bit 8 (ucast (c ! (4 * i + 1)))
     OR push_bit 16 (ucast (c ! (4 * i + 2))) OR push_bit 24 (ucast (c ! (4 * i + 3)))"

definition blk0 :: "u32 list \<Rightarrow> nat \<Rightarrow> u32" where
  "blk0 l i = (rol (l ! i) 24 AND 0xFF00FF00) OR (rol (l ! i) 8 AND 0x00FF00FF)"

definition blk :: "u32 list \<Rightarrow> nat \<Rightarrow> u32" where
  "blk l i = rol (l ! ((i + 13) mod 16) XOR l ! ((i + 8) mod 16) XOR l ! ((i + 2) mod 16) XOR l ! (i mod 16)) 1"

text \<open>
  The macros \<open>R0\<close> to \<open>R4\<close> on the working variables \<open>ws\<close> and the block \<open>l\<close>: the arguments
  say which variable plays which role.
\<close>

definition mix :: "nat \<Rightarrow> nat \<Rightarrow> nat \<Rightarrow> u32 \<Rightarrow> u32 \<Rightarrow> u32 \<Rightarrow> u32 list \<Rightarrow> u32 list" where
  "mix v w z f b k ws =
     (let ws = ws[z := ws ! z + (f + b + k + rol (ws ! v) 5)] in ws[w := rol (ws ! w) 30])"

definition R0 :: "nat \<Rightarrow> nat \<Rightarrow> nat \<Rightarrow> nat \<Rightarrow> nat \<Rightarrow> nat \<Rightarrow> u32 list \<times> u32 list \<Rightarrow> u32 list \<times> u32 list" where
  "R0 v w x y z i = (\<lambda>(ws, l).
     let l = l[i := blk0 l i] in
     (mix v w z ((ws ! w AND (ws ! x XOR ws ! y)) XOR ws ! y) (l ! i) 0x5A827999 ws, l))"

definition R1 :: "nat \<Rightarrow> nat \<Rightarrow> nat \<Rightarrow> nat \<Rightarrow> nat \<Rightarrow> nat \<Rightarrow> u32 list \<times> u32 list \<Rightarrow> u32 list \<times> u32 list" where
  "R1 v w x y z i = (\<lambda>(ws, l).
     let l = l[i mod 16 := blk l i] in
     (mix v w z ((ws ! w AND (ws ! x XOR ws ! y)) XOR ws ! y) (l ! (i mod 16)) 0x5A827999 ws, l))"

definition R2 :: "nat \<Rightarrow> nat \<Rightarrow> nat \<Rightarrow> nat \<Rightarrow> nat \<Rightarrow> nat \<Rightarrow> u32 list \<times> u32 list \<Rightarrow> u32 list \<times> u32 list" where
  "R2 v w x y z i = (\<lambda>(ws, l).
     let l = l[i mod 16 := blk l i] in
     (mix v w z (ws ! w XOR ws ! x XOR ws ! y) (l ! (i mod 16)) 0x6ED9EBA1 ws, l))"

definition R3 :: "nat \<Rightarrow> nat \<Rightarrow> nat \<Rightarrow> nat \<Rightarrow> nat \<Rightarrow> nat \<Rightarrow> u32 list \<times> u32 list \<Rightarrow> u32 list \<times> u32 list" where
  "R3 v w x y z i = (\<lambda>(ws, l).
     let l = l[i mod 16 := blk l i] in
     (mix v w z (((ws ! w OR ws ! x) AND ws ! y) OR (ws ! w AND ws ! x)) (l ! (i mod 16)) 0x8F1BBCDC ws, l))"

definition R4 :: "nat \<Rightarrow> nat \<Rightarrow> nat \<Rightarrow> nat \<Rightarrow> nat \<Rightarrow> nat \<Rightarrow> u32 list \<times> u32 list \<Rightarrow> u32 list \<times> u32 list" where
  "R4 v w x y z i = (\<lambda>(ws, l).
     let l = l[i mod 16 := blk l i] in
     (mix v w z (ws ! w XOR ws ! x XOR ws ! y) (l ! (i mod 16)) 0xCA62C1D6 ws, l))"

text \<open>
  The eighty unrolled lines: sixteen of \<open>R0\<close>, four of \<open>R1\<close> and twenty of each of the others, the list of
  variables turning by one place from each to the next.
\<close>

definition round_line :: "nat \<Rightarrow> u32 list \<times> u32 list \<Rightarrow> u32 list \<times> u32 list" where
  "round_line i =
     (let r = (80 - i) mod 5;
          R = (if i < 16 then R0 else if i < 20 then R1 else if i < 40 then R2 else if i < 60 then R3 else R4)
      in R r ((r + 1) mod 5) ((r + 2) mod 5) ((r + 3) mod 5) ((r + 4) mod 5) i)"

definition SHA1Transform :: "u32 list \<Rightarrow> bytes \<Rightarrow> u32 list res" where
  "SHA1Transform state buffer =
     bindR (region buffer 0 64) (\<lambda>c.
       let (ws, l) = fold round_line [0..<80] (state, map (word_le c) [0..<16])
       in Inr (map2 (+) state ws))"

section \<open>The message in pieces\<close>

record SHA1_CTX =
  sstate :: "u32 list"
  count0 :: u32
  count1 :: u32
  sbuffer :: bytes

definition SHA1Init :: "SHA1_CTX \<Rightarrow> SHA1_CTX" where
  "SHA1Init ctx = ctx\<lparr>sstate := [0x67452301, 0xEFCDAB89, 0x98BADCFE, 0x10325476, 0xC3D2E1F0],
     count0 := 0, count1 := 0\<rparr>"

text \<open>\<open>memcpy\<close> into the buffer of the context.\<close>

definition to_buffer :: "u32 \<Rightarrow> bytes \<Rightarrow> SHA1_CTX \<Rightarrow> SHA1_CTX res" where
  "to_buffer j d ctx =
     (if unat j + length d \<le> length (sbuffer ctx)
      then Inr (ctx\<lparr>sbuffer := store (sbuffer ctx) (unat j) d\<rparr>) else Inl OutOfBounds)"

partial_function (option) update_loop ::
  "bytes \<Rightarrow> u32 \<Rightarrow> u32 \<Rightarrow> u32 list \<Rightarrow> (u32 \<times> u32 list) res option" where
  "update_loop data n i st =
     (if i + 63 < n then
        (case bindR (region data (int (unat i)) 64) (SHA1Transform st) of
           Inl e \<Rightarrow> Some (Inl e)
         | Inr st \<Rightarrow> update_loop data n (i + 64) st)
      else Some (Inr (i, st)))"

definition SHA1Update :: "bytes \<Rightarrow> u32 \<Rightarrow> SHA1_CTX \<Rightarrow> SHA1_CTX res" where
  "SHA1Update data n ctx =
     (let j = count0 ctx;
          ctx = ctx\<lparr>count0 := count0 ctx + push_bit 3 n\<rparr>;
          ctx = (if count0 ctx < j then ctx\<lparr>count1 := count1 ctx + (drop_bit 29 n + 1)\<rparr> else ctx);
          j = drop_bit 3 j AND 63 in
      bindR (if j + n > 63 then
               bindR (region data 0 (int (unat (64 - j)))) (\<lambda>d.
               bindR (to_buffer j d ctx) (\<lambda>ctx.
               bindR (SHA1Transform (sstate ctx) (sbuffer ctx)) (\<lambda>st.
               bindR (bindR (of_loop (update_loop data n (64 - j) st)) id) (\<lambda>(i, st).
               Inr (i, 0, ctx\<lparr>sstate := st\<rparr>)))))
             else Inr (0, j, ctx)) (\<lambda>(i, j, ctx).
      bindR (region data (int (unat i)) (int (unat (n - i)))) (\<lambda>d. to_buffer j d ctx)))"

partial_function (option) pad_loop :: "SHA1_CTX \<Rightarrow> SHA1_CTX res option" where
  "pad_loop ctx =
     (if count0 ctx AND 504 \<noteq> 448 then
        (case SHA1Update [0] 1 ctx of Inl e \<Rightarrow> Some (Inl e) | Inr ctx \<Rightarrow> pad_loop ctx)
      else Some (Inr ctx))"

definition finalcount :: "SHA1_CTX \<Rightarrow> bytes" where
  "finalcount ctx = map (\<lambda>i. ucast (drop_bit ((3 - i mod 4) * 8) (if i \<ge> 4 then count0 ctx else count1 ctx) AND 255)) [0..<8]"

definition SHA1Final :: "SHA1_CTX \<Rightarrow> bytes res" where
  "SHA1Final ctx =
     (let fc = finalcount ctx in
      bindR (SHA1Update [128] 1 ctx) (\<lambda>ctx.
      bindR (bindR (of_loop (pad_loop ctx)) id) (\<lambda>ctx.
      bindR (SHA1Update fc 8 ctx) (\<lambda>ctx.
      Inr (map (\<lambda>i. ucast (drop_bit ((3 - i mod 4) * 8) (sstate ctx ! (i div 4)) AND 255)) [0..<20])))))"

section \<open>Identifiers\<close>

text \<open>
  \<open>generate_uuid\<close>: the digest of a name space and a name, as a \<open>struct uuid\<close> in memory. The structure has
  the offsets 0 (\<open>time_low\<close>), 4 (\<open>time_mid\<close>, declared with 32 bits), 8 (\<open>time_hi_and_version\<close>), 10, 11, 12
  and, after two bytes of padding, 16, and thus twenty bytes; the numbers in it are little-endian and \<open>ntohl\<close> and
  \<open>ntohs\<close> exchange their bytes. The result is stored at offset \<open>off\<close> of the object \<open>obj\<close>.
\<close>

definition sha1_hash :: "bytes \<Rightarrow> bytes \<Rightarrow> SHA1_CTX \<Rightarrow> bytes res" where
  "sha1_hash namespace name ctx =
     bindR (SHA1Update namespace (of_nat (length namespace)) (SHA1Init ctx)) (\<lambda>ctx.
     bindR (SHA1Update name (of_nat (length name)) ctx) SHA1Final)"

definition uuid_fields :: "bytes \<Rightarrow> bytes" where
  "uuid_fields u =
     [u ! 3, u ! 2, u ! 1, u ! 0, u ! 5, u ! 4, 0, 0,
      u ! 9, (u ! 8 AND 0x0F) OR 0x50, (u ! 10 AND NOT 0x40) OR 0x80] @ drop 11 u"

definition generate_uuid :: "bytes \<Rightarrow> bytes \<Rightarrow> SHA1_CTX \<Rightarrow> bytes \<Rightarrow> nat \<Rightarrow> bytes res" where
  "generate_uuid namespace name ctx obj off =
     bindR (sha1_hash namespace name ctx) (\<lambda>sha1.
       if off + 20 \<le> length obj then Inr (store obj off (uuid_fields sha1)) else Inl OutOfBounds)"

section \<open>Notions used in the statements\<close>

definition sha_f :: "nat \<Rightarrow> u32 \<Rightarrow> u32 \<Rightarrow> u32 \<Rightarrow> u32" where
  "sha_f t x y z =
     (if t < 20 then (x AND y) XOR (NOT x AND z)
      else if 40 \<le> t \<and> t < 60 then (x AND y) XOR (x AND z) XOR (y AND z)
      else x XOR y XOR z)"

definition sha_K :: "nat \<Rightarrow> u32" where
  "sha_K t = (if t < 20 then 0x5A827999 else if t < 40 then 0x6ED9EBA1 else if t < 60 then 0x8F1BBCDC else 0xCA62C1D6)"

definition word_be :: "bytes \<Rightarrow> nat \<Rightarrow> u32" where
  "word_be c i = push_bit 24 (ucast (c ! (4 * i))) OR push_bit 16 (ucast (c ! (4 * i + 1)))
     OR push_bit 8 (ucast (c ! (4 * i + 2))) OR ucast (c ! (4 * i + 3))"

fun sha_W :: "bytes \<Rightarrow> nat \<Rightarrow> u32" where
  "sha_W c t = (if t < 16 then word_be c t
     else rol (sha_W c (t - 3) XOR sha_W c (t - 8) XOR sha_W c (t - 14) XOR sha_W c (t - 16)) 1)"

definition sha_step :: "bytes \<Rightarrow> nat \<Rightarrow> u32 list \<Rightarrow> u32 list" where
  "sha_step M t h =
     (let a = h ! 0; b = h ! 1; c = h ! 2; d = h ! 3; e = h ! 4 in
      [rol a 5 + sha_f t b c d + e + sha_K t + sha_W M t, a, rol b 30, c, d])"

definition sha_block :: "u32 list \<Rightarrow> bytes \<Rightarrow> u32 list" where
  "sha_block h M = map2 (+) h (fold (sha_step M) [0..<80] h)"

function sha_blocks :: "u32 list \<Rightarrow> bytes \<Rightarrow> u32 list" where
  "sha_blocks h m = (if length m < 64 then h else sha_blocks (sha_block h (take 64 m)) (drop 64 m))"
  by auto

termination by (relation "measure (\<lambda>(h, m). length m)") auto

declare sha_W.simps [simp del] sha_blocks.simps [simp del]

definition be_bytes :: "u32 \<Rightarrow> bytes" where
  "be_bytes w = map (\<lambda>i. ucast (drop_bit ((3 - i) * 8) w AND 255)) [0..<4]"

definition sha_padding :: "nat \<Rightarrow> bytes" where
  "sha_padding n = 128 # replicate ((119 - n mod 64) mod 64) 0
     @ be_bytes (of_nat (8 * n div 2 ^ 32)) @ be_bytes (of_nat (8 * n))"

definition sha1 :: "bytes \<Rightarrow> bytes" where
  "sha1 m = concat (map be_bytes
     (sha_blocks [0x67452301, 0xEFCDAB89, 0x98BADCFE, 0x10325476, 0xC3D2E1F0] (m @ sha_padding (length m))))"

text \<open>The working variables in the order of their roles before round \<open>t\<close>.\<close>

definition roles :: "nat \<Rightarrow> u32 list \<Rightarrow> u32 list" where
  "roles t ws = (let r = (80 - t) mod 5 in map (\<lambda>k. ws ! ((r + k) mod 5)) [0..<5])"

definition next_word :: "u32 list \<Rightarrow> nat \<Rightarrow> u32" where
  "next_word l t = (if t < 16 then blk0 l t else blk l t)"

definition window :: "bytes \<Rightarrow> nat \<Rightarrow> u32 list \<Rightarrow> bool" where
  "window M t l \<longleftrightarrow> length l = 16 \<and> (\<forall>s. s < t \<and> t \<le> s + 16 \<longrightarrow> l ! (s mod 16) = sha_W M s)
     \<and> (\<forall>s. t \<le> s \<and> s < 16 \<longrightarrow> l ! s = word_le M s)"

definition sha_init :: "u32 list" where
  "sha_init = [0x67452301, 0xEFCDAB89, 0x98BADCFE, 0x10325476, 0xC3D2E1F0]"

definition hashed :: "SHA1_CTX \<Rightarrow> bytes \<Rightarrow> bool" where
  "hashed ctx m \<longleftrightarrow> sstate ctx = sha_blocks sha_init m \<and> length (sbuffer ctx) = 64
     \<and> unat (count0 ctx) = 8 * length m mod 2 ^ 32 \<and> unat (count1 ctx) = 8 * length m div 2 ^ 32 mod 2 ^ 32
     \<and> take (length m mod 64) (sbuffer ctx) = drop (length m - length m mod 64) m"

section \<open>The rounds are those of the standard\<close>

lemma blk0_be:
  "l ! i = word_le c i \<Longrightarrow> blk0 l i = word_be c i"
proof (rule bit_word_eqI)
  fix n assume l: "l ! i = word_le c i" and n: "n < LENGTH(32)"
  define p q r s where "p = c ! (4 * i)" "q = c ! (4 * i + 1)" "r = c ! (4 * i + 2)" "s = c ! (4 * i + 3)"
  have "n < 32" using n by simp
  have hi: "8 \<le> k \<Longrightarrow> \<not> bit x k" for x :: u8 and k using bit_imp_le_length[of x k] by auto
  have b: "n < 8 \<or> 8 \<le> n \<and> n < 16 \<or> 16 \<le> n \<and> n < 24 \<or> 24 \<le> n" by linarith
  have m: "(0xFF00FF00 :: u32) = push_bit 24 (mask 8) OR push_bit 8 (mask 8)" "(0x00FF00FF :: u32) = push_bit 16 (mask 8) OR mask 8"
    by (simp_all add: mask_eq_exp_minus_1)
  from b show "bit (blk0 l i) n = bit (word_be c i) n"
    unfolding blk0_def m word_be_def l word_le_def rol_def p_q_r_s_def[symmetric]
    by (elim disjE) (use \<open>n < 32\<close> in \<open>auto simp: bit_simps hi\<close>)
qed

lemma choose_eq: "((w AND (x XOR y)) XOR y) = (w AND x) XOR (NOT w AND (y :: u32))"
  by (rule bit_word_eqI) (auto simp: bit_simps)

lemma majority_eq: "((w OR x) AND y) OR (w AND x) = (w AND x) XOR (w AND y) XOR (x AND (y :: u32))"
  by (rule bit_word_eqI) (auto simp: bit_simps)

lemma length_mix [simp]: "length (mix v w z f b k ws) = length ws"
  by (simp add: mix_def Let_def)

lemma list5: "length ws = 5 \<Longrightarrow> \<exists>a b c d e. ws = [a, b, c, d, e]"
  by (simp add: numeral_eq_Suc length_Suc_conv) blast

lemma upt5: "[0..<5] = [0, 1, 2, 3, 4 :: nat]"
  by (simp add: upt_rec)

lemma roles_full: "length ws = 5 \<Longrightarrow> (80 - t) mod 5 = 0 \<Longrightarrow> roles t ws = ws"
  by (auto simp: roles_def upt5 Let_def dest!: list5)

lemma mix_roles:
  assumes "length ws = 5" "t < 80" and "r = (80 - t) mod 5"
    and "f = sha_f t (roles t ws ! 1) (roles t ws ! 2) (roles t ws ! 3)"
  shows "roles (Suc t) (mix r ((r + 1) mod 5) ((r + 4) mod 5) f (sha_W M t) (sha_K t) ws) = sha_step M t (roles t ws)"
proof -
  obtain a b c d e where ws: "ws = [a, b, c, d, e]" using list5[OF assms(1)] by blast
  have R: "roles t ws = map (\<lambda>k. ws ! ((r + k) mod 5)) [0, 1, 2, 3, 4]"
    by (simp add: roles_def assms(3)[symmetric] upt5)
  have "(80 - Suc t) mod 5 = (r + 4) mod 5"
  proof -
    obtain n where n: "80 - t = Suc n" using assms(2) by (metis Suc_diff_Suc)
    then have "80 - Suc t = n" by linarith
    then show ?thesis using mod_add_left_eq[of "Suc n" 5 4] by (simp add: assms(3) n)
  qed
  then have R': "roles (Suc t) vs = map (\<lambda>k. vs ! (((r + 4) mod 5 + k) mod 5)) [0, 1, 2, 3, 4]" for vs
    by (simp only: roles_def upt5 Let_def)
  have "r < 5" using assms(3) by simp
  then consider "r = 0" | "r = 1" | "r = 2" | "r = 3" | "r = 4" by linarith
  then show ?thesis
    unfolding assms(4) R' R by cases (simp_all add: ws sha_step_def mix_def add_ac)
qed

lemma round_line_eq:
  assumes "t < 80" "length l = 16" "length ws = 5" "r = (80 - t) mod 5"
  shows "round_line t (ws, l) = (mix r ((r + 1) mod 5) ((r + 4) mod 5)
      (sha_f t (roles t ws ! 1) (roles t ws ! 2) (roles t ws ! 3)) (next_word l t) (sha_K t) ws, l[t mod 16 := next_word l t])"
proof -
  have R: "roles t ws = map (\<lambda>k. ws ! ((r + k) mod 5)) [0, 1, 2, 3, 4]"
    by (simp only: roles_def assms(4)[symmetric] upt5 Let_def)
  have "t mod 16 < 16" by simp
  consider "t < 16" | "16 \<le> t" "t < 20" | "20 \<le> t" "t < 40" | "40 \<le> t" "t < 60" | "60 \<le> t" by linarith
  then show ?thesis
    unfolding round_line_def assms(4)[symmetric] R
    by cases (simp_all add: R0_def R1_def R2_def R3_def R4_def next_word_def assms(1-3) sha_f_def sha_K_def
        choose_eq majority_eq Let_def)
qed

lemma next_word_eq:
  assumes "window M t l"
  shows "next_word l t = sha_W M t"
proof (cases "t < 16")
  case True
  then have "blk0 l t = word_be M t" using assms by (intro blk0_be) (simp add: window_def)
  then show ?thesis using True by (simp add: next_word_def sha_W.simps[of M t])
next
  case False
  have W: "l ! ((t - k) mod 16) = sha_W M (t - k)" if "0 < k" "k \<le> 16" for k
    using assms that False by (simp add: window_def)
  have "t + 13 = t - 3 + 16" "t + 8 = t - 8 + 16" "t + 2 = t - 14 + 16" "t = t - 16 + 16" using False by linarith+
  then have idx: "(t + 13) mod 16 = (t - 3) mod 16" "(t + 8) mod 16 = (t - 8) mod 16" "(t + 2) mod 16 = (t - 14) mod 16"
    "t mod 16 = (t - 16) mod 16"
    by (metis mod_add_self2)+
  have "next_word l t = rol (sha_W M (t - 3) XOR sha_W M (t - 8) XOR sha_W M (t - 14) XOR sha_W M (t - 16)) 1"
    using False W[of 3] W[of 8] W[of 14] W[of 16] unfolding next_word_def blk_def idx by simp
  then show ?thesis using False by (subst sha_W.simps) simp
qed

lemma window_step:
  assumes "window M t l"
  shows "window M (Suc t) (l[t mod 16 := sha_W M t])"
proof -
  have "s mod 16 \<noteq> t mod 16" if "s < t" "Suc t \<le> s + 16" for s
  proof
    assume "s mod 16 = t mod 16"
    then have "16 dvd t - s" using that by (metis mod_eq_dvd_iff_nat less_imp_le)
    then show False using that by (auto dest: dvd_imp_le)
  qed
  then show ?thesis using assms by (auto simp: window_def less_Suc_eq nth_list_update) blast
qed

lemma rounds_eq:
  assumes "length h = 5" "length M = 64" "t \<le> 80"
  shows "\<exists>ws l. fold round_line [0..<t] (h, map (word_le M) [0..<16]) = (ws, l) \<and> length ws = 5 \<and> window M t l
    \<and> roles t ws = fold (sha_step M) [0..<t] h"
  using assms(3)
proof (induction t)
  case 0
  show ?case using assms roles_full[of h 0] by (simp add: window_def)
next
  case (Suc t)
  then obtain ws l where F: "fold round_line [0..<t] (h, map (word_le M) [0..<16]) = (ws, l)" and ws: "length ws = 5"
    and l: "window M t l" and r: "roles t ws = fold (sha_step M) [0..<t] h" by auto
  have "length l = 16" using l by (simp add: window_def)
  then show ?case
    using Suc.prems F ws r round_line_eq[of t l ws] next_word_eq[OF l] window_step[OF l] mix_roles[OF ws, of t _ _ M]
    by simp
qed

lemma SHA1Transform_eq:
  assumes "length h = 5" "length M \<ge> 64"
  shows "SHA1Transform h M = Inr (sha_block h (take 64 M)) \<and> length (sha_block h (take 64 M)) = 5"
proof -
  obtain ws l where F: "fold round_line [0..<80] (h, map (word_le (take 64 M)) [0..<16]) = (ws, l)" and ws: "length ws = 5"
    and r: "roles 80 ws = fold (sha_step (take 64 M)) [0..<80] h"
    using rounds_eq[of h "take 64 M" 80] assms by auto
  have "roles 80 ws = ws" using ws by (intro roles_full) simp_all
  then show ?thesis using assms ws F r
    by (simp add: SHA1Transform_def sha_block_def region_def del: upt_Suc)
qed

section \<open>Blocks\<close>

lemma sha_blocks_short [simp]: "length m < 64 \<Longrightarrow> sha_blocks h m = h"
  by (subst sha_blocks.simps) simp

lemma sha_blocks_append: "64 dvd length a \<Longrightarrow> sha_blocks h (a @ b) = sha_blocks (sha_blocks h a) b"
proof (induction h a rule: sha_blocks.induct)
  case (1 h a)
  show ?case
  proof (cases "length a < 64")
    case True
    with 1(2) have "a = []" by (metis dvd_imp_le length_greater_0_conv not_less)
    then show ?thesis by simp
  next
    case False
    then show ?thesis
      using 1(1)[OF False] 1(2) sha_blocks.simps[of h "a @ b"] sha_blocks.simps[of h a] by (simp add: dvd_diff_nat)
  qed
qed

lemma sha_blocks_one: "length m = 64 \<Longrightarrow> sha_blocks h m = sha_block h m"
  by (subst sha_blocks.simps) simp

lemma length_sha_blocks [simp]: "length h = 5 \<Longrightarrow> length (sha_blocks h m) = 5"
proof (induction h m rule: sha_blocks.induct)
  case (1 h m)
  then show ?case using SHA1Transform_eq[of h m] by (subst sha_blocks.simps) auto
qed

lemma sha_blocks_whole: "sha_blocks h m = sha_blocks h (take (length m - length m mod 64) m)"
proof -
  have "64 dvd length m - length m mod 64" by (rule dvd_minus_mod)
  then show ?thesis
    using sha_blocks_append[of "take (length m - length m mod 64) m" h "drop (length m - length m mod 64) m"]
    by (simp add: min_absorb2)
qed

lemma length_sha_init [simp]: "length sha_init = 5"
  by (simp add: sha_init_def)

section \<open>The context stands for the bytes seen so far\<close>

lemma hashed_init: "length (sbuffer ctx) = 64 \<Longrightarrow> hashed (SHA1Init ctx) []"
  by (simp add: hashed_def SHA1Init_def sha_init_def)

lemma carry:
  fixes L k B :: nat
  assumes "k < B"
  shows "(L + k) div B = L div B + (if L mod B + k < B then 0 else 1)"
    and "(L + k) mod B = (if L mod B + k < B then L mod B + k else L mod B + k - B)"
proof -
  define q r where "q = L div B" "r = L mod B"
  have L: "L = q * B + r" and r: "r < B" using assms by (simp_all add: q_r_def)
  show "(L + k) div B = L div B + (if L mod B + k < B then 0 else 1)"
  proof (cases "r + k < B")
    case True
    moreover have "(q * B + (r + k)) div B = q" using True by (intro div_nat_eqI) simp_all
    ultimately show ?thesis using L unfolding q_r_def(1)[symmetric] q_r_def(2)[symmetric] by (simp add: add.assoc)
  next
    case False
    then have "L + k = (q + 1) * B + (r + k - B)" using L by (simp add: algebra_simps)
    moreover have "((q + 1) * B + (r + k - B)) div B = q + 1" using assms r False by (intro div_nat_eqI) simp_all
    ultimately show ?thesis using False unfolding q_r_def(1)[symmetric] q_r_def(2)[symmetric] by (simp add: add.assoc)
  qed
  show "(L + k) mod B = (if L mod B + k < B then L mod B + k else L mod B + k - B)"
    using mod_add_left_eq[of L B k] assms r by (auto simp: q_r_def(2)[symmetric] mod_if[of "r + k"])
qed

lemma bit_count:
  fixes c0 c1 n :: u32
  assumes "unat c0 = L mod 2 ^ 32" "unat c1 = L div 2 ^ 32 mod 2 ^ 32" "unat n < 2 ^ 29"
  shows "unat (c0 + push_bit 3 n) = (L + 8 * unat n) mod 2 ^ 32
    \<and> unat (if c0 + push_bit 3 n < c0 then c1 + (drop_bit 29 n + 1) else c1) = (L + 8 * unat n) div 2 ^ 32 mod 2 ^ 32"
proof -
  have p: "unat (push_bit 3 n) = 8 * unat n"
    using assms(3) by (simp add: unat_word_ariths push_bit_eq_mult)
  have "unat (drop_bit 29 n) = 0" using assms(3) by (simp add: drop_bit_eq_div unat_div)
  then have d: "drop_bit 29 n = 0" by (simp add: unat_eq_0)
  have c: "unat (c0 + push_bit 3 n) = (L + 8 * unat n) mod 2 ^ 32"
    by (simp add: unat_word_ariths p assms(1) mod_simps)
  have dv: "(L + 8 * unat n) div 2 ^ 32 = L div 2 ^ 32 + (if L mod 2 ^ 32 + 8 * unat n < 2 ^ 32 then 0 else 1)"
    "(L + 8 * unat n) mod 2 ^ 32 = (if L mod 2 ^ 32 + 8 * unat n < 2 ^ 32 then L mod 2 ^ 32 + 8 * unat n
       else L mod 2 ^ 32 + 8 * unat n - 2 ^ 32)"
    using carry[of "8 * unat n" "2 ^ 32" L] assms(3) by simp_all
  have "c0 + push_bit 3 n < c0 \<longleftrightarrow> 2 ^ 32 \<le> L mod 2 ^ 32 + 8 * unat n"
    unfolding word_less_nat_alt c assms(1) dv(2) using assms(3) by (simp, linarith)
  then show ?thesis using c dv(1) d assms(2) by (simp add: unat_word_ariths mod_simps)
qed

lemma buffer_index:
  assumes "unat c0 = 8 * L mod 2 ^ 32"
  shows "unat (drop_bit 3 c0 AND 63 :: u32) = L mod 64"
proof -
  have "(63 :: u32) = mask 6" by (simp add: mask_eq_exp_minus_1)
  then have "drop_bit 3 c0 AND 63 = take_bit 6 (drop_bit 3 c0)" by (simp only: take_bit_eq_mask)
  then have "unat (drop_bit 3 c0 AND 63) = unat c0 div 2 ^ 3 mod 2 ^ 6"
    by (simp add: take_bit_eq_mod drop_bit_eq_div unat_div unat_mod)
  then have "unat (drop_bit 3 c0 AND 63) = (8 * L mod 2 ^ 32) div 8 mod 64" by (simp add: assms)
  also have "8 * L mod 2 ^ 32 = 8 * (L mod 2 ^ 29)" using mod_mult_mult1[of 8 L "2 ^ 29"] by simp
  finally show ?thesis by (simp add: mod_mod_cancel)
qed

lemma update_loop_eq:
  assumes "unat n = length d" "length d < 2 ^ 29" "unat i \<le> length d" "64 dvd length m + unat i"
  shows "\<exists>i'. update_loop d n i (sha_blocks sha_init (m @ take (unat i) d))
      = Some (Inr (i', sha_blocks sha_init (m @ take (unat i') d)))
    \<and> unat i' \<le> length d \<and> length d < unat i' + 64 \<and> 64 dvd length m + unat i'"
  using assms
proof (induction "length d - unat i" arbitrary: i rule: less_induct)
  case less
  have i63: "unat (i + 63) = unat i + 63" and i64: "unat (i + 64) = unat i + 64"
    using less.prems by (simp_all add: unat_word_ariths)
  show ?case
  proof (cases "i + 63 < n")
    case True
    then have lt: "unat i + 63 < length d" using i63 less.prems by (simp add: word_less_nat_alt)
    let ?b = "take 64 (drop (unat i) d)"
    have r: "region d (int (unat i)) 64 = Inr ?b" using lt by (simp add: region_def del: of_nat_unat)
    have "m @ take (unat (i + 64)) d = (m @ take (unat i) d) @ ?b" by (simp add: i64 take_add)
    then have b: "sha_blocks sha_init (m @ take (unat (i + 64)) d) = sha_block (sha_blocks sha_init (m @ take (unat i) d)) ?b"
      using sha_blocks_append[of "m @ take (unat i) d" sha_init ?b] less.prems lt
      by (simp add: min_absorb2 sha_blocks_one)
    have t: "SHA1Transform (sha_blocks sha_init (m @ take (unat i) d)) ?b
        = Inr (sha_block (sha_blocks sha_init (m @ take (unat i) d)) ?b)"
      using SHA1Transform_eq[of "sha_blocks sha_init (m @ take (unat i) d)" ?b] lt by simp
    have "64 dvd length m + unat (i + 64)" using dvd_add[OF less.prems(4) dvd_refl] i64 by (simp add: add.assoc)
    then have "\<exists>i'. update_loop d n (i + 64) (sha_blocks sha_init (m @ take (unat (i + 64)) d))
          = Some (Inr (i', sha_blocks sha_init (m @ take (unat i') d)))
        \<and> unat i' \<le> length d \<and> length d < unat i' + 64 \<and> 64 dvd length m + unat i'"
      using less.hyps[of "i + 64"] less.prems lt i64 by simp
    then show ?thesis unfolding b
      by (subst update_loop.simps) (simp add: True r t del: of_nat_unat)
  next
    case False
    then have "length d \<le> unat i + 63" using i63 less.prems by (simp add: word_less_nat_alt)
    then show ?thesis using False less.prems by (subst update_loop.simps) simp
  qed
qed

lemma update_long:
  assumes "hashed ctx m" "length d < 2 ^ 29" "j = of_nat (length m mod 64)" "64 \<le> length m mod 64 + length d"
    and "sstate ctx' = sstate ctx" "sbuffer ctx' = sbuffer ctx"
  shows "\<exists>i st b. bindR (region d 0 (int (unat (64 - j)))) (\<lambda>d'. bindR (to_buffer j d' ctx') (\<lambda>ctx.
      bindR (SHA1Transform (sstate ctx) (sbuffer ctx)) (\<lambda>st.
      bindR (bindR (of_loop (update_loop d (of_nat (length d)) (64 - j) st)) id) (\<lambda>(i, st).
      Inr (i, 0 :: u32, ctx\<lparr>sstate := st\<rparr>))))) = Inr (i, 0, ctx'\<lparr>sstate := st, sbuffer := b\<rparr>)
    \<and> unat i \<le> length d \<and> length d < unat i + 64 \<and> 64 dvd length m + unat i \<and> length b = 64
    \<and> st = sha_blocks sha_init (m @ take (unat i) d)"
proof -
  define k where "k = length m mod 64"
  have k: "k < 64" by (simp add: k_def)
  have j: "unat j = k" using k by (simp add: assms(3) k_def[symmetric] unat_of_nat)
  have j': "unat (64 - j) = 64 - k" using k j by (simp add: unat_sub word_le_nat_alt)
  have len: "64 \<le> k + length d" using assms(4) by (simp add: k_def)
  let ?h = "take (64 - k) d"
  have r: "region d 0 (int (unat (64 - j))) = Inr ?h" using len by (simp add: region_def j' del: of_nat_unat)
  have buf: "length (sbuffer ctx) = 64" "take k (sbuffer ctx) = drop (length m - k) m"
    "sstate ctx = sha_blocks sha_init m" using assms(1) by (simp_all add: hashed_def k_def)
  let ?b = "store (sbuffer ctx) k ?h"
  have b: "?b = drop (length m - k) m @ ?h" using len k buf by (simp add: store_def)
  have tb: "to_buffer j ?h ctx' = Inr (ctx'\<lparr>sbuffer := ?b\<rparr>)" using len k buf j assms by (simp add: to_buffer_def)
  have km: "k \<le> length m" by (simp add: k_def)
  have lb: "length ?b = 64" using len k km b by simp
  have dv: "64 dvd length m - k" unfolding k_def by (rule dvd_minus_mod)
  have "sha_blocks sha_init (m @ ?h) = sha_blocks (sha_blocks sha_init (take (length m - k) m)) ?b"
    using sha_blocks_append[of "take (length m - k) m" sha_init ?b] dv km
    by (simp add: b min_absorb2 append_assoc[symmetric] del: append_assoc)
  also have "\<dots> = sha_block (sstate ctx') ?b"
    using sha_blocks_whole[of sha_init m] lb buf(3) assms(5) by (simp add: k_def[symmetric] sha_blocks_one)
  finally have t: "SHA1Transform (sstate ctx') ?b = Inr (sha_blocks sha_init (m @ take (unat (64 - j)) d))"
    using SHA1Transform_eq[of "sstate ctx'" ?b] lb buf(3) assms(5) by (simp add: j')
  have "length m + (64 - k) = length m - k + 64" using k km by simp
  then have "64 dvd length m + unat (64 - j)" using dv j' by simp
  moreover have "unat (64 - j) \<le> length d" using len j' by simp
  ultimately obtain i' where "update_loop d (of_nat (length d)) (64 - j) (sha_blocks sha_init (m @ take (unat (64 - j)) d))
      = Some (Inr (i', sha_blocks sha_init (m @ take (unat i') d)))"
    "unat i' \<le> length d" "length d < unat i' + 64" "64 dvd length m + unat i'"
    using update_loop_eq[of "of_nat (length d)" d "64 - j" m] assms(2) len j' by (auto simp: unat_of_nat)
  then show ?thesis using lb unfolding r bindR.simps tb
    by (intro exI[of _ i'] exI[of _ "sha_blocks sha_init (m @ take (unat i') d)"] exI[of _ ?b]) (simp add: t)
qed

lemma SHA1Update_eq:
  assumes "hashed ctx m" "length d < 2 ^ 29"
  shows "\<exists>ctx'. SHA1Update d (of_nat (length d)) ctx = Inr ctx' \<and> hashed ctx' (m @ d)"
proof -
  define n :: u32 where "n = of_nat (length d)"
  define j :: u32 where "j = drop_bit 3 (count0 ctx) AND 63"
  define k where "k = length m mod 64"
  have n: "unat n = length d" using assms(2) by (simp add: n_def unat_of_nat)
  have k: "unat j = k" "k < 64" "k \<le> length m"
    using assms(1) buffer_index[of "count0 ctx" "length m"] by (simp_all add: hashed_def j_def k_def)
  have j: "j = of_nat (length m mod 64)" using k(1) by (metis k_def of_nat_unat ucast_id)
  define ctx1 where "ctx1 = ctx\<lparr>count0 := count0 ctx + push_bit 3 n\<rparr>"
  define ctx2 where "ctx2 = (if count0 ctx1 < count0 ctx then ctx1\<lparr>count1 := count1 ctx1 + (drop_bit 29 n + 1)\<rparr> else ctx1)"
  have c: "unat (count0 ctx2) = 8 * length (m @ d) mod 2 ^ 32" "unat (count1 ctx2) = 8 * length (m @ d) div 2 ^ 32 mod 2 ^ 32"
    using bit_count[of "count0 ctx" "8 * length m" "count1 ctx" n] assms n
    by (simp_all add: hashed_def ctx1_def ctx2_def algebra_simps split: if_splits)
  have same: "sstate ctx2 = sstate ctx" "sbuffer ctx2 = sbuffer ctx" by (simp_all add: ctx1_def ctx2_def)
  have cmp: "j + n > 63 \<longleftrightarrow> 64 \<le> k + length d"
    using k n assms(2) by (simp add: word_less_nat_alt unat_word_ariths, arith)
  have upd: "SHA1Update d n ctx = bindR (if j + n > 63 then
               bindR (region d 0 (int (unat (64 - j)))) (\<lambda>d'.
               bindR (to_buffer j d' ctx2) (\<lambda>ctx.
               bindR (SHA1Transform (sstate ctx) (sbuffer ctx)) (\<lambda>st.
               bindR (bindR (of_loop (update_loop d n (64 - j) st)) id) (\<lambda>(i, st).
               Inr (i, 0, ctx\<lparr>sstate := st\<rparr>)))))
             else Inr (0, j, ctx2)) (\<lambda>(i, j, ctx).
      bindR (region d (int (unat i)) (int (unat (n - i)))) (\<lambda>d. to_buffer j d ctx))"
    by (simp only: SHA1Update_def Let_def ctx2_def ctx1_def j_def)
  show ?thesis
  proof (cases "j + n > 63")
    case True
    then obtain i st b where R: "bindR (region d 0 (int (unat (64 - j)))) (\<lambda>d'. bindR (to_buffer j d' ctx2) (\<lambda>ctx.
        bindR (SHA1Transform (sstate ctx) (sbuffer ctx)) (\<lambda>st.
        bindR (bindR (of_loop (update_loop d (of_nat (length d)) (64 - j) st)) id) (\<lambda>(i, st).
        Inr (i, 0 :: u32, ctx\<lparr>sstate := st\<rparr>))))) = Inr (i, 0, ctx2\<lparr>sstate := st, sbuffer := b\<rparr>)"
      and i: "unat i \<le> length d" "length d < unat i + 64" "64 dvd length m + unat i" and b: "length b = 64"
      and st: "st = sha_blocks sha_init (m @ take (unat i) d)"
      using update_long[OF assms j _ same] cmp by (auto simp: k_def)
    have ni: "unat (n - i) = length d - unat i" using i(1) n by (simp add: unat_sub word_le_nat_alt)
    have rg: "region d (int (unat i)) (int (unat (n - i))) = Inr (drop (unat i) d)"
      using i(1) by (simp add: region_def ni del: of_nat_unat)
    have U: "SHA1Update d n ctx = Inr (ctx2\<lparr>sstate := st, sbuffer := store b 0 (drop (unat i) d)\<rparr>)"
      unfolding upd if_P[OF True] R[folded n_def] bindR.simps prod.case rg using i b by (simp add: to_buffer_def)
    have "length (m @ d) mod 64 = ((length m + unat i) mod 64 + (length d - unat i)) mod 64"
      unfolding mod_add_left_eq using i(1) by simp
    then have md: "length (m @ d) mod 64 = length d - unat i" using i by (simp add: dvd_eq_mod_eq_0)
    have "sha_blocks sha_init (m @ d) = st"
      using sha_blocks_append[of "m @ take (unat i) d" sha_init "drop (unat i) d"] i st by (simp add: min_absorb2)
    then have "hashed (ctx2\<lparr>sstate := st, sbuffer := store b 0 (drop (unat i) d)\<rparr>) (m @ d)"
      using md c i b unfolding hashed_def by (simp add: store_def)
    then show ?thesis using U by (simp add: n_def)
  next
    case False
    then have le: "k + length d < 64" using cmp by simp
    have rg: "region d (int (unat (0 :: u32))) (int (unat (n - 0))) = Inr d" by (simp add: region_def n del: of_nat_unat)
    have b: "length (sbuffer ctx) = 64" "take k (sbuffer ctx) = drop (length m - k) m"
      "sstate ctx = sha_blocks sha_init m" using assms(1) by (simp_all add: hashed_def k_def)
    have U: "SHA1Update d n ctx = Inr (ctx2\<lparr>sbuffer := store (sbuffer ctx) k d\<rparr>)"
      unfolding upd if_not_P[OF False] bindR.simps prod.case rg using le k same b by (simp add: to_buffer_def)
    have md: "length (m @ d) mod 64 = k + length d"
      using le by (metis k_def length_append mod_add_left_eq mod_less)
    have "sha_blocks sha_init (m @ d) = sha_blocks sha_init m"
      using sha_blocks_whole[of sha_init "m @ d"] sha_blocks_whole[of sha_init m] md k by (simp add: k_def[symmetric])
    then have "hashed (ctx2\<lparr>sbuffer := store (sbuffer ctx) k d\<rparr>) (m @ d)"
      using md c b same le k unfolding hashed_def by (simp add: store_def)
    then show ?thesis using U by (simp add: n_def)
  qed
qed

lemma count_504:
  assumes "unat c = 8 * L mod 2 ^ 32"
  shows "(c AND 504 = (448 :: u32)) \<longleftrightarrow> L mod 64 = 56"
proof -
  have m: "(504 :: u32) = push_bit 3 (mask 6)" by (simp add: mask_eq_exp_minus_1)
  have "c AND 504 = push_bit 3 (drop_bit 3 c AND 63)"
    by (rule bit_word_eqI) (auto simp: m bit_simps mask_eq_exp_minus_1[symmetric])
  moreover have "unat (push_bit 3 (drop_bit 3 c AND 63)) = 8 * (L mod 64)"
    using buffer_index[OF assms] by (simp add: unat_word_ariths push_bit_eq_mult)
  moreover have "c AND 504 = 448 \<longleftrightarrow> unat (c AND 504) = 448" by (simp add: word_unat_eq_iff)
  ultimately show ?thesis by simp
qed

lemma pad_mod: "k < 64 \<Longrightarrow> (120 - k) mod 64 = (if k \<le> 56 then 56 - k else 120 - (k :: nat))"
  by (simp add: mod_if)

lemma pad_Suc: "k < 63 \<Longrightarrow> Suc z = (120 - k) mod 64 \<Longrightarrow> z = (120 - Suc k) mod 64"
  by (subst (asm) pad_mod, simp, subst pad_mod, simp) (auto split: if_splits)

lemma pad_loop_eq:
  assumes "hashed ctx m"
  shows "\<exists>ctx'. pad_loop ctx = Some (Inr ctx') \<and> hashed ctx' (m @ replicate ((120 - length m mod 64) mod 64) 0)"
  using assms
proof (induction "(120 - length m mod 64) mod 64" arbitrary: ctx m)
  case 0
  have "length m mod 64 < 64" by simp
  then have "length m mod 64 = 56" using 0(1) pad_mod[of "length m mod 64"] by (simp split: if_splits)
  then have "count0 ctx AND 504 = 448" using 0(2) count_504[of "count0 ctx" "length m"] by (simp add: hashed_def)
  then show ?case using 0 by (subst pad_loop.simps) simp
next
  case (Suc z)
  have "length m mod 64 \<noteq> 56" using Suc(2) by auto
  then have c: "count0 ctx AND 504 \<noteq> 448" using Suc(3) count_504[of "count0 ctx" "length m"] by (simp add: hashed_def)
  obtain ctx1 where u: "SHA1Update [0] 1 ctx = Inr ctx1" and h: "hashed ctx1 (m @ [0])"
    using SHA1Update_eq[OF Suc(3), of "[0]"] by auto
  have z: "z = (120 - length (m @ [0 :: u8]) mod 64) mod 64"
  proof (cases "length m mod 64 = 63")
    case True
    then show ?thesis using Suc(2) by (simp add: mod_Suc)
  next
    case False
    then have "length (m @ [0 :: u8]) mod 64 = Suc (length m mod 64)" "length m mod 64 < 63"
      using mod_less_divisor[of 64 "length m"] by (auto simp: mod_Suc)
    then show ?thesis using pad_Suc[OF _ Suc(2)] by metis
  qed
  have r: "[0 :: u8] @ replicate ((120 - length (m @ [0 :: u8]) mod 64) mod 64) 0 = replicate ((120 - length m mod 64) mod 64) 0"
    unfolding z[symmetric] Suc(2)[symmetric] by simp
  have "pad_loop ctx = pad_loop ctx1" using c u by (subst pad_loop.simps) simp
  then show ?case using Suc(1)[OF z h] unfolding append_assoc r by simp
qed

lemma finalcount_eq:
  assumes "hashed ctx m"
  shows "finalcount ctx = be_bytes (of_nat (8 * length m div 2 ^ 32)) @ be_bytes (of_nat (8 * length m))"
proof -
  have "count0 ctx = of_nat (8 * length m)" "count1 ctx = of_nat (8 * length m div 2 ^ 32)"
    using assms by (simp_all add: hashed_def word_unat_eq_iff unat_of_nat del: of_nat_mult)
  then show ?thesis by (simp add: finalcount_def be_bytes_def upt_rec del: of_nat_mult)
qed

lemma digest_eq:
  assumes "length st = 5"
  shows "map (\<lambda>i. ucast (drop_bit ((3 - i mod 4) * 8) (st ! (i div 4)) AND 255)) [0..<20] = concat (map be_bytes st)"
proof -
  obtain a b c d e where "st = [a, b, c, d, e]" using list5[OF assms] by blast
  then show ?thesis by (simp add: be_bytes_def upt_rec)
qed

lemma SHA1Final_eq:
  assumes "hashed ctx m"
  shows "SHA1Final ctx = Inr (sha1 m)"
proof -
  obtain ctx1 where 1: "SHA1Update [128] 1 ctx = Inr ctx1" "hashed ctx1 (m @ [128])"
    using SHA1Update_eq[OF assms, of "[128]"] by auto
  obtain ctx2 where 2: "pad_loop ctx1 = Some (Inr ctx2)"
    "hashed ctx2 ((m @ [128]) @ replicate ((120 - length (m @ [128 :: u8]) mod 64) mod 64) 0)"
    using pad_loop_eq[OF 1(2)] by auto
  have z: "(120 - length (m @ [128 :: u8]) mod 64) mod 64 = (119 - length m mod 64) mod 64"
    by (simp add: mod_Suc)
  obtain ctx3 where 3: "SHA1Update (finalcount ctx) 8 ctx2 = Inr ctx3" "hashed ctx3 (m @ sha_padding (length m))"
    using SHA1Update_eq[OF 2(2), of "finalcount ctx"] unfolding z finalcount_eq[OF assms]
    by (auto simp: sha_padding_def be_bytes_def)
  have "length (sstate ctx3) = 5" using 3(2) by (simp add: hashed_def)
  then show ?thesis using 1 2 3 digest_eq[of "sstate ctx3"]
    by (simp add: SHA1Final_def Let_def sha1_def hashed_def sha_init_def)
qed



text \<open>A piece of half a gigabyte: its length in bits does not reach the high word of the count, unless the low word wraps.\<close>

lemma long_piece_miscounted:
  assumes "SHA1Update d (2 ^ 29) (SHA1Init ctx) = Inr ctx'"
  shows "count0 ctx' = 0 \<and> count1 ctx' = 0"
proof -
  show ?thesis using assms
    by (auto simp: SHA1Update_def Let_def SHA1Init_def to_buffer_def split: if_splits)
qed

section \<open>The identifiers\<close>

lemma uuid_fields_length: "length u = 20 \<Longrightarrow> length (uuid_fields u) = 20"
  by (simp add: uuid_fields_def)

lemma length_sha1: "length (sha1 m) = 20"
proof -
  have "length (concat (map be_bytes st)) = 4 * length st" for st by (induction st) (simp_all add: be_bytes_def)
  then show ?thesis by (simp add: sha1_def)
qed

text \<open>The structure is four bytes longer than the identifier: a buffer of sixteen bytes is overrun.\<close>

lemma generate_uuid_eq:
  assumes "length (sbuffer ctx) = 64" "length namespace < 2 ^ 29" "length name < 2 ^ 29"
  shows "generate_uuid namespace name ctx obj off =
    (if off + 20 \<le> length obj then Inr (store obj off (uuid_fields (sha1 (namespace @ name)))) else Inl OutOfBounds)"
proof -
  obtain ctx1 where 1: "SHA1Update namespace (of_nat (length namespace)) (SHA1Init ctx) = Inr ctx1" "hashed ctx1 namespace"
    using SHA1Update_eq[OF hashed_init[OF assms(1)] assms(2)] by auto
  obtain ctx2 where 2: "SHA1Update name (of_nat (length name)) ctx1 = Inr ctx2" "hashed ctx2 (namespace @ name)"
    using SHA1Update_eq[OF 1(2) assms(3)] by auto
  then show ?thesis using 1 SHA1Final_eq[OF 2(2)] by (simp add: generate_uuid_def sha1_hash_def)
qed

end
