(* ===== verification/Verifier.thy ===== *)
theory Verifier
  imports Minzip_Zip
begin

text \<open>
  The check of a whole-file signature, \<open>verifier.c\<close>. The file is the list of its bytes; the calls
  of the C library may fail, each at its turn, and the hash and the RSA check of mincrypt are parameters.
\<close>

unbundle bit_operations_syntax

section \<open>The environment\<close>

text \<open>
  \<open>v_seek\<close> and \<open>v_read\<close> are indexed by the number of the call: whether the device lets the seek succeed, and how many
  bytes of those present a read delivers; \<open>v_malloc\<close> is asked with a size. The digest of mincrypt is a context that is
  updated and finished.
\<close>

record ('c, 'k) verenv =
  v_open :: bool
  v_seek :: "nat \<Rightarrow> bool"
  v_read :: "nat \<Rightarrow> nat \<Rightarrow> nat"
  v_malloc :: "nat \<Rightarrow> bool"
  vSHA_init :: 'c
  vSHA_update :: "'c \<Rightarrow> bytes \<Rightarrow> 'c"
  vSHA_final :: "'c \<Rightarrow> bytes"
  RSA_verify :: "'k \<Rightarrow> bytes \<Rightarrow> bytes \<Rightarrow> bool"

definition VERIFY_SUCCESS :: int where "VERIFY_SUCCESS = 0"
definition VERIFY_FAILURE :: int where "VERIFY_FAILURE = 1"
definition FOOTER_SIZE :: nat where "FOOTER_SIZE = 6"
definition EOCD_HEADER_SIZE :: nat where "EOCD_HEADER_SIZE = 22"
definition BUFFER_SIZE :: nat where "BUFFER_SIZE = 4096"
definition RSANUMBYTES :: nat where "RSANUMBYTES = 256"

text \<open>A seek from the end, the position being a \<open>long\<close>, and a read of \<open>n\<close> bytes that must be complete.\<close>

definition seek_end :: "('c, 'k) verenv \<Rightarrow> nat \<Rightarrow> bytes \<Rightarrow> nat \<Rightarrow> nat option" where
  "seek_end E call f back =
     (if v_seek E call \<and> length f < 2 ^ 31 \<and> back \<le> length f then Some (length f - back) else None)"

definition read_all :: "('c, 'k) verenv \<Rightarrow> nat \<Rightarrow> bytes \<Rightarrow> nat \<Rightarrow> nat \<Rightarrow> bytes option" where
  "read_all E call f pos n =
     (let got = take (min n (v_read E call n)) (drop pos f) in if length got \<noteq> n then None else Some got)"

section \<open>The check\<close>

definition marker_at :: "bytes \<Rightarrow> nat \<Rightarrow> bool" where
  "marker_at m i \<longleftrightarrow> m ! i = 0x50 \<and> m ! (i + 1) = 0x4b \<and> m ! (i + 2) = 0x05 \<and> m ! (i + 3) = 0x06"

text \<open>The loop over the record that looks for a second marker.\<close>

function second_marker :: "bytes \<Rightarrow> nat \<Rightarrow> nat \<Rightarrow> bool" where
  "second_marker eocd eocd_size i =
     (if i < eocd_size - 3 then (if marker_at eocd i then True else second_marker eocd eocd_size (i + 1)) else False)"
  by auto
termination by (relation "measure (\<lambda>(_, n, i). n - i)") auto

text \<open>The loop that feeds the signed part of the file to the hash.\<close>

function hash_loop :: "('c, 'k) verenv \<Rightarrow> bytes \<Rightarrow> nat \<Rightarrow> nat \<Rightarrow> nat \<Rightarrow> 'c \<Rightarrow> 'c option" where
  "hash_loop E f signed_len call so_far ctx =
     (if so_far < signed_len then
        (let size = (if signed_len - so_far < BUFFER_SIZE then signed_len - so_far else BUFFER_SIZE) in
         case read_all E call f so_far size of
           None \<Rightarrow> None
         | Some buffer \<Rightarrow> hash_loop E f signed_len (call + 1) (so_far + size) (vSHA_update E ctx buffer))
      else Some ctx)"
  by auto
termination by (relation "measure (\<lambda>(E, f, n, call, i, ctx). n - i)") (auto simp: BUFFER_SIZE_def split: if_splits)

fun key_loop :: "('c, 'k) verenv \<Rightarrow> bytes \<Rightarrow> bytes \<Rightarrow> 'k list \<Rightarrow> int res" where
  "key_loop E eocd sha1 [] = Inr VERIFY_FAILURE"
| "key_loop E eocd sha1 (key # keys) =
     bindR (region eocd (int (length eocd) - 6 - int RSANUMBYTES) (int RSANUMBYTES)) (\<lambda>sig.
       if RSA_verify E key sig sha1 then Inr VERIFY_SUCCESS else key_loop E eocd sha1 keys)"

declare second_marker.simps [simp del] hash_loop.simps [simp del]

text \<open>The second half of the function: the record is in memory.\<close>

definition check_eocd :: "('c, 'k) verenv \<Rightarrow> bytes \<Rightarrow> nat \<Rightarrow> bytes \<Rightarrow> 'k list \<Rightarrow> int res" where
  "check_eocd E f signed_len eocd pKeys =
     (if eocd ! 0 \<noteq> 0x50 \<or> eocd ! 1 \<noteq> 0x4b \<or> eocd ! 2 \<noteq> 0x05 \<or> eocd ! 3 \<noteq> 0x06 then Inr VERIFY_FAILURE
      else if second_marker eocd (length eocd) 4 then Inr VERIFY_FAILURE
      else if \<not> v_malloc E BUFFER_SIZE then Inr VERIFY_FAILURE
      else case hash_loop E f signed_len 2 0 (vSHA_init E) of
             None \<Rightarrow> Inr VERIFY_FAILURE
           | Some ctx \<Rightarrow> key_loop E eocd (vSHA_final E ctx) pKeys)"

definition verify_file :: "('c, 'k) verenv \<Rightarrow> bytes option \<Rightarrow> 'k list \<Rightarrow> int res" where
  "verify_file E path pKeys =
     (case (if v_open E then path else None) of
        None \<Rightarrow> Inr VERIFY_FAILURE
      | Some f \<Rightarrow>
          (case seek_end E 0 f FOOTER_SIZE of
             None \<Rightarrow> Inr VERIFY_FAILURE
           | Some pos \<Rightarrow>
               (case read_all E 0 f pos FOOTER_SIZE of
                  None \<Rightarrow> Inr VERIFY_FAILURE
                | Some footer \<Rightarrow>
                    if footer ! 2 \<noteq> 0xff \<or> footer ! 3 \<noteq> 0xff then Inr VERIFY_FAILURE
                    else
                      let comment_size = unat (footer ! 4) + unat (footer ! 5) * 256;
                          signature_start = unat (footer ! 0) + unat (footer ! 1) * 256 in
                      if int signature_start - int FOOTER_SIZE < int RSANUMBYTES then Inr VERIFY_FAILURE
                      else
                        let eocd_size = comment_size + EOCD_HEADER_SIZE in
                        (case seek_end E 1 f eocd_size of
                           None \<Rightarrow> Inr VERIFY_FAILURE
                         | Some pos \<Rightarrow>
                             let signed_len = pos + EOCD_HEADER_SIZE - 2 in
                             if \<not> v_malloc E eocd_size then Inr VERIFY_FAILURE
                             else case read_all E 1 f pos eocd_size of
                                    None \<Rightarrow> Inr VERIFY_FAILURE
                                  | Some eocd \<Rightarrow> check_eocd E f signed_len eocd pKeys))))"

section \<open>What a valid signature is\<close>

definition last_six :: "bytes \<Rightarrow> bytes" where
  "last_six m = drop (length m - 6) m"

definition comment_size :: "bytes \<Rightarrow> nat" where
  "comment_size m = unat (last_six m ! 4) + unat (last_six m ! 5) * 256"

definition signature_start :: "bytes \<Rightarrow> nat" where
  "signature_start m = unat (last_six m ! 0) + unat (last_six m ! 1) * 256"

definition eocd_pos :: "bytes \<Rightarrow> nat" where
  "eocd_pos m = length m - (comment_size m + 22)"

text \<open>
  The file ends in the footer; at the place the footer gives there is the end record of the archive, and no other after it;
  and some key accepts the 256 bytes before the footer as the signature of all that precedes the length of the comment.
\<close>

definition signed_by :: "('c, 'k) verenv \<Rightarrow> 'k list \<Rightarrow> bytes \<Rightarrow> bool" where
  "signed_by E keys m \<longleftrightarrow> 6 \<le> length m \<and> last_six m ! 2 = 0xff \<and> last_six m ! 3 = 0xff \<and> 262 \<le> signature_start m
     \<and> 240 \<le> comment_size m \<and> comment_size m + 22 \<le> length m \<and> marker_at m (eocd_pos m)
     \<and> (\<forall>i. eocd_pos m < i \<longrightarrow> i + 4 \<le> length m \<longrightarrow> \<not> marker_at m i)
     \<and> (\<exists>k \<in> set keys. RSA_verify E k (take 256 (drop (length m - 262) m))
          (vSHA_final E (vSHA_update E (vSHA_init E) (take (eocd_pos m + 20) m))))"

definition lets_all :: "('c, 'k) verenv \<Rightarrow> bool" where
  "lets_all E \<longleftrightarrow> v_open E \<and> (\<forall>i. v_seek E i) \<and> (\<forall>i n. v_read E i n \<ge> n) \<and> (\<forall>n. v_malloc E n)"

text \<open>The law of a hash that may be fed in pieces.\<close>

definition streaming :: "('c, 'k) verenv \<Rightarrow> bool" where
  "streaming E \<longleftrightarrow> (\<forall>c. vSHA_update E c [] = c)
     \<and> (\<forall>c a b. vSHA_update E (vSHA_update E c a) b = vSHA_update E c (a @ b))"

section \<open>Notions used in the statements\<close>

text \<open>An archive with a comment of 262 bytes, signed for a hash that is the data itself and a key that accepts all signatures.\<close>

definition ver_env :: "(bytes, unit) verenv" where
  "ver_env = \<lparr>v_open = True, v_seek = (\<lambda>_. True), v_read = (\<lambda>_ n. n), v_malloc = (\<lambda>_. True), vSHA_init = [],
     vSHA_update = (@), vSHA_final = id, RSA_verify = (\<lambda>_ sig sha. length sig = 256 \<and> length sha = 20)\<rparr>"

definition signed_file :: bytes where
  "signed_file = [0x50, 0x4b, 5, 6] @ replicate 16 0 @ [6, 1] @ replicate 256 7 @ [6, 1, 0xff, 0xff, 6, 1]"

section \<open>The loops\<close>

lemma read_all_Some: "read_all E c f pos n = Some g \<Longrightarrow> g = take n (drop pos f) \<and> length g = n"
  by (auto simp: read_all_def Let_def min_def split: if_splits)

lemma read_all_lets: "lets_all E \<Longrightarrow> pos + n \<le> length f \<Longrightarrow> read_all E c f pos n = Some (take n (drop pos f))"
  by (simp add: lets_all_def read_all_def Let_def min_absorb1)

lemma second_marker_iff: "second_marker e n i \<longleftrightarrow> (\<exists>j. i \<le> j \<and> j < n - 3 \<and> marker_at e j)"
proof (induction e n i rule: second_marker.induct)
  case (1 e n i)
  have "(\<exists>j. i \<le> j \<and> j < n - 3 \<and> marker_at e j)
      \<longleftrightarrow> i < n - 3 \<and> (marker_at e i \<or> (\<exists>j. i + 1 \<le> j \<and> j < n - 3 \<and> marker_at e j))"
    (is "?l = ?r")
  proof
    assume ?l
    then obtain j where j: "i \<le> j" "j < n - 3" "marker_at e j" by blast
    then have "j = i \<or> i + 1 \<le> j" "i < n - 3" by linarith+
    then show ?r using j by blast
  next
    assume ?r
    then show ?l by (meson add_leD1 le_refl)
  qed
  then show ?case using 1 by (subst second_marker.simps) auto
qed

lemma hash_loop_eq:
  "hash_loop E f n c i ctx = Some r \<Longrightarrow> streaming E \<Longrightarrow> n \<le> length f \<Longrightarrow> r = vSHA_update E ctx (take (n - i) (drop i f))"
proof (induction E f n c i ctx rule: hash_loop.induct)
  case (1 E f n c i ctx)
  show ?case
  proof (cases "i < n")
    case True
    define size where "size = (if n - i < BUFFER_SIZE then n - i else BUFFER_SIZE)"
    obtain b where b: "read_all E c f i size = Some b"
      and r: "hash_loop E f n (c + 1) (i + size) (vSHA_update E ctx b) = Some r"
      using 1(2) True unfolding size_def
      by (subst (asm) hash_loop.simps) (auto simp: Let_def split: option.splits)
    have "r = vSHA_update E (vSHA_update E ctx b) (take (n - (i + size)) (drop (i + size) f))"
      using 1(1)[OF True size_def b r] 1(3,4) by simp
    moreover have "take (n - i) (drop i f) = b @ take (n - (i + size)) (drop (i + size) f)"
    proof -
      have "size \<le> n - i" by (simp add: size_def)
      then have "n - i = size + (n - (i + size))" using True by simp
      then show ?thesis using read_all_Some[OF b] by (metis take_add drop_drop add.commute)
    qed
    ultimately show ?thesis using 1(3) by (simp add: streaming_def)
  next
    case False
    then show ?thesis using 1(2,3) by (subst (asm) hash_loop.simps) (simp add: streaming_def)
  qed
qed

lemma hash_loop_ends: "lets_all E \<Longrightarrow> n \<le> length f \<Longrightarrow> \<exists>r. hash_loop E f n c i ctx = Some r"
proof (induction E f n c i ctx rule: hash_loop.induct)
  case (1 E f n c i ctx)
  define size where "size = (if n - i < BUFFER_SIZE then n - i else BUFFER_SIZE)"
  show ?case
  proof (cases "i < n")
    case True
    then have "i + size \<le> length f" using 1(3) by (auto simp: size_def)
    then have b: "read_all E c f i size = Some (take size (drop i f))" using 1(2) by (rule read_all_lets[rotated])
    then show ?thesis using 1(1)[OF True size_def b 1(2,3)] True
      by (subst hash_loop.simps) (simp add: Let_def size_def[symmetric])
  next
    case False
    then show ?thesis by (subst hash_loop.simps) simp
  qed
qed

lemma key_loop_eq:
  "length eocd \<ge> 262 \<Longrightarrow> key_loop E eocd sha keys =
     Inr (if \<exists>k \<in> set keys. RSA_verify E k (take 256 (drop (length eocd - 262) eocd)) sha then VERIFY_SUCCESS else VERIFY_FAILURE)"
proof (induction keys)
  case (Cons k ks)
  have "region eocd (int (length eocd) - 6 - int RSANUMBYTES) (int RSANUMBYTES) = Inr (take 256 (drop (length eocd - 262) eocd))"
    using Cons.prems by (simp add: region_def RSANUMBYTES_def nat_diff_distrib)
  then show ?case using Cons by simp
qed simp

lemma key_loop_short: "length eocd < 262 \<Longrightarrow> key_loop E eocd sha keys \<noteq> Inr VERIFY_SUCCESS"
  by (cases keys) (auto simp: region_def RSANUMBYTES_def VERIFY_SUCCESS_def VERIFY_FAILURE_def)

section \<open>The whole check\<close>

lemma marker_drop: "i + 4 \<le> length (drop p m) \<Longrightarrow> marker_at (drop p m) i = marker_at m (p + i)"
  by (simp add: marker_at_def add.assoc)

lemma no_other_marker:
  assumes "marker_at m p" "p + 4 \<le> length m"
  shows "second_marker (drop p m) (length (drop p m)) 4 \<longleftrightarrow> \<not> (\<forall>i. p < i \<longrightarrow> i + 4 \<le> length m \<longrightarrow> \<not> marker_at m i)"
proof
  assume "second_marker (drop p m) (length (drop p m)) 4"
  then obtain j where "4 \<le> j" "j < length (drop p m) - 3" "marker_at (drop p m) j" using second_marker_iff by blast
  then show "\<not> (\<forall>i. p < i \<longrightarrow> i + 4 \<le> length m \<longrightarrow> \<not> marker_at m i)"
    using marker_drop[of j p m] by (intro notI) (auto dest!: spec[of _ "p + j"])
next
  assume "\<not> (\<forall>i. p < i \<longrightarrow> i + 4 \<le> length m \<longrightarrow> \<not> marker_at m i)"
  then obtain i where i: "p < i" "i + 4 \<le> length m" "marker_at m i" by blast
  have "i \<noteq> p + 1" "i \<noteq> p + 2" "i \<noteq> p + 3" using assms(1) i(3) by (auto simp: marker_at_def)
  then have "4 \<le> i - p" using i(1) by linarith
  moreover have "marker_at (drop p m) (i - p)" using i marker_drop[of "i - p" p m] by simp
  ultimately show "second_marker (drop p m) (length (drop p m)) 4"
    unfolding second_marker_iff using i by (intro exI[of _ "i - p"]) auto
qed

lemma check_eocd_success:
  assumes "streaming E" "p + 22 \<le> length m" "check_eocd E m (p + 20) (drop p m) keys = Inr VERIFY_SUCCESS"
  shows "marker_at m p \<and> (\<forall>i. p < i \<longrightarrow> i + 4 \<le> length m \<longrightarrow> \<not> marker_at m i) \<and> p + 262 \<le> length m
    \<and> (\<exists>k \<in> set keys. RSA_verify E k (take 256 (drop (length m - 262) m))
          (vSHA_final E (vSHA_update E (vSHA_init E) (take (p + 20) m))))"
proof -
  have ne: "VERIFY_FAILURE \<noteq> VERIFY_SUCCESS" by (simp add: VERIFY_FAILURE_def VERIFY_SUCCESS_def)
  note u = assms(3)[unfolded check_eocd_def]
  have mk: "marker_at (drop p m) 0" using u ne by (auto simp: marker_at_def numeral_eq_Suc split: if_splits)
  then have mp: "marker_at m p" using assms(2) marker_drop[of 0 p m] by simp
  obtain ctx where ctx: "hash_loop E m (p + 20) 2 0 (vSHA_init E) = Some ctx"
    and k: "key_loop E (drop p m) (vSHA_final E ctx) keys = Inr VERIFY_SUCCESS"
    and s: "\<not> second_marker (drop p m) (length (drop p m)) 4"
    using u ne by (auto split: if_splits option.splits)
  have c: "ctx = vSHA_update E (vSHA_init E) (take (p + 20) m)"
    using hash_loop_eq[OF ctx assms(1)] assms(2) by simp
  have len: "262 \<le> length (drop p m)" using k key_loop_short[of "drop p m" E "vSHA_final E ctx" keys] not_less by blast
  then have "length m - p - 262 + p = length m - 262" by simp
  then show ?thesis
    using k key_loop_eq[OF len, of E "vSHA_final E ctx" keys] s no_other_marker[OF mp] assms(2) mp len ne c
    by (auto split: if_splits simp: add.commute)
qed

lemma verify_file_success:
  assumes "streaming E" "verify_file E f keys = Inr VERIFY_SUCCESS"
  shows "\<exists>m. f = Some m \<and> signed_by E keys m"
proof -
  have ne: "VERIFY_FAILURE \<noteq> VERIFY_SUCCESS" by (simp add: VERIFY_FAILURE_def VERIFY_SUCCESS_def)
  obtain m where f: "f = Some m" using assms(2) ne by (auto simp: verify_file_def split: option.splits if_splits)
  note u = assms(2)[unfolded verify_file_def f]
  obtain pos footer where 1: "seek_end E 0 m FOOTER_SIZE = Some pos" "read_all E 0 m pos FOOTER_SIZE = Some footer"
    using u ne by (auto split: option.splits if_splits)
  have pos: "pos = length m - 6" "6 \<le> length m" using 1(1) by (auto simp: seek_end_def FOOTER_SIZE_def split: if_splits)
  have ft: "footer = last_six m" using read_all_Some[OF 1(2)] pos by (simp add: last_six_def FOOTER_SIZE_def)
  note cs = comment_size_def[of m, folded ft] signature_start_def[of m, folded ft]
  have 2: "footer ! 2 = 0xff" "footer ! 3 = 0xff" "262 \<le> signature_start m"
    using u ne 1 by (auto simp: cs Let_def FOOTER_SIZE_def RSANUMBYTES_def split: option.splits if_splits)
  obtain p eocd where 3: "seek_end E 1 m (comment_size m + 22) = Some p" "read_all E 1 m p (comment_size m + 22) = Some eocd"
    "check_eocd E m (p + 22 - 2) eocd keys = Inr VERIFY_SUCCESS"
    using u ne 1 by (auto simp: cs Let_def EOCD_HEADER_SIZE_def split: option.splits if_splits)
  have p: "p = eocd_pos m" "comment_size m + 22 \<le> length m"
    using 3(1) by (auto simp: seek_end_def eocd_pos_def split: if_splits)
  have e: "eocd = drop p m" using read_all_Some[OF 3(2)] p by (simp add: eocd_pos_def)
  have p22: "p + (comment_size m + 22) = length m" using p by (simp add: eocd_pos_def)
  then have c: "marker_at m p \<and> (\<forall>i. p < i \<longrightarrow> i + 4 \<le> length m \<longrightarrow> \<not> marker_at m i) \<and> p + 262 \<le> length m
      \<and> (\<exists>k \<in> set keys. RSA_verify E k (take 256 (drop (length m - 262) m))
            (vSHA_final E (vSHA_update E (vSHA_init E) (take (p + 20) m))))"
    using check_eocd_success[OF assms(1), of p m keys] 3(3) e by (simp add: add.commute[of 20 p])
  then have "240 \<le> comment_size m" using p22 by linarith
  then show ?thesis using c 2 pos p(2) f ft by (simp add: signed_by_def p(1)[symmetric])
qed

lemma verify_file_complete:
  assumes "streaming E" "lets_all E" "length m < 2 ^ 31" "signed_by E keys m"
  shows "verify_file E (Some m) keys = Inr VERIFY_SUCCESS"
proof -
  note s = assms(4)[unfolded signed_by_def]
  define p where "p = eocd_pos m"
  have p: "p + (comment_size m + 22) = length m" using s by (simp add: p_def eocd_pos_def)
  have 1: "seek_end E 0 m FOOTER_SIZE = Some (length m - 6)" "seek_end E 1 m (comment_size m + 22) = Some p"
    using assms(2,3) s p by (auto simp: seek_end_def lets_all_def FOOTER_SIZE_def eocd_pos_def p_def)
  have 2: "read_all E 0 m (length m - 6) FOOTER_SIZE = Some (last_six m)"
    using read_all_lets[OF assms(2), of "length m - 6" 6 m 0] s by (simp add: last_six_def FOOTER_SIZE_def)
  have 3: "read_all E 1 m p (comment_size m + 22) = Some (drop p m)"
    using read_all_lets[OF assms(2), of p "comment_size m + 22" m 1] p by simp
  obtain ctx where h: "hash_loop E m (p + 20) 2 0 (vSHA_init E) = Some ctx" using hash_loop_ends[OF assms(2)] p by fastforce
  then have c: "ctx = vSHA_update E (vSHA_init E) (take (p + 20) m)" using hash_loop_eq[OF h assms(1)] p by simp
  have mk: "marker_at m p" "\<not> second_marker (drop p m) (length (drop p m)) 4"
    using s no_other_marker[of m p] p by (auto simp: p_def)
  have "240 \<le> comment_size m" using s by simp
  then have "262 \<le> length (drop p m)" using p by simp
  moreover have "length m - 262 = length (drop p m) - 262 + p" using p s by simp
  ultimately have k: "key_loop E (drop p m) (vSHA_final E ctx) keys = Inr VERIFY_SUCCESS"
    using key_loop_eq[of "drop p m" E "vSHA_final E ctx" keys] s by (auto simp: c p_def)
  have "check_eocd E m (p + 20) (drop p m) keys = Inr VERIFY_SUCCESS"
    using mk p assms(2) h k marker_drop[of 0 p m] by (simp add: check_eocd_def marker_at_def lets_all_def numeral_eq_Suc)
  moreover have "262 \<le> unat (last_six m ! 0) + unat (last_six m ! 1) * 256" using s by (simp add: signature_start_def)
  ultimately show ?thesis
    using 1 2 3 s assms(2)
    by (simp add: add.commute[of 20 p] verify_file_def Let_def comment_size_def[symmetric] lets_all_def
        EOCD_HEADER_SIZE_def FOOTER_SIZE_def RSANUMBYTES_def)
qed

section \<open>The archive that is read is the archive that was signed\<close>

lemma byte_digit: "a + 256 * x = c + 256 * y \<Longrightarrow> a < 256 \<Longrightarrow> c < 256 \<Longrightarrow> a = c \<and> x = (y :: nat)"
proof -
  assume e: "a + 256 * x = c + 256 * y" and l: "a < 256" "c < 256"
  have "a = (a + 256 * x) mod 256" "c = (c + 256 * y) mod 256" using l by simp_all
  then have "a = c" using e by argo
  then show ?thesis using e by simp
qed

lemma get4LE_marker:
  assumes "i + 4 \<le> length m"
  shows "m ! i = 0x50 \<and> get4LE m i = Inr ENDSIG \<longleftrightarrow> marker_at m i"
proof
  assume "marker_at m i"
  then show "m ! i = 0x50 \<and> get4LE m i = Inr ENDSIG" using assms by (simp add: marker_at_def get4LE_def ENDSIG_def)
next
  assume a: "m ! i = 0x50 \<and> get4LE m i = Inr ENDSIG"
  define b where "b j = unat (m ! (i + j))" for j
  have b: "b j < 256" for j using unsigned_less[of "m ! (i + j)"] by (simp add: b_def)
  have "unat ENDSIG = b 0 + 256 * b 1 + 65536 * b 2 + 16777216 * b 3"
    using a get4LE_unat[of m i ENDSIG] by (simp add: b_def)
  moreover have "b 0 = 0x50" using a by (simp add: b_def)
  ultimately have e: "b 1 + 256 * (b 2 + 256 * b 3) = 0x4b + 256 * (0x05 + 256 * 0x06)" by (simp add: ENDSIG_def)
  have "b 1 = 0x4b \<and> b 2 + 256 * b 3 = 0x05 + 256 * 0x06" using byte_digit[OF e] b[of 1] by simp
  moreover from this have "b 2 = 0x05 \<and> b 3 = 0x06" using byte_digit[of "b 2" "b 3" 5 6] b[of 2] by simp
  ultimately have "b 1 = 0x4b \<and> b 2 = 0x05 \<and> b 3 = 0x06" by simp
  then show "marker_at m i" using a by (simp add: marker_at_def b_def word_unat_eq_iff)
qed

lemma find_eocd_last:
  assumes "marker_at m p" "p \<le> q" "q + 4 \<le> length m" "\<forall>i. p < i \<longrightarrow> i + 4 \<le> length m \<longrightarrow> \<not> marker_at m i"
  shows "find_eocd m q = Some p"
  using assms(2,3)
proof (induction q)
  case 0
  then show ?case using assms(1) get4LE_marker[of 0 m] by (subst find_eocd.simps) simp
next
  case (Suc q)
  show ?case
  proof (cases "p = Suc q")
    case True
    then show ?thesis using assms(1) get4LE_marker[of "Suc q" m] Suc.prems by (subst find_eocd.simps) simp
  next
    case False
    then show ?thesis using Suc assms(4) get4LE_marker[of "Suc q" m] by (subst find_eocd.simps) simp
  qed
qed

text \<open>
  C8: what the check of a signature means. In any environment a file is accepted only if it ends in the footer, the record
  that ends the archive stands where the footer says and is the last one in the file, and some key accepts the bytes before the
  footer as the signature of the digest of everything that precedes the length of the comment; then the record that
  \<open>mzOpenZipArchive\<close> will find and follow is the signed one. A file signed in this way is accepted when the calls succeed.
\<close>

theorem verify_file_correct:
  "streaming E \<Longrightarrow>
     (verify_file E (Some m) keys = Inr VERIFY_SUCCESS \<longrightarrow>
        signed_by E keys m \<and> find_eocd m (length m - ENDHDR) = Some (eocd_pos m) \<and> eocd_pos m + 20 \<le> length m)
     \<and> (lets_all E \<and> length m < 2 ^ 31 \<and> signed_by E keys m \<longrightarrow> verify_file E (Some m) keys = Inr VERIFY_SUCCESS)"
proof -
  assume E: "streaming E"
  have "find_eocd m (length m - ENDHDR) = Some (eocd_pos m) \<and> eocd_pos m + 20 \<le> length m" if "signed_by E keys m"
  proof -
    have "eocd_pos m \<le> length m - 22" "comment_size m + 22 \<le> length m" using that by (auto simp: signed_by_def eocd_pos_def)
    then show ?thesis
      using that find_eocd_last[of m "eocd_pos m" "length m - 22"] by (simp add: signed_by_def ENDHDR_def eocd_pos_def)
  qed
  then show ?thesis using verify_file_success[OF E, of "Some m" keys] verify_file_complete[OF E, of m keys] by blast
qed

theorem verify_file_correct_witness:
  "verify_file ver_env (Some signed_file) [()] = Inr VERIFY_SUCCESS
   \<and> find_eocd signed_file (length signed_file - ENDHDR) = Some 0"
proof -
  have l: "length signed_file = 284" by (simp add: signed_file_def)
  have six: "last_six signed_file = [6, 1, 0xff, 0xff, 6, 1]" by (simp add: last_six_def signed_file_def)
  then have c: "comment_size signed_file = 262" "signature_start signed_file = 262"
    by (simp_all add: comment_size_def signature_start_def)
  then have p: "eocd_pos signed_file = 0" using l by (simp add: eocd_pos_def)
  have "\<not> marker_at signed_file i" if "0 < i" "i + 4 \<le> length signed_file" for i
  proof -
    have "drop 1 signed_file ! (i - 1) \<in> set (drop 1 signed_file)" using that by (intro nth_mem) simp
    then have "signed_file ! i \<in> set (drop 1 signed_file)" using that by simp
    moreover have "0x50 \<notin> set (drop 1 signed_file)" by (auto simp: signed_file_def)
    ultimately show ?thesis by (auto simp: marker_at_def)
  qed
  moreover have "marker_at signed_file 0" by (simp add: marker_at_def signed_file_def)
  ultimately have "signed_by ver_env [()] signed_file"
    using l six c p by (simp add: signed_by_def ver_env_def)
  moreover have "streaming ver_env" "lets_all ver_env" by (simp_all add: streaming_def lets_all_def ver_env_def)
  ultimately show ?thesis using verify_file_correct[of ver_env signed_file "[()]"] l p by simp
qed

text \<open>
  The length of the comment is not compared with the size of a signature, only the independent \<open>signature_start\<close> is:
  with a shorter comment the signature is read from before the buffer.
\<close>

lemma short_comment_out_of_bounds:
  assumes "length eocd < 262" "keys \<noteq> []"
  shows "key_loop E eocd sha keys = Inl OutOfBounds"
  using assms by (cases keys) (auto simp: region_def RSANUMBYTES_def)

end
