(* ===== verification/Ext4_Alloc.thy ===== *)
theory Ext4_Alloc
  imports Backed_Block
begin

text \<open>
  The block and inode allocator of the file system maker, \<open>ext4_utils/allocate.c\<close>, with the layout computations of
  \<open>ext4_utils.c\<close> it depends on. A file system is divided into block groups; each has a bitmap of its blocks, one of its
  inodes, and counters of what is free. An allocation is a list of regions, doubly linked nodes on a heap.
\<close>

unbundle bit_operations_syntax

section \<open>Layout of the file system\<close>

text \<open>The fields of \<open>info\<close> and \<open>aux_info\<close> that the allocator reads.\<close>

record layout =
  bsize :: u32
  blocks_per_group :: u32
  inodes_per_group :: u32
  inode_size :: u32
  sparse_super :: bool
  first_data_block :: u32
  len_blocks :: u64
  inode_table_blocks :: u32
  groups :: u32
  bg_desc_blocks :: u32
  bg_desc_reserve_blocks :: u32

text \<open>\<open>is_power_of\<close> divides until the number is at most the base, which is 3, 5 or 7 in all calls.\<close>

function is_power_of :: "int \<Rightarrow> int \<Rightarrow> bool" where
  "is_power_of a b =
     (if a > b \<and> b > 1 then (if a mod b \<noteq> 0 then False else is_power_of (a div b) b) else a = b)"
  by auto
termination
proof (relation "measure (\<lambda>(a, b). nat a)", goal_cases)
  case (2 a b)
  then have "a div b < a" by (simp add: int_div_less_self)
  then show ?case using 2 by simp
qed simp

definition ext4_bg_has_super_block :: "layout \<Rightarrow> int \<Rightarrow> bool" where
  "ext4_bg_has_super_block P bg =
     (if \<not> sparse_super P then True
      else if bg = 0 \<or> bg = 1 then True
      else is_power_of bg 3 \<or> is_power_of bg 5 \<or> is_power_of bg 7)"

definition DIV_ROUND_UP :: "u32 \<Rightarrow> u32 \<Rightarrow> u32" where
  "DIV_ROUND_UP x y = (x + y - 1) div y"

text \<open>
  \<open>ext4_create_fs_aux_info\<close>: the rest of the layout from the size \<open>len\<close> of the file system, of which only the five first
  fields of \<open>P\<close> are read. A last group too small for its own header is left out.
\<close>

definition compute_layout :: "u64 \<Rightarrow> layout \<Rightarrow> layout res" where
  "compute_layout len P =
     (if bsize P = 0 \<or> blocks_per_group P = 0 then Inl DivByZero
      else
        let first = (if bsize P > 1024 then 0 else 1);
            lenb = len div ucast (bsize P);
            itb = DIV_ROUND_UP (inodes_per_group P * inode_size P) (bsize P);
            grp = ucast ((lenb - ucast first + ucast (blocks_per_group P) - 1) div ucast (blocks_per_group P)) :: u32;
            per_ind = bsize P div 4;
            desc = DIV_ROUND_UP (grp * 32) (bsize P);
            resv = DIV_ROUND_UP (grp * 1024 * 32) (bsize P) - desc;
            resv = (if resv > per_ind then per_ind else resv);
            last = ucast (lenb mod ucast (blocks_per_group P)) :: u32;
            hdr = 2 + itb + (if ext4_bg_has_super_block P (sint (grp - 1)) then 1 + desc + resv else 0);
            small = last > 0 \<and> last < hdr in
        Inr (P\<lparr>first_data_block := first, len_blocks := (if small then lenb - ucast last else lenb), inode_table_blocks := itb,
              groups := (if small then grp - 1 else grp), bg_desc_blocks := desc, bg_desc_reserve_blocks := resv\<rparr>))"

section \<open>Block groups\<close>

text \<open>
  \<open>bitmaps\<close> is the object of two blocks that holds the bitmap of the blocks and, in its second half, that of the
  inodes; the pointer that a failed allocation leaves is an empty object, outside of which every access lies. The
  inode table is only its presence.
\<close>

record block_group_info =
  first_block :: u32
  header_blocks :: int
  data_blocks_used :: int
  has_superblock :: bool
  bitmaps :: bytes
  inode_table :: bool
  free_blocks_n :: u32
  first_free_block :: u32
  free_inodes :: u32
  first_free_inode :: u32
  used_dirs :: u16

text \<open>The block bitmap starts at the first byte of the object.\<close>

definition bitmap_set_bit :: "bytes \<Rightarrow> u32 \<Rightarrow> (int \<times> bytes) res" where
  "bitmap_set_bit bitmap b =
     (let k = unat (b div 8); j = unat (b mod 8) in
      if k \<ge> length bitmap then Inl OutOfBounds
      else if bit (bitmap ! k) j then Inr (1, bitmap)
      else Inr (0, bitmap[k := bitmap ! k OR push_bit j 1]))"

definition bitmap_set_8_bits :: "bytes \<Rightarrow> u32 \<Rightarrow> (int \<times> bytes) res" where
  "bitmap_set_8_bits bitmap b =
     (let k = unat (b div 8) in
      if k \<ge> length bitmap then Inl OutOfBounds else Inr (int (unat (bitmap ! k)), bitmap[k := 0xFF]))"

text \<open>
  The loops of \<open>reserve_blocks\<close>: bit by bit, up to a byte boundary when \<open>align\<close> is set, and byte by byte. \<open>None\<close> is the
  return with an error after a bit that was set already.
\<close>

partial_function (option) reserve_bits ::
  "bool \<Rightarrow> u32 \<Rightarrow> u32 \<Rightarrow> u32 \<Rightarrow> bytes \<Rightarrow> ((u32 \<times> u32) option \<times> bytes) res option" where
  "reserve_bits align num i blk bm =
     (if i < num \<and> (align \<longrightarrow> blk mod 8 \<noteq> 0) then
        (case bitmap_set_bit bm blk of
           Inl e \<Rightarrow> Some (Inl e)
         | Inr p \<Rightarrow> if fst p \<noteq> 0 then Some (Inr (None, snd p)) else reserve_bits align num (i + 1) (blk + 1) (snd p))
      else Some (Inr (Some (i, blk), bm)))"

partial_function (option) reserve_bytes ::
  "u32 \<Rightarrow> u32 \<Rightarrow> u32 \<Rightarrow> bytes \<Rightarrow> ((u32 \<times> u32) option \<times> bytes) res option" where
  "reserve_bytes num i blk bm =
     (if i + 8 \<le> (num AND NOT 7) then
        (case bitmap_set_8_bits bm blk of
           Inl e \<Rightarrow> Some (Inl e)
         | Inr p \<Rightarrow> if fst p \<noteq> 0 then Some (Inr (None, snd p)) else reserve_bytes num (i + 8) (blk + 8) (snd p))
      else Some (Inr (Some (i, blk), bm)))"

definition reserve_blocks :: "block_group_info \<Rightarrow> u32 \<Rightarrow> u32 \<Rightarrow> (int \<times> block_group_info) res" where
  "reserve_blocks bg start num =
     (if num > free_blocks_n bg then Inr (- 1, bg)
      else bindR (bindR (of_loop (reserve_bits True num 0 start (bitmaps bg))) id) (\<lambda>(r, bm).
        case r of
          None \<Rightarrow> Inr (- 1, bg\<lparr>bitmaps := bm\<rparr>)
        | Some (i, blk) \<Rightarrow>
            bindR (bindR (of_loop (reserve_bytes num i blk bm)) id) (\<lambda>(r, bm).
            case r of
              None \<Rightarrow> Inr (- 1, bg\<lparr>bitmaps := bm\<rparr>)
            | Some (i, blk) \<Rightarrow>
                bindR (bindR (of_loop (reserve_bits False num i blk bm)) id) (\<lambda>(r, bm).
                case r of
                  None \<Rightarrow> Inr (- 1, bg\<lparr>bitmaps := bm\<rparr>)
                | Some _ \<Rightarrow> Inr (0, bg\<lparr>bitmaps := bm, free_blocks_n := free_blocks_n bg - num,
                    first_free_block := (if start = first_free_block bg then start + num else first_free_block bg)\<rparr>)))))"

primrec clear_bits :: "nat \<Rightarrow> u32 \<Rightarrow> bytes \<Rightarrow> bytes res" where
  "clear_bits 0 blk bm = Inr bm"
| "clear_bits (Suc n) blk bm =
     (let k = unat (blk div 8) in
      if k \<ge> length bm then Inl OutOfBounds
      else clear_bits n (blk - 1) (bm[k := bm ! k AND NOT (push_bit (unat (blk mod 8)) 1)]))"

definition free_blocks :: "block_group_info \<Rightarrow> u32 \<Rightarrow> block_group_info res" where
  "free_blocks bg num_blocks =
     bindR (clear_bits (unat num_blocks) (first_free_block bg - 1) (bitmaps bg)) (\<lambda>bm.
       Inr (bg\<lparr>bitmaps := bm, free_blocks_n := free_blocks_n bg + num_blocks,
              first_free_block := first_free_block bg - num_blocks\<rparr>))"

section \<open>The state\<close>

text \<open>
  \<open>mem_ok\<close> says which calls of the C allocator succeed; the number of the call is also the address it returns. What is
  queued for writing are the pointers: the bitmaps of a group and its inode table, whose content is read when the image is
  written.
\<close>

record fs_env =
  mem_ok :: "nat \<Rightarrow> bool"

datatype buffer = Bitmaps nat | InodeTable nat

record region =
  rblock :: u32
  rlen :: u32
  rbg :: nat
  rnext :: "nat option"
  rprev :: "nat option"

record fstate =
  bgs :: "block_group_info list"
  regs :: "nat \<rightharpoonup> region"
  calls :: nat
  queued :: "(buffer \<times> u32 \<times> u32) list"

definition palloc :: "fs_env \<Rightarrow> fstate \<Rightarrow> nat option \<times> fstate" where
  "palloc E s = (if mem_ok E (calls s) then Some (calls s) else None, s\<lparr>calls := calls s + 1\<rparr>)"

definition queue_block :: "fs_env \<Rightarrow> buffer \<Rightarrow> u32 \<Rightarrow> u32 \<Rightarrow> fstate \<Rightarrow> int \<times> fstate" where
  "queue_block E buf n blk s =
     (case palloc E s of (p, s) \<Rightarrow>
        if p = None then (ENOMEM, s) else (0, s\<lparr>queued := queued s @ [(buf, n, blk)]\<rparr>))"

definition group :: "fstate \<Rightarrow> nat \<Rightarrow> block_group_info res" where
  "group s i = (if i < length (bgs s) then Inr (bgs s ! i) else Inl OutOfBounds)"

definition put_group :: "nat \<Rightarrow> block_group_info \<Rightarrow> fstate \<Rightarrow> fstate" where
  "put_group i bg s = s\<lparr>bgs := (bgs s)[i := bg]\<rparr>"

definition zero_group :: block_group_info where
  "zero_group = \<lparr>first_block = 0, header_blocks = 0, data_blocks_used = 0, has_superblock = False, bitmaps = [],
     inode_table = False, free_blocks_n = 0, first_free_block = 0, free_inodes = 0, first_free_inode = 0, used_dirs = 0\<rparr>"

text \<open>The blocks before the bitmaps of a group that has a copy of the super block.\<close>

definition super_blocks :: "layout \<Rightarrow> u32" where
  "super_blocks P = 1 + bg_desc_blocks P + bg_desc_reserve_blocks P"

definition allocate_bg_inode_table :: "fs_env \<Rightarrow> layout \<Rightarrow> nat \<Rightarrow> fstate \<Rightarrow> (int \<times> fstate) res" where
  "allocate_bg_inode_table E P i s =
     bindR (group s i) (\<lambda>bg.
       if inode_table bg then Inr (0, s)
       else
         let blk = first_block bg + 2 + (if has_superblock bg then super_blocks P else 0) in
         case palloc E s of (p, s) \<Rightarrow>
           if p = None then Inr (ENOMEM, s)
           else Inr (queue_block E (InodeTable i) (inode_table_blocks P * bsize P) blk
                  (put_group i (bg\<lparr>inode_table := True\<rparr>) s)))"

definition init_bg :: "fs_env \<Rightarrow> layout \<Rightarrow> nat \<Rightarrow> fstate \<Rightarrow> (int \<times> fstate) res" where
  "init_bg E P i s =
     bindR (group s i) (\<lambda>bg.
       let sb = ext4_bg_has_super_block P (int i);
           header = sint (2 + inode_table_blocks P + (if sb then super_blocks P else 0)) in
       case palloc E s of (p, s) \<Rightarrow>
         let first = first_data_block P + of_nat i * blocks_per_group P;
             bg = bg\<lparr>has_superblock := sb, bitmaps := (if p = None then [] else replicate (2 * unat (bsize P)) 0),
                     header_blocks := header, first_block := first\<rparr>;
             blk = first + (if sb then super_blocks P else 0) in
         case queue_block E (Bitmaps i) (2 * bsize P) blk (put_group i bg s) of (result, s) \<Rightarrow>
           if result \<noteq> 0 then Inr (result, s)
           else
             let bg = bg\<lparr>data_blocks_used := 0, free_blocks_n := blocks_per_group P, first_free_block := 0,
                         free_inodes := inodes_per_group P, first_free_inode := 1\<rparr> in
             bindR (reserve_blocks bg 0 (of_int header)) (\<lambda>(_, bg).
             let overrun = ucast (ucast (first + blocks_per_group P) - len_blocks P) :: u32 in
             bindR (if overrun > 0 then reserve_blocks bg (blocks_per_group P - overrun) overrun else Inr (0, bg)) (\<lambda>(_, bg).
             Inr (0, put_group i bg s))))"

fun init_groups :: "fs_env \<Rightarrow> layout \<Rightarrow> nat list \<Rightarrow> fstate \<Rightarrow> (int \<times> fstate) res" where
  "init_groups E P [] s = Inr (0, s)"
| "init_groups E P (i # is) s =
     bindR (init_bg E P i s) (\<lambda>(result, s). if result \<noteq> 0 then Inr (result, s) else init_groups E P is s)"

definition block_allocator_init :: "fs_env \<Rightarrow> layout \<Rightarrow> fstate \<Rightarrow> (int \<times> fstate) res" where
  "block_allocator_init E P s =
     (case palloc E s of (p, s) \<Rightarrow>
        if p = None then Inr (ENOMEM, s)
        else init_groups E P [0..<unat (groups P)] (s\<lparr>bgs := replicate (unat (groups P)) zero_group\<rparr>))"

definition ext4_create_fs_aux_info :: "fs_env \<Rightarrow> u64 \<Rightarrow> layout \<Rightarrow> fstate \<Rightarrow> (int \<times> layout \<times> fstate) res" where
  "ext4_create_fs_aux_info E len P s =
     bindR (compute_layout len P) (\<lambda>P.
       case palloc E s of (sb, s) \<Rightarrow>
         if sb = None then Inr (ENOMEM, P, s)
         else case palloc E s of (desc, s) \<Rightarrow> if desc = None then Inr (ENOMEM, P, s) else Inr (0, P, s))"

section \<open>Blocks from the groups\<close>

definition EXT4_ALLOCATE_FAILED :: u32 where "EXT4_ALLOCATE_FAILED = NOT 0"

definition get_free_blocks :: "fstate \<Rightarrow> nat \<Rightarrow> u32 res" where
  "get_free_blocks s bg = bindR (group s bg) (\<lambda>g. Inr (free_blocks_n g))"

definition ext4_allocate_blocks_from_block_group :: "u32 \<Rightarrow> nat \<Rightarrow> fstate \<Rightarrow> (u32 \<times> fstate) res" where
  "ext4_allocate_blocks_from_block_group len bg_num s =
     bindR (get_free_blocks s bg_num) (\<lambda>free.
       if free < len then Inr (EXT4_ALLOCATE_FAILED, s)
       else bindR (group s bg_num) (\<lambda>bg.
         let blk = first_free_block bg in
         bindR (reserve_blocks bg (first_free_block bg) len) (\<lambda>(r, bg).
           if r < 0 then Inr (EXT4_ALLOCATE_FAILED, put_group bg_num bg s)
           else Inr (first_block bg + blk,
                  put_group bg_num (bg\<lparr>data_blocks_used := s32 (data_blocks_used bg + int (unat len))\<rparr>) s))))"

definition new_region :: "fs_env \<Rightarrow> u32 \<Rightarrow> u32 \<Rightarrow> nat \<Rightarrow> fstate \<Rightarrow> (nat \<times> fstate) res" where
  "new_region E blk len i s =
     (case palloc E s of (p, s) \<Rightarrow>
        case p of
          None \<Rightarrow> Inl NullDeref
        | Some a \<Rightarrow> Inr (a, s\<lparr>regs := (regs s)(a \<mapsto> \<lparr>rblock = blk, rlen = len, rbg = i, rnext = None, rprev = None\<rparr>)\<rparr>))"

fun allocate_contiguous_from :: "fs_env \<Rightarrow> u32 \<Rightarrow> nat list \<Rightarrow> fstate \<Rightarrow> (nat option \<times> fstate) res" where
  "allocate_contiguous_from E len [] s = Inr (None, s)"
| "allocate_contiguous_from E len (i # is) s =
     bindR (ext4_allocate_blocks_from_block_group len i s) (\<lambda>(blk, s).
       if blk \<noteq> EXT4_ALLOCATE_FAILED then bindR (new_region E blk len i s) (\<lambda>(a, s). Inr (Some a, s))
       else allocate_contiguous_from E len is s)"

definition ext4_allocate_contiguous_blocks :: "fs_env \<Rightarrow> layout \<Rightarrow> u32 \<Rightarrow> fstate \<Rightarrow> (nat option \<times> fstate) res" where
  "ext4_allocate_contiguous_blocks E P len s = allocate_contiguous_from E len [0..<unat (groups P)] s"

fun allocate_block_from :: "nat list \<Rightarrow> fstate \<Rightarrow> (u32 \<times> fstate) res" where
  "allocate_block_from [] s = Inr (EXT4_ALLOCATE_FAILED, s)"
| "allocate_block_from (i # is) s =
     bindR (ext4_allocate_blocks_from_block_group 1 i s) (\<lambda>(blk, s).
       if blk \<noteq> EXT4_ALLOCATE_FAILED then Inr (blk, s) else allocate_block_from is s)"

definition allocate_block :: "layout \<Rightarrow> fstate \<Rightarrow> (u32 \<times> fstate) res" where
  "allocate_block P s = allocate_block_from [0..<unat (groups P)] s"

fun allocate_partial_from :: "fs_env \<Rightarrow> layout \<Rightarrow> u32 \<Rightarrow> nat list \<Rightarrow> fstate \<Rightarrow> (nat option \<times> fstate) res" where
  "allocate_partial_from E P len [] s = Inr (None, s)"
| "allocate_partial_from E P len (i # is) s =
     bindR (group s i) (\<lambda>bg.
       if data_blocks_used bg = 0 then
         (let bg_len = free_blocks_n bg in
          if len \<le> bg_len then ext4_allocate_contiguous_blocks E P len s
          else bindR (ext4_allocate_blocks_from_block_group bg_len i s) (\<lambda>(blk, s).
            if blk = EXT4_ALLOCATE_FAILED then Inr (None, s)
            else bindR (new_region E blk bg_len i s) (\<lambda>(a, s). Inr (Some a, s))))
       else allocate_partial_from E P len is s)"

definition ext4_allocate_partial :: "fs_env \<Rightarrow> layout \<Rightarrow> u32 \<Rightarrow> fstate \<Rightarrow> (nat option \<times> fstate) res" where
  "ext4_allocate_partial E P len s = allocate_partial_from E P len [0..<unat (groups P)] s"

text \<open>Reading and writing a node; a node that has been freed is not there.\<close>

definition reg_at :: "fstate \<Rightarrow> nat option \<Rightarrow> region res" where
  "reg_at s p = (case p of None \<Rightarrow> Inl NullDeref
     | Some a \<Rightarrow> (case regs s a of None \<Rightarrow> Inl UseAfterFree | Some r \<Rightarrow> Inr r))"

definition put_reg :: "nat option \<Rightarrow> (region \<Rightarrow> region) \<Rightarrow> fstate \<Rightarrow> fstate res" where
  "put_reg p f s = (case p of None \<Rightarrow> Inl NullDeref
     | Some a \<Rightarrow> (case regs s a of None \<Rightarrow> Inl UseAfterFree | Some r \<Rightarrow> Inr (s\<lparr>regs := (regs s)(a \<mapsto> f r)\<rparr>)))"

partial_function (option) allocate_multiple ::
  "fs_env \<Rightarrow> layout \<Rightarrow> u32 \<Rightarrow> nat option \<Rightarrow> nat option \<Rightarrow> fstate \<Rightarrow> (nat option \<times> fstate) res option" where
  "allocate_multiple E L len first_reg prev_reg s =
     (if len > 0 then
        (case ext4_allocate_partial E L len s of
           Inl e \<Rightarrow> Some (Inl e)
         | Inr q \<Rightarrow>
             (case fst q of
                None \<Rightarrow> Some (Inr (None, snd q))
              | Some reg \<Rightarrow>
                  (case bindR (if prev_reg = None then Inr (snd q)
                      else bindR (put_reg prev_reg (\<lambda>r. r\<lparr>rnext := Some reg\<rparr>) (snd q))
                             (put_reg (Some reg) (\<lambda>r. r\<lparr>rprev := prev_reg\<rparr>)))
                    (\<lambda>s. bindR (reg_at s (Some reg)) (\<lambda>r. Inr (s, r))) of
                     Inl e \<Rightarrow> Some (Inl e)
                   | Inr w \<Rightarrow> allocate_multiple E L (len - rlen (snd w))
                               (if first_reg = None then Some reg else first_reg) (Some reg) (fst w))))
      else Some (Inr (first_reg, s)))"

definition ext4_allocate_multiple_contiguous_blocks :: "fs_env \<Rightarrow> layout \<Rightarrow> u32 \<Rightarrow> fstate \<Rightarrow> (nat option \<times> fstate) res" where
  "ext4_allocate_multiple_contiguous_blocks E P len s = bindR (of_loop (allocate_multiple E P len None None s)) id"

definition do_allocate :: "fs_env \<Rightarrow> layout \<Rightarrow> u32 \<Rightarrow> fstate \<Rightarrow> (nat option \<times> fstate) res" where
  "do_allocate E P len s =
     bindR (ext4_allocate_contiguous_blocks E P len s) (\<lambda>(reg, s).
       if reg = None then ext4_allocate_multiple_contiguous_blocks E P len s else Inr (reg, s))"

section \<open>Inodes\<close>

definition get_free_inodes :: "fstate \<Rightarrow> nat \<Rightarrow> u32 res" where
  "get_free_inodes s bg = bindR (group s bg) (\<lambda>g. Inr (free_inodes g))"

text \<open>The inode bitmap starts at byte \<open>ofs\<close> of the object.\<close>

fun mark_inodes :: "nat \<Rightarrow> u32 \<Rightarrow> nat list \<Rightarrow> bytes \<Rightarrow> bytes res" where
  "mark_inodes ofs first [] bm = Inr bm"
| "mark_inodes ofs first (i # is) bm =
     (let inode = first + of_nat i - 1; k = ofs + unat (inode div 8) in
      if k \<ge> length bm then Inl OutOfBounds
      else mark_inodes ofs first is (bm[k := bm ! k OR push_bit (unat (inode mod 8)) 1]))"

definition reserve_inodes :: "layout \<Rightarrow> nat \<Rightarrow> u32 \<Rightarrow> fstate \<Rightarrow> (u32 \<times> fstate) res" where
  "reserve_inodes P bg num s =
     bindR (get_free_inodes s bg) (\<lambda>free.
       if free < num then Inr (EXT4_ALLOCATE_FAILED, s)
       else bindR (group s bg) (\<lambda>g.
         bindR (mark_inodes (unat (bsize P)) (first_free_inode g) [0..<unat num] (bitmaps g)) (\<lambda>bm.
           Inr (first_free_inode g,
             put_group bg (g\<lparr>bitmaps := bm, first_free_inode := first_free_inode g + num, free_inodes := free_inodes g - num\<rparr>) s))))"

fun allocate_inode_from :: "layout \<Rightarrow> nat list \<Rightarrow> fstate \<Rightarrow> (u32 \<times> fstate) res" where
  "allocate_inode_from P [] s = Inr (EXT4_ALLOCATE_FAILED, s)"
| "allocate_inode_from P (bg # bs) s =
     bindR (reserve_inodes P bg 1 s) (\<lambda>(inode, s).
       if inode \<noteq> EXT4_ALLOCATE_FAILED then Inr (of_nat bg * inodes_per_group P + inode, s) else allocate_inode_from P bs s)"

definition allocate_inode :: "layout \<Rightarrow> fstate \<Rightarrow> (u32 \<times> fstate) res" where
  "allocate_inode P s = allocate_inode_from P [0..<unat (groups P)] s"

text \<open>\<open>get_inode\<close> returns the group and the offset of the inode in its table.\<close>

definition get_inode :: "fs_env \<Rightarrow> layout \<Rightarrow> u32 \<Rightarrow> fstate \<Rightarrow> ((nat \<times> u32) option \<times> fstate) res" where
  "get_inode E P inode s =
     (if inodes_per_group P = 0 then Inl DivByZero
      else
        let inode = inode - 1; bg = unat (inode div inodes_per_group P); inode = inode mod inodes_per_group P in
        bindR (allocate_bg_inode_table E P bg s) (\<lambda>(result, s).
          Inr (if result = 0 then Some (bg, inode * inode_size P) else None, s)))"

definition add_directory :: "layout \<Rightarrow> u32 \<Rightarrow> fstate \<Rightarrow> fstate res" where
  "add_directory P inode s =
     (if inodes_per_group P = 0 then Inl DivByZero
      else
        let bg = unat ((inode - 1) div inodes_per_group P) in
        bindR (group s bg) (\<lambda>g. Inr (put_group bg (g\<lparr>used_dirs := used_dirs g + 1\<rparr>) s)))"

definition get_directories :: "fstate \<Rightarrow> nat \<Rightarrow> u16 res" where
  "get_directories s bg = bindR (group s bg) (\<lambda>g. Inr (used_dirs g))"

section \<open>Allocations\<close>

record region_list =
  lfirst :: "nat option"
  llast :: "nat option"
  liter :: "nat option"
  partial_iter :: u32

record block_allocation =
  alist :: region_list
  oob_list :: region_list

definition empty_regions :: region_list where
  "empty_regions = \<lparr>lfirst = None, llast = None, liter = None, partial_iter = 0\<rparr>"

definition create_allocation :: "fs_env \<Rightarrow> fstate \<Rightarrow> (block_allocation \<times> fstate) res" where
  "create_allocation E s =
     (case palloc E s of (p, s) \<Rightarrow>
        if p = None then Inl NullDeref else Inr (\<lparr>alist = empty_regions, oob_list = empty_regions\<rparr>, s))"

definition allocate_blocks :: "fs_env \<Rightarrow> layout \<Rightarrow> u32 \<Rightarrow> fstate \<Rightarrow> (block_allocation option \<times> fstate) res" where
  "allocate_blocks E P len s =
     bindR (do_allocate E P len s) (\<lambda>(reg, s).
       if reg = None then Inr (None, s)
       else bindR (create_allocation E s) (\<lambda>(alloc, s).
         Inr (Some (alloc\<lparr>alist := \<lparr>lfirst = reg, llast = reg, liter = reg, partial_iter = 0\<rparr>\<rparr>), s)))"

definition region_list_remove :: "nat option \<Rightarrow> region_list \<Rightarrow> fstate \<Rightarrow> (region_list \<times> fstate) res" where
  "region_list_remove reg l s =
     bindR (reg_at s reg) (\<lambda>r.
     bindR (if rprev r = None then Inr s else put_reg (rprev r) (\<lambda>q. q\<lparr>rnext := rnext r\<rparr>) s) (\<lambda>s.
     bindR (if rnext r = None then Inr s else put_reg (rnext r) (\<lambda>q. q\<lparr>rprev := rprev r\<rparr>) s) (\<lambda>s.
     let l = (if lfirst l = reg then l\<lparr>lfirst := rnext r\<rparr> else l);
         l = (if llast l = reg then l\<lparr>llast := rprev r\<rparr> else l) in
     bindR (put_reg reg (\<lambda>q. q\<lparr>rnext := None, rprev := None\<rparr>) s) (\<lambda>s. Inr (l, s)))))"

definition region_list_append :: "nat option \<Rightarrow> region_list \<Rightarrow> fstate \<Rightarrow> (region_list \<times> fstate) res" where
  "region_list_append reg l s =
     bindR (if lfirst l = None
            then bindR (put_reg reg (\<lambda>q. q\<lparr>rprev := None\<rparr>) s) (\<lambda>s.
                   Inr (l\<lparr>lfirst := reg, llast := reg, liter := reg, partial_iter := 0\<rparr>, s))
            else bindR (put_reg (llast l) (\<lambda>q. q\<lparr>rnext := reg\<rparr>) s) (\<lambda>s.
                 bindR (put_reg reg (\<lambda>q. q\<lparr>rprev := llast l\<rparr>) s) (\<lambda>s. Inr (l\<lparr>llast := reg\<rparr>, s)))) (\<lambda>(l, s).
     bindR (put_reg reg (\<lambda>q. q\<lparr>rnext := None\<rparr>) s) (\<lambda>s. Inr (l, s)))"

definition append_region ::
  "fs_env \<Rightarrow> block_allocation \<Rightarrow> u32 \<Rightarrow> u32 \<Rightarrow> nat \<Rightarrow> fstate \<Rightarrow> (block_allocation \<times> fstate) res" where
  "append_region E alloc blk len bg_num s =
     bindR (new_region E blk len bg_num s) (\<lambda>(a, s).
     bindR (region_list_append (Some a) (alist alloc) s) (\<lambda>(l, s). Inr (alloc\<lparr>alist := l\<rparr>, s)))"

partial_function (option) reduce_loop :: "u32 \<Rightarrow> region_list \<Rightarrow> fstate \<Rightarrow> (region_list \<times> fstate) res option" where
  "reduce_loop len l s =
     (if len \<noteq> 0 then
        (case bindR (reg_at s (llast l)) (\<lambda>r. bindR (group s (rbg r)) (\<lambda>g.
            if rlen r > len then
              bindR (free_blocks g len) (\<lambda>g.
              bindR (put_reg (llast l) (\<lambda>q. q\<lparr>rlen := rlen q - len\<rparr>) (put_group (rbg r) g s)) (\<lambda>s. Inr (0, l, s)))
            else
              bindR (free_blocks g (rlen r)) (\<lambda>g.
              let s = put_group (rbg r) g s in
              bindR (if rprev r = None then Inr (empty_regions, s)
                     else bindR (put_reg (rprev r) (\<lambda>q. q\<lparr>rnext := None\<rparr>) s) (\<lambda>s. Inr (l, s))) (\<lambda>(l', s).
              Inr (len - rlen r, l', s\<lparr>regs := (regs s)(the (llast l) := None)\<rparr>))))) of
           Inl e \<Rightarrow> Some (Inl e)
         | Inr q \<Rightarrow> reduce_loop (fst q) (fst (snd q)) (snd (snd q)))
      else Some (Inr (l, s)))"

definition reduce_allocation :: "block_allocation \<Rightarrow> u32 \<Rightarrow> fstate \<Rightarrow> (block_allocation \<times> fstate) res" where
  "reduce_allocation alloc len s =
     bindR (bindR (of_loop (reduce_loop len (alist alloc) s)) id) (\<lambda>(l, s). Inr (alloc\<lparr>alist := l\<rparr>, s))"

text \<open>Walking along a list of regions from a node.\<close>

partial_function (option) fold_regions :: "('a \<Rightarrow> region \<Rightarrow> 'a) \<Rightarrow> fstate \<Rightarrow> nat option \<Rightarrow> 'a \<Rightarrow> 'a res option" where
  "fold_regions f s reg x =
     (if reg = None then Some (Inr x)
      else case reg_at s reg of Inl e \<Rightarrow> Some (Inl e) | Inr r \<Rightarrow> fold_regions f s (rnext r) (f x r))"

definition block_allocation_num_regions :: "block_allocation \<Rightarrow> fstate \<Rightarrow> u32 res" where
  "block_allocation_num_regions alloc s = bindR (of_loop (fold_regions (\<lambda>i r. i + 1) s (lfirst (alist alloc)) 0)) id"

definition block_allocation_len :: "block_allocation \<Rightarrow> fstate \<Rightarrow> u32 res" where
  "block_allocation_len alloc s = bindR (of_loop (fold_regions (\<lambda>i r. i + rlen r) s (lfirst (alist alloc)) 0)) id"

partial_function (option) find_block :: "fstate \<Rightarrow> nat option \<Rightarrow> u32 \<Rightarrow> u32 res option" where
  "find_block s reg blk =
     (if reg = None then Some (Inr EXT4_ALLOCATE_FAILED)
      else case reg_at s reg of
             Inl e \<Rightarrow> Some (Inl e)
           | Inr r \<Rightarrow> if blk < rlen r then Some (Inr (rblock r + blk)) else find_block s (rnext r) (blk - rlen r))"

definition get_block :: "block_allocation \<Rightarrow> u32 \<Rightarrow> fstate \<Rightarrow> u32 res" where
  "get_block alloc blk s = bindR (of_loop (find_block s (liter (alist alloc)) (blk + partial_iter (alist alloc)))) id"

definition get_oob_block :: "block_allocation \<Rightarrow> u32 \<Rightarrow> fstate \<Rightarrow> u32 res" where
  "get_oob_block alloc blk s = bindR (of_loop (find_block s (liter (oob_list alloc)) (blk + partial_iter (oob_list alloc)))) id"

definition get_region :: "block_allocation \<Rightarrow> fstate \<Rightarrow> (u32 \<times> u32) res" where
  "get_region alloc s = bindR (reg_at s (liter (alist alloc))) (\<lambda>r. Inr (rblock r, rlen r - partial_iter (alist alloc)))"

definition get_next_region :: "block_allocation \<Rightarrow> fstate \<Rightarrow> block_allocation res" where
  "get_next_region alloc s =
     bindR (reg_at s (liter (alist alloc))) (\<lambda>r. Inr (alloc\<lparr>alist := (alist alloc)\<lparr>liter := rnext r, partial_iter := 0\<rparr>\<rparr>))"

definition last_region :: "block_allocation \<Rightarrow> bool" where
  "last_region alloc \<longleftrightarrow> liter (alist alloc) = None"

definition rewind_alloc :: "block_allocation \<Rightarrow> block_allocation" where
  "rewind_alloc alloc = alloc\<lparr>alist := (alist alloc)\<lparr>liter := lfirst (alist alloc), partial_iter := 0\<rparr>\<rparr>"

partial_function (option) skip_regions :: "fstate \<Rightarrow> nat option \<Rightarrow> u32 \<Rightarrow> (nat option \<times> u32) res option" where
  "skip_regions s reg len =
     (if reg = None then Some (Inr (reg, len))
      else case reg_at s reg of
             Inl e \<Rightarrow> Some (Inl e)
           | Inr r \<Rightarrow> if len \<ge> rlen r then skip_regions s (rnext r) (len - rlen r) else Some (Inr (reg, len)))"

definition do_split_allocation ::
  "fs_env \<Rightarrow> block_allocation \<Rightarrow> u32 \<Rightarrow> fstate \<Rightarrow> (nat option \<times> block_allocation \<times> fstate) res" where
  "do_split_allocation E alloc len s =
     bindR (bindR (of_loop (skip_regions s (liter (alist alloc)) len)) id) (\<lambda>(reg, len).
       if reg = None \<and> len > 0 then Inr (None, alloc, s)
       else if len > 0 then
         bindR (reg_at s reg) (\<lambda>r.
         bindR (new_region E (rblock r + len) (rlen r - len) (rbg r) s) (\<lambda>(a, s).
         bindR (put_reg (Some a) (\<lambda>q. q\<lparr>rnext := rnext r, rprev := reg\<rparr>) s) (\<lambda>s.
         bindR (put_reg reg (\<lambda>q. q\<lparr>rnext := Some a, rlen := len\<rparr>) s) (\<lambda>s.
         Inr (liter (alist alloc), alloc\<lparr>alist := (alist alloc)\<lparr>liter := Some a\<rparr>\<rparr>, s)))))
       else Inr (reg, alloc, s))"

definition split_allocation ::
  "fs_env \<Rightarrow> block_allocation \<Rightarrow> u32 \<Rightarrow> fstate \<Rightarrow> (nat option \<times> block_allocation \<times> fstate) res" where
  "split_allocation E alloc len s =
     bindR (do_split_allocation E alloc (partial_iter (alist alloc)) s) (\<lambda>(_, alloc, s).
     bindR (do_split_allocation E alloc len s) (\<lambda>(middle, alloc, s).
     Inr (middle, alloc\<lparr>alist := (alist alloc)\<lparr>partial_iter := 0\<rparr>\<rparr>, s)))"

partial_function (option) move_oob :: "nat option \<Rightarrow> block_allocation \<Rightarrow> fstate \<Rightarrow> (block_allocation \<times> fstate) res option" where
  "move_oob oob alloc s =
     (if oob \<noteq> None \<and> oob \<noteq> liter (alist alloc) then
        (case bindR (reg_at s oob) (\<lambda>r.
            bindR (region_list_remove oob (alist alloc) s) (\<lambda>(l, s).
            bindR (region_list_append oob (oob_list alloc) s) (\<lambda>(o', s).
            Inr (rnext r, alloc\<lparr>alist := l, oob_list := o'\<rparr>, s)))) of
           Inl e \<Rightarrow> Some (Inl e)
         | Inr q \<Rightarrow> move_oob (fst q) (fst (snd q)) (snd (snd q)))
      else Some (Inr (alloc, s)))"

definition reserve_oob_blocks :: "fs_env \<Rightarrow> block_allocation \<Rightarrow> u32 \<Rightarrow> fstate \<Rightarrow> (int \<times> block_allocation \<times> fstate) res" where
  "reserve_oob_blocks E alloc blocks s =
     bindR (split_allocation E alloc blocks s) (\<lambda>(oob, alloc, s).
       if oob = None then Inr (- 1, alloc, s)
       else bindR (bindR (of_loop (move_oob oob alloc s)) id) (\<lambda>(alloc, s). Inr (0, alloc, s)))"

text \<open>
  \<open>advance_list_ptr\<close>: the arithmetic is unsigned where \<open>partial_iter\<close> or a length takes part. The node that
  is passed is not recorded in the list.
\<close>

partial_function (option) advance_list_ptr :: "nat option \<Rightarrow> region_list \<Rightarrow> int \<Rightarrow> fstate \<Rightarrow> (int \<times> region_list) res option" where
  "advance_list_ptr reg l blocks s =
     (if reg \<noteq> None \<and> blocks > 0 then
        (case reg_at s reg of
           Inl e \<Rightarrow> Some (Inl e)
         | Inr r \<Rightarrow>
             if rlen r > partial_iter l + of_int blocks then Some (Inr (0, l\<lparr>partial_iter := partial_iter l + of_int blocks\<rparr>))
             else advance_list_ptr (rnext r) (l\<lparr>partial_iter := 0\<rparr>)
                    (sint (of_int blocks - (rlen r - partial_iter l) :: u32)) s)
      else Some (Inr (if blocks > 0 then - 1 else 0, l)))"

definition advance_blocks :: "block_allocation \<Rightarrow> int \<Rightarrow> fstate \<Rightarrow> (int \<times> block_allocation) res" where
  "advance_blocks alloc blocks s =
     bindR (bindR (of_loop (advance_list_ptr (liter (alist alloc)) (alist alloc) blocks s)) id)
       (\<lambda>(r, l). Inr (r, alloc\<lparr>alist := l\<rparr>))"

definition advance_oob_blocks :: "block_allocation \<Rightarrow> int \<Rightarrow> fstate \<Rightarrow> (int \<times> block_allocation) res" where
  "advance_oob_blocks alloc blocks s =
     bindR (bindR (of_loop (advance_list_ptr (liter (oob_list alloc)) (oob_list alloc) blocks s)) id)
       (\<lambda>(r, l). Inr (r, alloc\<lparr>oob_list := l\<rparr>))"

partial_function (option) append_all :: "nat option \<Rightarrow> region_list \<Rightarrow> fstate \<Rightarrow> (region_list \<times> fstate) res option" where
  "append_all reg l s =
     (if reg = None then Some (Inr (l, s))
      else case bindR (region_list_append reg l s) (\<lambda>(l, s). bindR (reg_at s reg) (\<lambda>r. Inr (rnext r, l, s))) of
             Inl e \<Rightarrow> Some (Inl e)
           | Inr q \<Rightarrow> append_all (fst q) (fst (snd q)) (snd (snd q)))"

definition append_oob_allocation ::
  "fs_env \<Rightarrow> layout \<Rightarrow> block_allocation \<Rightarrow> u32 \<Rightarrow> fstate \<Rightarrow> (int \<times> block_allocation \<times> fstate) res" where
  "append_oob_allocation E P alloc len s =
     bindR (do_allocate E P len s) (\<lambda>(reg, s).
       if reg = None then Inr (- 1, alloc, s)
       else bindR (bindR (of_loop (append_all reg (oob_list alloc) s)) id) (\<lambda>(l, s). Inr (0, alloc\<lparr>oob_list := l\<rparr>, s)))"

partial_function (option) free_regions :: "nat option \<Rightarrow> fstate \<Rightarrow> fstate res option" where
  "free_regions reg s =
     (case reg of
        None \<Rightarrow> Some (Inr s)
      | Some a \<Rightarrow>
          (case reg_at s reg of
             Inl e \<Rightarrow> Some (Inl e)
           | Inr r \<Rightarrow> free_regions (rnext r) (s\<lparr>regs := (regs s)(a := None)\<rparr>)))"

definition free_alloc :: "block_allocation \<Rightarrow> fstate \<Rightarrow> fstate res" where
  "free_alloc alloc s =
     bindR (bindR (of_loop (free_regions (lfirst (alist alloc)) s)) id) (\<lambda>s.
     bindR (of_loop (free_regions (lfirst (oob_list alloc)) s)) id)"

definition block_allocator_free :: "fstate \<Rightarrow> fstate" where
  "block_allocator_free s = s\<lparr>bgs := []\<rparr>"

section \<open>Notions used in the statements\<close>

definition bit_at :: "bytes \<Rightarrow> nat \<Rightarrow> bool" where
  "bit_at bm b = bit (bm ! (b div 8)) (b mod 8)"

text \<open>\<open>bm'\<close> is \<open>bm\<close> with the bits of the set \<open>S\<close> set.\<close>

definition marked :: "bytes \<Rightarrow> nat set \<Rightarrow> bytes \<Rightarrow> bool" where
  "marked bm S bm' \<longleftrightarrow> length bm' = length bm \<and> (\<forall>x. bit_at bm' x \<longleftrightarrow> bit_at bm x \<or> x \<in> S)"

text \<open>A loop that marks \<open>k\<close> blocks from \<open>(i, b)\<close> on.\<close>

definition reserves :: "bytes \<Rightarrow> u32 \<Rightarrow> u32 \<Rightarrow> nat \<Rightarrow> ((u32 \<times> u32) option \<times> bytes) res option \<Rightarrow> bool" where
  "reserves bm i b k r \<longleftrightarrow> (\<exists>i' b' bm'. r = Some (Inr (Some (i', b'), bm')) \<and> unat i' = unat i + k \<and> unat b' = unat b + k
     \<and> marked bm {unat b..<unat b + k} bm')"

text \<open>
  What is assumed of a layout: the bitmaps have room for the blocks and inodes of a group, the header of a group
  fits it, and block and inode numbers fit their type, all ones being the mark of a failure.
\<close>

definition header_of :: "layout \<Rightarrow> nat \<Rightarrow> nat" where
  "header_of P i = 2 + unat (inode_table_blocks P)
     + (if ext4_bg_has_super_block P (int i) then 1 + unat (bg_desc_blocks P) + unat (bg_desc_reserve_blocks P) else 0)"

definition fs_layout_ok :: "layout \<Rightarrow> bool" where
  "fs_layout_ok P \<longleftrightarrow> 16 * unat (bsize P) < 2 ^ 31 \<and> unat (blocks_per_group P) \<le> 8 * unat (bsize P)
     \<and> unat (inodes_per_group P) \<le> 8 * unat (bsize P) \<and> 0 < unat (inodes_per_group P)
     \<and> unat (first_data_block P) + unat (groups P) * unat (blocks_per_group P) < 2 ^ 32 - 1
     \<and> unat (groups P) * unat (inodes_per_group P) < 2 ^ 32 - 1
     \<and> (\<forall>i < unat (groups P). header_of P i \<le> unat (blocks_per_group P))"

text \<open>
  Blocks of a group are handed out in order: used are the header and the data before \<open>first_free_block\<close>, and what lies after
  the free ones, beyond the end of the file system; likewise the inodes.
\<close>

definition group_wf :: "layout \<Rightarrow> nat \<Rightarrow> block_group_info \<Rightarrow> bool" where
  "group_wf P i g \<longleftrightarrow> length (bitmaps g) = 2 * unat (bsize P)
     \<and> unat (first_block g) = unat (first_data_block P) + i * unat (blocks_per_group P)
     \<and> header_of P i \<le> unat (first_free_block g)
     \<and> unat (first_free_block g) + unat (free_blocks_n g) \<le> unat (blocks_per_group P)
     \<and> (\<forall>x < unat (blocks_per_group P). bit_at (bitmaps g) x \<longleftrightarrow>
          \<not> (unat (first_free_block g) \<le> x \<and> x < unat (first_free_block g) + unat (free_blocks_n g)))
     \<and> 0 < unat (first_free_inode g)
     \<and> unat (first_free_inode g) - 1 + unat (free_inodes g) = unat (inodes_per_group P)
     \<and> (\<forall>x < unat (inodes_per_group P).
          bit_at (bitmaps g) (8 * unat (bsize P) + x) \<longleftrightarrow> x < unat (first_free_inode g) - 1)"

definition fs_wf :: "layout \<Rightarrow> fstate \<Rightarrow> bool" where
  "fs_wf P s \<longleftrightarrow> length (bgs s) = unat (groups P) \<and> (\<forall>i < length (bgs s). group_wf P i (bgs s ! i))"

text \<open>The blocks that are free, by their numbers in the file system.\<close>

definition group_free :: "block_group_info \<Rightarrow> nat set" where
  "group_free g = (\<lambda>x. unat (first_block g) + x) ` {unat (first_free_block g)..<unat (first_free_block g) + unat (free_blocks_n g)}"

definition free_set :: "fstate \<Rightarrow> nat set" where
  "free_set s = (\<Union>i < length (bgs s). group_free (bgs s ! i))"

text \<open>\<open>n\<close> blocks of the group \<open>i\<close>, from number \<open>b\<close> on, pass from the free ones to the caller.\<close>

definition taken :: "layout \<Rightarrow> fstate \<Rightarrow> nat \<Rightarrow> u32 \<Rightarrow> u32 \<Rightarrow> fstate \<Rightarrow> bool" where
  "taken P s i b n s' \<longleftrightarrow> i < length (bgs s) \<and> unat n \<le> unat (free_blocks_n (bgs s ! i)) \<and> b \<noteq> EXT4_ALLOCATE_FAILED
     \<and> (\<exists>g. s' = put_group i g s \<and> group_wf P i g \<and> free_blocks_n g = free_blocks_n (bgs s ! i) - n
          \<and> data_blocks_used g = s32 (data_blocks_used (bgs s ! i) + int (unat n)))
     \<and> fs_wf P s' \<and> unat b + unat n < 2 ^ 32 \<and> {unat b..<unat b + unat n} \<subseteq> free_set s
     \<and> free_set s' = free_set s - {unat b..<unat b + unat n}"

text \<open>Addresses are handed out in order; a path is the addresses of a list of nodes from a pointer on.\<close>

definition heap_ok :: "fstate \<Rightarrow> bool" where
  "heap_ok s \<longleftrightarrow> (\<forall>a. regs s a \<noteq> None \<longrightarrow> a < calls s)"

fun path :: "(nat \<rightharpoonup> region) \<Rightarrow> nat option \<Rightarrow> nat list \<Rightarrow> bool" where
  "path h p [] \<longleftrightarrow> p = None"
| "path h p (a # as) \<longleftrightarrow> p = Some a \<and> (\<exists>r. h a = Some r \<and> path h (rnext r) as)"

definition region_blocks :: "region \<Rightarrow> nat list" where
  "region_blocks r = [unat (rblock r)..<unat (rblock r) + unat (rlen r)]"

definition path_blocks :: "(nat \<rightharpoonup> region) \<Rightarrow> nat list \<Rightarrow> nat list" where
  "path_blocks h as = concat (map (\<lambda>a. region_blocks (the (h a))) as)"

text \<open>One more region, made of \<open>n\<close> blocks that were free.\<close>

definition gained :: "layout \<Rightarrow> fstate \<Rightarrow> u32 \<Rightarrow> nat \<Rightarrow> fstate \<Rightarrow> bool" where
  "gained P s n a s' \<longleftrightarrow> (\<exists>i b s1. taken P s i b n s1 \<and> a = calls s
     \<and> s' = s1\<lparr>calls := calls s + 1, regs := (regs s)(a \<mapsto> \<lparr>rblock = b, rlen = n, rbg = i, rnext = None, rprev = None\<rparr>)\<rparr>)"

text \<open>Groups from which no data has been allocated, and room in each of them.\<close>

definition unused :: "fstate \<Rightarrow> nat set" where
  "unused s = {i. i < length (bgs s) \<and> data_blocks_used (bgs s ! i) = 0}"

definition has_room :: "fstate \<Rightarrow> bool" where
  "has_room s \<longleftrightarrow> (\<forall>g \<in> set (bgs s). 0 \<le> data_blocks_used g \<and> data_blocks_used g + int (unat (free_blocks_n g)) < 2 ^ 31
     \<and> (data_blocks_used g = 0 \<longrightarrow> 0 < free_blocks_n g))"

definition link :: "nat \<Rightarrow> nat \<Rightarrow> (nat \<rightharpoonup> region) \<Rightarrow> (nat \<rightharpoonup> region)" where
  "link l a h = (h(l \<mapsto> (the (h l))\<lparr>rnext := Some a\<rparr>))(a \<mapsto> (the (h a))\<lparr>rprev := Some l\<rparr>)"

text \<open>
  What the loop over the groups maintains: \<open>as\<close> are the nodes found so far, made of blocks \<open>bs\<close> that
  were free in the state \<open>s0\<close>.
\<close>

definition collected :: "layout \<Rightarrow> fstate \<Rightarrow> nat option \<Rightarrow> nat list \<Rightarrow> fstate \<Rightarrow> bool" where
  "collected P s0 p as s \<longleftrightarrow> fs_wf P s \<and> heap_ok s \<and> path (regs s) p as \<and> distinct as
     \<and> distinct (path_blocks (regs s) as) \<and> set (path_blocks (regs s) as) \<subseteq> free_set s0
     \<and> free_set s = free_set s0 - set (path_blocks (regs s) as)
     \<and> (\<forall>a \<in> set as. unat (rblock (the (regs s a))) + unat (rlen (the (regs s a))) < 2 ^ 32)"

text \<open>What a caller sees of an allocation: the blocks \<open>bs\<close>, in order.\<close>

definition shows_blocks :: "block_allocation \<Rightarrow> fstate \<Rightarrow> nat list \<Rightarrow> bool" where
  "shows_blocks al s bs \<longleftrightarrow> block_allocation_len al s = Inr (of_nat (length bs))
     \<and> (\<forall>k. get_block al k s = Inr (if unat k < length bs then of_nat (bs ! unat k) else EXT4_ALLOCATE_FAILED))"

text \<open>The states of the allocator.\<close>

definition fs_ok :: "layout \<Rightarrow> fstate \<Rightarrow> bool" where
  "fs_ok P s \<longleftrightarrow> fs_wf P s \<and> heap_ok s \<and> has_room s"

text \<open>
  A layout whose groups cover the file system: all but the last end within it, the last one reaches beyond its own
  header.
\<close>

definition group_end :: "layout \<Rightarrow> nat \<Rightarrow> nat" where
  "group_end P i = unat (first_data_block P) + (i + 1) * unat (blocks_per_group P)"

definition init_ok :: "layout \<Rightarrow> bool" where
  "init_ok P \<longleftrightarrow> fs_layout_ok P \<and> unat (len_blocks P) < 2 ^ 32 \<and>
     (\<forall>i < unat (groups P). header_of P i < unat (blocks_per_group P) \<and> header_of P i + group_end P i < unat (len_blocks P) + unat (blocks_per_group P)
        \<and> (Suc i < unat (groups P) \<longrightarrow> group_end P i \<le> unat (len_blocks P)))"

text \<open>A group as \<open>init_bg\<close> leaves it.\<close>

definition fresh_group :: "layout \<Rightarrow> nat \<Rightarrow> block_group_info \<Rightarrow> bool" where
  "fresh_group P i g \<longleftrightarrow> group_wf P i g \<and> data_blocks_used g = 0 \<and> 0 < free_blocks_n g"

text \<open>The calls with which the rest of the program changes the state, on arguments that name a group or an inode that exists.\<close>

inductive fs_step :: "fs_env \<Rightarrow> layout \<Rightarrow> fstate \<Rightarrow> fstate \<Rightarrow> bool" for E P where
  blocks: "allocate_blocks E P n s = Inr (r, s') \<Longrightarrow> fs_step E P s s'"
| one_block: "allocate_block P s = Inr (b, s') \<Longrightarrow> fs_step E P s s'"
| inodes: "i < unat (groups P) \<Longrightarrow> reserve_inodes P i n s = Inr (r, s') \<Longrightarrow> fs_step E P s s'"
| one_inode: "allocate_inode P s = Inr (r, s') \<Longrightarrow> fs_step E P s s'"
| table: "0 < unat n \<Longrightarrow> unat n \<le> unat (groups P) * unat (inodes_per_group P) \<Longrightarrow> get_inode E P n s = Inr (r, s') \<Longrightarrow> fs_step E P s s'"
| directory: "0 < unat n \<Longrightarrow> unat n \<le> unat (groups P) * unat (inodes_per_group P) \<Longrightarrow> add_directory P n s = Inr s' \<Longrightarrow> fs_step E P s s'"
| release: "free_alloc al s = Inr s' \<Longrightarrow> fs_step E P s s'"

text \<open>None of these calls fails in a way that has no defined behaviour; that of \<open>free_alloc\<close> depends on its argument.\<close>

definition calls_defined :: "fs_env \<Rightarrow> layout \<Rightarrow> fstate \<Rightarrow> bool" where
  "calls_defined E P s \<longleftrightarrow> (\<forall>n. \<exists>q. allocate_blocks E P n s = Inr q) \<and> (\<exists>q. allocate_block P s = Inr q)
     \<and> (\<forall>i n. i < unat (groups P) \<longrightarrow> (\<exists>q. reserve_inodes P i n s = Inr q)) \<and> (\<exists>q. allocate_inode P s = Inr q)
     \<and> (\<forall>n. 0 < unat n \<and> unat n \<le> unat (groups P) * unat (inodes_per_group P) \<longrightarrow>
          (\<exists>q. get_inode E P n s = Inr q) \<and> (\<exists>q. add_directory P n s = Inr q))"

text \<open>The state of the process before \<open>block_allocator_init\<close>.\<close>

definition fs_start :: fstate where
  "fs_start = \<lparr>bgs = [], regs = Map.empty, calls = 0, queued = []\<rparr>"

definition plenty :: fs_env where "plenty = \<lparr>mem_ok = \<lambda>_. True\<rparr>"

definition two_groups :: layout where
  "two_groups = \<lparr>bsize = 16, blocks_per_group = 128, inodes_per_group = 16, inode_size = 1, sparse_super = False, first_data_block = 0,
     len_blocks = 200, inode_table_blocks = 1, groups = 2, bg_desc_blocks = 1, bg_desc_reserve_blocks = 1\<rparr>"

definition stuck :: "fs_env \<Rightarrow> layout \<Rightarrow> nat \<Rightarrow> fstate \<Rightarrow> bool" where
  "stuck E P i s \<longleftrightarrow> (\<forall>k. mem_ok E k) \<and> i < unat (groups P) \<and> length (bgs s) = unat (groups P)
     \<and> (\<forall>j < i. data_blocks_used (bgs s ! j) \<noteq> 0) \<and> data_blocks_used (bgs s ! i) = 0 \<and> free_blocks_n (bgs s ! i) = 0
     \<and> first_block (bgs s ! i) + first_free_block (bgs s ! i) \<noteq> EXT4_ALLOCATE_FAILED"

section \<open>Bitmaps\<close>

lemma marked_refl [simp]: "marked bm {} bm"
  by (simp add: marked_def)

lemma marked_trans: "marked bm S bm1 \<Longrightarrow> marked bm1 T bm2 \<Longrightarrow> marked bm (S \<union> T) bm2"
  by (auto simp: marked_def)

lemma unat_div_mod_8: "unat (b div 8 :: u32) = unat b div 8" "unat (b mod 8 :: u32) = unat b mod 8"
  by (simp_all add: unat_div unat_mod)

lemma marked_or:
  assumes "b < 8 * length bm"
  shows "marked bm {b} (bm[b div 8 := bm ! (b div 8) OR push_bit (b mod 8) 1])" (is "marked bm _ ?bm")
proof -
  have k: "b div 8 < length bm" using assms by linarith
  have "bit_at ?bm x \<longleftrightarrow> bit_at bm x \<or> x = b" for x
  proof (cases "x div 8 = b div 8")
    case True
    then have "x mod 8 = b mod 8 \<longleftrightarrow> x = b" by (metis mod_div_mult_eq)
    then show ?thesis using True k by (auto simp: bit_at_def bit_simps)
  next
    case False
    then show ?thesis by (auto simp: bit_at_def nth_list_update)
  qed
  then show ?thesis by (simp add: marked_def)
qed

lemma bitmap_set_bit_ok:
  assumes "unat b < 8 * length bm" "\<not> bit_at bm (unat b)"
  shows "\<exists>bm'. bitmap_set_bit bm b = Inr (0, bm') \<and> marked bm {unat b} bm'"
proof -
  have "unat b div 8 < length bm" using assms(1) by linarith
  then show ?thesis using marked_or[OF assms(1)] assms(2)
    by (simp add: bitmap_set_bit_def Let_def unat_div_mod_8 bit_at_def)
qed

lemma bitmap_set_8_bits_ok:
  assumes "unat b + 8 \<le> 8 * length bm" "unat b mod 8 = 0" "\<forall>x. unat b \<le> x \<and> x < unat b + 8 \<longrightarrow> \<not> bit_at bm x"
  shows "\<exists>bm'. bitmap_set_8_bits bm b = Inr (0, bm') \<and> marked bm {unat b..<unat b + 8} bm'"
proof -
  let ?k = "unat b div 8"
  have b: "unat b = 8 * ?k" using assms(2) by auto
  have k: "?k < length bm" using assms(1) b by linarith
  have "\<not> bit (bm ! ?k) j" for j
  proof (cases "j < 8")
    case True
    have "(unat b + j) div 8 = ?k" "(unat b + j) mod 8 = j" using True b by (simp_all add: mod_add_eq[symmetric] assms(2))
    then show ?thesis using assms(3) True by (metis bit_at_def le_add1 nat_add_left_cancel_less)
  next
    case False
    then show ?thesis using bit_imp_le_length[of "bm ! ?k" j] by auto
  qed
  then have z: "bm ! ?k = 0" by (simp add: bit_eq_iff)
  have "bit_at (bm[?k := 0xFF]) x \<longleftrightarrow> bit_at bm x \<or> unat b \<le> x \<and> x < unat b + 8" for x
  proof (cases "x div 8 = ?k")
    case True
    have "(0xFF :: u8) = - 1" by simp
    then have "bit (0xFF :: u8) (x mod 8)" by (simp only: bit_minus_1_iff) simp
    moreover have "unat b \<le> x \<and> x < unat b + 8" using True b by linarith
    ultimately show ?thesis using True k by (simp add: bit_at_def)
  next
    case False
    then show ?thesis using b by (auto simp: bit_at_def)
  qed
  then show ?thesis using k z by (simp add: bitmap_set_8_bits_def Let_def unat_div_mod_8 marked_def)
qed

lemma reserve_bits_ok:
  assumes "unat i \<le> unat num" "unat b + unat num = e + unat i" "e \<le> 8 * length bm" "8 * length bm < 2 ^ 32"
    and "\<forall>x. unat b \<le> x \<and> x < e \<longrightarrow> \<not> bit_at bm x"
  shows "\<exists>k. reserves bm i b k (reserve_bits align num i b bm) \<and> unat i + k \<le> unat num
    \<and> (unat i + k = unat num \<or> align \<and> (unat b + k) mod 8 = 0)"
  using assms
proof (induction "unat num - unat i" arbitrary: i b bm)
  case 0
  then have "\<not> i < num" by (simp add: word_less_nat_alt)
  then show ?case using 0 by (subst reserve_bits.simps) (auto simp: reserves_def)
next
  case (Suc n)
  then have lt: "i < num" by (simp add: word_less_nat_alt)
  show ?case
  proof (cases "align \<longrightarrow> b mod 8 \<noteq> 0")
    case True
    have "unat b < e" using Suc.prems Suc.hyps(2) by linarith
    then have "unat b < 8 * length bm" "\<not> bit_at bm (unat b)" using Suc.prems(3,5) by auto
    then obtain bm1 where 1: "bitmap_set_bit bm b = Inr (0, bm1)" "marked bm {unat b} bm1"
      using bitmap_set_bit_ok by blast
    have "unat num < 2 ^ 32" using unsigned_less[of num] by simp
    then have i1: "unat (i + 1) = unat i + 1" using lt by (simp add: unat_word_ariths word_less_nat_alt)
    have b1: "unat (b + 1) = unat b + 1" using Suc.prems Suc.hyps(2) by (simp add: unat_word_ariths)
    have "\<exists>k. reserves bm1 (i + 1) (b + 1) k (reserve_bits align num (i + 1) (b + 1) bm1) \<and> unat (i + 1) + k \<le> unat num
        \<and> (unat (i + 1) + k = unat num \<or> align \<and> (unat (b + 1) + k) mod 8 = 0)"
    proof (rule Suc.hyps(1))
      show "n = unat num - unat (i + 1)" "unat (i + 1) \<le> unat num" "unat (b + 1) + unat num = e + unat (i + 1)"
        using Suc.prems Suc.hyps(2) i1 b1 by linarith+
      show "e \<le> 8 * length bm1" "8 * length bm1 < 2 ^ 32" "\<forall>x. unat (b + 1) \<le> x \<and> x < e \<longrightarrow> \<not> bit_at bm1 x"
        using Suc.prems b1 1(2) by (auto simp: marked_def)
    qed
    then obtain k where k: "reserves bm1 (i + 1) (b + 1) k (reserve_bits align num (i + 1) (b + 1) bm1)"
      "unat (i + 1) + k \<le> unat num" "unat (i + 1) + k = unat num \<or> align \<and> (unat (b + 1) + k) mod 8 = 0" by (elim exE conjE)
    have "{unat b} \<union> {unat (b + 1)..<unat (b + 1) + k} = {unat b..<unat b + Suc k}" using b1 by auto
    moreover obtain i' b' bm' where r: "reserve_bits align num (i + 1) (b + 1) bm1 = Some (Inr (Some (i', b'), bm'))"
      "unat i' = unat (i + 1) + k" "unat b' = unat (b + 1) + k" "marked bm1 {unat (b + 1)..<unat (b + 1) + k} bm'"
      using k(1) by (auto simp: reserves_def)
    moreover have "reserve_bits align num i b bm = reserve_bits align num (i + 1) (b + 1) bm1"
      using lt True 1(1) by (subst reserve_bits.simps) simp
    ultimately have "reserves bm i b (Suc k) (reserve_bits align num i b bm)"
      using marked_trans[OF 1(2) r(4)] i1 b1 unfolding reserves_def by simp
    then show ?thesis using k(2,3) i1 b1 by (intro exI[of _ "Suc k"]) auto
  next
    case False
    then have "unat b mod 8 = 0" by (metis unat_0 unat_div_mod_8(2))
    then show ?thesis using False Suc.prems by (subst reserve_bits.simps) (auto simp: reserves_def intro!: exI[of _ 0])
  qed
qed

lemma and_not_7: "unat (num AND NOT 7 :: u32) = unat num - unat num mod 8"
proof -
  have m: "(7 :: u32) = mask 3" by (simp add: mask_eq_exp_minus_1)
  have "num AND NOT 7 = push_bit 3 (drop_bit 3 num)"
    unfolding m by (rule bit_word_eqI) (auto simp: bit_simps)
  then have "unat (num AND NOT 7) = unat (push_bit 3 (drop_bit 3 num))" by simp
  also have "\<dots> = unat num div 8 * 8"
  proof -
    have "unat num < 2 ^ 32" using unsigned_less[of num] by simp
    then have "unat num div 8 * 8 < 2 ^ 32" by linarith
    then show ?thesis by (simp add: push_bit_eq_mult drop_bit_eq_div unat_word_ariths unat_div)
  qed
  finally show ?thesis by (simp add: minus_mod_eq_div_mult)
qed

lemma reserve_bytes_ok:
  assumes "unat i \<le> unat num" "unat b + unat num = e + unat i" "e \<le> 8 * length bm" "8 * length bm < 2 ^ 32" "unat num < 2 ^ 31"
    and "\<forall>x. unat b \<le> x \<and> x < e \<longrightarrow> \<not> bit_at bm x"
    and "unat i = unat num \<or> unat b mod 8 = 0"
  shows "\<exists>k. reserves bm i b k (reserve_bytes num i b bm) \<and> unat i + k \<le> unat num"
  using assms
proof (induction "unat num - unat i" arbitrary: i b bm rule: less_induct)
  case less
  have i8: "unat (i + 8) = unat i + 8" using less.prems by (simp add: unat_word_ariths)
  show ?case
  proof (cases "i + 8 \<le> (num AND NOT 7)")
    case True
    then have le: "unat i + 8 \<le> unat num" using i8 and_not_7[of num] by (simp add: word_le_nat_alt)
    have "unat b + 8 \<le> e" "unat b mod 8 = 0" using less.prems le by linarith+
    then have "unat b + 8 \<le> 8 * length bm" "\<forall>x. unat b \<le> x \<and> x < unat b + 8 \<longrightarrow> \<not> bit_at bm x"
      using less.prems(3,6) by auto
    then obtain bm1 where 1: "bitmap_set_8_bits bm b = Inr (0, bm1)" "marked bm {unat b..<unat b + 8} bm1"
      using bitmap_set_8_bits_ok[of b bm] \<open>unat b mod 8 = 0\<close> by blast
    have b8: "unat (b + 8) = unat b + 8" using less.prems le by (simp add: unat_word_ariths)
    have "\<exists>k. reserves bm1 (i + 8) (b + 8) k (reserve_bytes num (i + 8) (b + 8) bm1) \<and> unat (i + 8) + k \<le> unat num"
    proof (rule less.hyps)
      show "unat num - unat (i + 8) < unat num - unat i" "unat (i + 8) \<le> unat num" "unat (b + 8) + unat num = e + unat (i + 8)"
        using less.prems le i8 b8 by linarith+
      show "e \<le> 8 * length bm1" "8 * length bm1 < 2 ^ 32" "\<forall>x. unat (b + 8) \<le> x \<and> x < e \<longrightarrow> \<not> bit_at bm1 x"
        using less.prems b8 1(2) by (auto simp: marked_def)
      show "unat num < 2 ^ 31" by fact
      show "unat (i + 8) = unat num \<or> unat (b + 8) mod 8 = 0" using less.prems(7) le b8 by simp
    qed
    then obtain k where k: "reserves bm1 (i + 8) (b + 8) k (reserve_bytes num (i + 8) (b + 8) bm1)" "unat (i + 8) + k \<le> unat num"
      by blast
    have "{unat b..<unat b + 8} \<union> {unat (b + 8)..<unat (b + 8) + k} = {unat b..<unat b + (8 + k)}" using b8 by auto
    moreover obtain i' b' bm' where r: "reserve_bytes num (i + 8) (b + 8) bm1 = Some (Inr (Some (i', b'), bm'))"
      "unat i' = unat (i + 8) + k" "unat b' = unat (b + 8) + k" "marked bm1 {unat (b + 8)..<unat (b + 8) + k} bm'"
      using k(1) by (auto simp: reserves_def)
    moreover have "reserve_bytes num i b bm = reserve_bytes num (i + 8) (b + 8) bm1"
      using True 1(1) by (subst reserve_bytes.simps) simp
    ultimately have "reserves bm i b (8 + k) (reserve_bytes num i b bm)"
      using marked_trans[OF 1(2) r(4)] i8 b8 unfolding reserves_def by simp
    then show ?thesis using k(2) i8 by (intro exI[of _ "8 + k"]) auto
  next
    case False
    then show ?thesis using less.prems by (subst reserve_bytes.simps) (auto simp: reserves_def intro!: exI[of _ 0])
  qed
qed

lemma reserve_blocks_ok:
  assumes "num \<le> free_blocks_n bg" "unat start + unat num \<le> 8 * length (bitmaps bg)" "8 * length (bitmaps bg) < 2 ^ 31"
    and "\<forall>x. unat start \<le> x \<and> x < unat start + unat num \<longrightarrow> \<not> bit_at (bitmaps bg) x"
  shows "\<exists>bm. reserve_blocks bg start num = Inr (0, bg\<lparr>bitmaps := bm, free_blocks_n := free_blocks_n bg - num,
        first_free_block := (if start = first_free_block bg then start + num else first_free_block bg)\<rparr>)
    \<and> marked (bitmaps bg) {unat start..<unat start + unat num} bm"
proof -
  let ?bm = "bitmaps bg"
  define e where "e = unat start + unat num"
  have e: "e \<le> 8 * length ?bm" "8 * length ?bm < 2 ^ 32" "\<forall>x. unat start \<le> x \<and> x < e \<longrightarrow> \<not> bit_at ?bm x"
    using assms by (auto simp: e_def)
  obtain k1 i1 b1 bm1 where 1: "reserve_bits True num 0 start ?bm = Some (Inr (Some (i1, b1), bm1))" "unat i1 = k1"
    "unat b1 = unat start + k1" "marked ?bm {unat start..<unat start + k1} bm1" "k1 \<le> unat num"
    "k1 = unat num \<or> unat b1 mod 8 = 0"
    using reserve_bits_ok[of 0 num start e ?bm True] e by (auto simp: reserves_def e_def)
  have len1: "length bm1 = length ?bm" using 1(4) by (simp add: marked_def)
  have c1: "\<forall>x. unat b1 \<le> x \<and> x < e \<longrightarrow> \<not> bit_at bm1 x" using 1 e(3) by (auto simp: marked_def)
  have eq1: "unat b1 + unat num = e + unat i1" "unat i1 \<le> unat num" using 1 by (auto simp: e_def)
  have "unat num < 2 ^ 31" using assms by linarith
  then obtain k2 i2 b2 bm2 where 2: "reserve_bytes num i1 b1 bm1 = Some (Inr (Some (i2, b2), bm2))" "unat i2 = k1 + k2"
    "unat b2 = unat start + k1 + k2" "marked bm1 {unat b1..<unat b1 + k2} bm2" "k1 + k2 \<le> unat num"
    using reserve_bytes_ok[of i1 num b1 e bm1] 1 e len1 c1 eq1 by (auto simp: reserves_def)
  have len2: "length bm2 = length ?bm" using 2(4) len1 by (simp add: marked_def)
  have c2: "\<forall>x. unat b2 \<le> x \<and> x < e \<longrightarrow> \<not> bit_at bm2 x" using 1 2 c1 by (auto simp: marked_def)
  have eq2: "unat b2 + unat num = e + unat i2" "unat i2 \<le> unat num" using 1 2 by (auto simp: e_def)
  then obtain k3 i3 b3 bm3 where 3: "reserve_bits False num i2 b2 bm2 = Some (Inr (Some (i3, b3), bm3))"
    "marked bm2 {unat b2..<unat b2 + k3} bm3" "k1 + k2 + k3 = unat num"
    using reserve_bits_ok[of i2 num b2 e bm2 False] 2 e len2 c2 by (auto simp: reserves_def)
  have "{unat start..<unat start + k1} \<union> {unat b1..<unat b1 + k2} \<union> {unat b2..<unat b2 + k3}
      = {unat start..<unat start + unat num}" using 1(3) 2(3) 3(3) by auto
  then have "marked ?bm {unat start..<unat start + unat num} bm3"
    using marked_trans[OF marked_trans[OF 1(4) 2(4)] 3(2)] by simp
  then show ?thesis using 1(1) 2(1) 3(1) assms(1) by (intro exI[of _ bm3]) (simp add: reserve_blocks_def not_less)
qed

lemma clear_bits_ok:
  assumes "n \<le> unat b + 1" "n > 0 \<Longrightarrow> unat b < 8 * length bm"
  shows "\<exists>bm'. clear_bits n b bm = Inr bm' \<and> length bm' = length bm
    \<and> (\<forall>x. bit_at bm' x \<longleftrightarrow> bit_at bm x \<and> \<not> (x \<le> unat b \<and> unat b < x + n))"
  using assms
proof (induction n arbitrary: b bm)
  case (Suc n)
  let ?k = "unat b div 8"
  let ?bm = "bm[?k := bm ! ?k AND NOT (push_bit (unat b mod 8) 1)]"
  have k: "?k < length bm" using Suc.prems(2) by linarith
  have c: "bit_at ?bm x \<longleftrightarrow> bit_at bm x \<and> x \<noteq> unat b" for x
  proof (cases "x div 8 = ?k")
    case True
    then have "x mod 8 = unat b mod 8 \<longleftrightarrow> x = unat b" by (metis mod_div_mult_eq)
    then show ?thesis using True k by (auto simp: bit_at_def bit_simps dest: bit_imp_le_length)
  next
    case False
    then show ?thesis by (auto simp: bit_at_def nth_list_update)
  qed
  show ?case
  proof (cases n)
    case 0
    have "x \<le> unat b \<and> unat b < x + 1 \<longleftrightarrow> x = unat b" for x by linarith
    then show ?thesis using k c 0 by (simp add: Let_def unat_div_mod_8)
  next
    case (Suc m)
    then have b1: "unat (b - 1) = unat b - 1" "unat b \<noteq> 0"
    proof -
      show "unat b \<noteq> 0" using Suc.prems(1) Suc by linarith
      then show "unat (b - 1) = unat b - 1" by (simp add: unat_sub word_le_nat_alt)
    qed
    then obtain bm' where cl: "clear_bits n (b - 1) ?bm = Inr bm'" "length bm' = length bm"
      "\<forall>x. bit_at bm' x \<longleftrightarrow> bit_at ?bm x \<and> \<not> (x \<le> unat (b - 1) \<and> unat (b - 1) < x + n)"
      using Suc.IH[of "b - 1" ?bm] Suc.prems by fastforce
    have "(x \<le> unat b \<and> unat b < x + Suc n) \<longleftrightarrow> x = unat b \<or> (x \<le> unat (b - 1) \<and> unat (b - 1) < x + n)" for x
      using b1 by linarith
    then show ?thesis using k c cl by (simp add: Let_def unat_div_mod_8)
  qed
qed simp

section \<open>Taking blocks from a group\<close>

lemma group_index [simp]: "i < length (bgs s) \<Longrightarrow> group s i = Inr (bgs s ! i)"
  by (simp add: group_def)

lemma bgs_put_group [simp]: "bgs (put_group i g s) = (bgs s)[i := g]" "regs (put_group i g s) = regs s"
  "calls (put_group i g s) = calls s" "queued (put_group i g s) = queued s"
  by (simp_all add: put_group_def)

lemma unat_FAILED: "unat EXT4_ALLOCATE_FAILED = 2 ^ 32 - 1"
  by (simp add: EXT4_ALLOCATE_FAILED_def unsigned_minus_1_eq_mask mask_eq_exp_minus_1)

lemma group_take:
  assumes P: "fs_layout_ok P" and g: "group_wf P i g" and n: "n \<le> free_blocks_n g"
  defines "b \<equiv> unat (first_free_block g)"
  shows "\<exists>bm. reserve_blocks g (first_free_block g) n = Inr (0, g\<lparr>bitmaps := bm, free_blocks_n := free_blocks_n g - n,
        first_free_block := first_free_block g + n\<rparr>)
    \<and> (\<forall>d. group_wf P i (g\<lparr>bitmaps := bm, free_blocks_n := free_blocks_n g - n,
          first_free_block := first_free_block g + n, data_blocks_used := d\<rparr>))"
proof -
  define B S F where "B = unat (blocks_per_group P)" "S = unat (bsize P)" "F = unat (free_blocks_n g)"
  have n': "unat n \<le> F" using n by (simp add: word_le_nat_alt B_S_F_def)
  have w: "length (bitmaps g) = 2 * S" "header_of P i \<le> b" "b + F \<le> B" "\<forall>x < B. bit_at (bitmaps g) x \<longleftrightarrow> \<not> (b \<le> x \<and> x < b + F)"
    using g by (auto simp: group_wf_def B_S_F_def b_def)
  have l: "16 * S < 2 ^ 31" "B \<le> 8 * S" using P by (auto simp: fs_layout_ok_def B_S_F_def)
  have "\<forall>x. b \<le> x \<and> x < b + unat n \<longrightarrow> \<not> bit_at (bitmaps g) x" using w n' by auto
  moreover have "b + unat n \<le> 8 * length (bitmaps g)" "8 * length (bitmaps g) < 2 ^ 31" using w l n' by simp_all
  ultimately obtain bm where r: "reserve_blocks g (first_free_block g) n = Inr (0, g\<lparr>bitmaps := bm, free_blocks_n := free_blocks_n g - n,
        first_free_block := first_free_block g + n\<rparr>)" and m: "marked (bitmaps g) {b..<b + unat n} bm"
    using reserve_blocks_ok[OF n, of "first_free_block g"] by (auto simp: b_def)
  have u: "unat (free_blocks_n g - n) = F - unat n" "unat (first_free_block g + n) = b + unat n"
    using n w l n' by (simp_all add: unat_sub unat_word_ariths B_S_F_def b_def)
  have "bit_at bm x \<longleftrightarrow> \<not> (b + unat n \<le> x \<and> x < b + F)" if "x < B" for x
    using m w(4) that n' by (auto simp: marked_def)
  moreover have "bit_at bm (8 * S + x) \<longleftrightarrow> bit_at (bitmaps g) (8 * S + x)" for x
    using m w(3) l n' by (auto simp: marked_def)
  moreover have "length bm = 2 * S" using m w(1) by (simp add: marked_def)
  ultimately have "group_wf P i (g\<lparr>bitmaps := bm, free_blocks_n := free_blocks_n g - n,
          first_free_block := first_free_block g + n, data_blocks_used := d\<rparr>)" for d
    using g w n' u by (simp add: group_wf_def B_S_F_def[symmetric])
  then show ?thesis using r by blast
qed

lemma group_free_in:
  assumes "group_wf P i g"
  shows "group_free g \<subseteq> {unat (first_data_block P) + i * unat (blocks_per_group P)
    ..<unat (first_data_block P) + (i + 1) * unat (blocks_per_group P)}"
  using assms by (auto simp: group_free_def group_wf_def)

lemma group_number_unique:
  fixes B :: nat
  assumes "x \<in> {f + i * B..<f + (i + 1) * B}" "x \<in> {f + j * B..<f + (j + 1) * B}"
  shows "i = j"
proof (rule ccontr)
  assume "i \<noteq> j"
  then consider "i + 1 \<le> j" | "j + 1 \<le> i" by linarith
  then show False
  proof cases
    case 1
    then have "(i + 1) * B \<le> j * B" by (rule mult_le_mono1)
    then show False using assms by simp
  next
    case 2
    then have "(j + 1) * B \<le> i * B" by (rule mult_le_mono1)
    then show False using assms by simp
  qed
qed

lemma free_set_put:
  assumes "fs_wf P s" "i < length (bgs s)" "group_wf P i g" "group_free g = group_free (bgs s ! i) - A" "A \<subseteq> group_free (bgs s ! i)"
  shows "free_set (put_group i g s) = free_set s - A"
proof -
  have D: "x \<notin> A" if "j < length (bgs s)" "j \<noteq> i" "x \<in> group_free (bgs s ! j)" for j x
  proof
    assume "x \<in> A"
    then have "x \<in> group_free (bgs s ! i)" using assms(5) by blast
    moreover have w: "group_wf P i (bgs s ! i)" "group_wf P j (bgs s ! j)" using assms(1,2) that by (simp_all add: fs_wf_def)
    ultimately have "i = j"
      using group_free_in[OF w(1)] group_free_in[OF w(2)] that(3)
      by (intro group_number_unique[of x "unat (first_data_block P)" i "unat (blocks_per_group P)" j]) blast+
    then show False using that(2) by simp
  qed
  have "x \<in> free_set (put_group i g s) \<longleftrightarrow> x \<in> free_set s - A" for x
  proof -
    have "x \<in> free_set (put_group i g s) \<longleftrightarrow> x \<in> group_free g \<or> (\<exists>j < length (bgs s). j \<noteq> i \<and> x \<in> group_free (bgs s ! j))"
      using assms(2) unfolding free_set_def by (auto simp: nth_list_update)
    also have "\<dots> \<longleftrightarrow> (\<exists>j < length (bgs s). x \<in> group_free (bgs s ! j)) \<and> x \<notin> A"
      using assms(2,4) D by blast
    finally show ?thesis by (auto simp: free_set_def)
  qed
  then show ?thesis by blast
qed

lemma fs_wf_put: "fs_wf P s \<Longrightarrow> group_wf P i g \<Longrightarrow> fs_wf P (put_group i g s)"
  by (simp add: fs_wf_def) (metis nth_list_update_eq nth_list_update_neq)

lemma from_group_refused:
  "i < length (bgs s) \<Longrightarrow> free_blocks_n (bgs s ! i) < n \<Longrightarrow>
     ext4_allocate_blocks_from_block_group n i s = Inr (EXT4_ALLOCATE_FAILED, s)"
  by (simp add: ext4_allocate_blocks_from_block_group_def get_free_blocks_def)

lemma from_group_taken:
  assumes P: "fs_layout_ok P" and s: "fs_wf P s" and i: "i < length (bgs s)" and n: "n \<le> free_blocks_n (bgs s ! i)"
  shows "\<exists>b s'. ext4_allocate_blocks_from_block_group n i s = Inr (b, s') \<and> taken P s i b n s'"
proof -
  define g where "g = bgs s ! i"
  have g: "group_wf P i g" using s i by (simp add: fs_wf_def g_def)
  obtain bm where r: "reserve_blocks g (first_free_block g) n = Inr (0, g\<lparr>bitmaps := bm, free_blocks_n := free_blocks_n g - n,
        first_free_block := first_free_block g + n\<rparr>)"
    and w: "\<And>d. group_wf P i (g\<lparr>bitmaps := bm, free_blocks_n := free_blocks_n g - n,
          first_free_block := first_free_block g + n, data_blocks_used := d\<rparr>)"
    using group_take[OF P g] n by (auto simp: g_def)
  define g' where "g' = g\<lparr>bitmaps := bm, free_blocks_n := free_blocks_n g - n,
          first_free_block := first_free_block g + n, data_blocks_used := s32 (data_blocks_used g + int (unat n))\<rparr>"
  define b where "b = first_block g + first_free_block g"
  have n': "unat n \<le> unat (free_blocks_n g)" using n by (simp add: word_le_nat_alt g_def)
  have "\<not> free_blocks_n g < n" using n by (simp add: g_def not_less)
  have lg: "i < unat (groups P)" using s i by (simp add: fs_wf_def)
  have "(i + 1) * unat (blocks_per_group P) \<le> unat (groups P) * unat (blocks_per_group P)" using lg by (intro mult_le_mono1) simp
  then have sum: "unat (first_block g) + unat (first_free_block g) + unat (free_blocks_n g) < 2 ^ 32 - 1"
    using g P by (simp add: group_wf_def fs_layout_ok_def)
  then have b: "unat b = unat (first_block g) + unat (first_free_block g)" by (simp add: b_def unat_word_ariths)
  have u: "unat (free_blocks_n g - n) = unat (free_blocks_n g) - unat n"
    "unat (first_free_block g + n) = unat (first_free_block g) + unat n"
    using n n' sum by (simp_all add: unat_sub unat_word_ariths g_def)
  have A: "{unat b..<unat b + unat n} \<subseteq> group_free g"
  proof
    fix x assume "x \<in> {unat b..<unat b + unat n}"
    then have "x = unat (first_block g) + (x - unat (first_block g))" "x - unat (first_block g) \<in>
        {unat (first_free_block g)..<unat (first_free_block g) + unat (free_blocks_n g)}" using b n' by auto
    then show "x \<in> group_free g" unfolding group_free_def by blast
  qed
  have G: "group_free g' = group_free g - {unat b..<unat b + unat n}"
    using n' u b by (force simp: group_free_def g'_def)
  have "b \<noteq> EXT4_ALLOCATE_FAILED"
  proof
    assume "b = EXT4_ALLOCATE_FAILED"
    then have "unat b = 2 ^ 32 - 1" by (simp add: unat_FAILED)
    then show False using b sum by simp
  qed
  moreover have "ext4_allocate_blocks_from_block_group n i s = Inr (b, put_group i g' s)"
    using i r \<open>\<not> free_blocks_n g < n\<close>
    by (simp add: ext4_allocate_blocks_from_block_group_def get_free_blocks_def g_def[symmetric] g'_def b_def Let_def)
  moreover have "group_wf P i g'" using w by (simp add: g'_def)
  ultimately show ?thesis
    using free_set_put[OF s i, of g' "{unat b..<unat b + unat n}"] fs_wf_put[OF s] A G i n' b sum
    by (auto simp: taken_def g_def g'_def free_set_def)
qed

section \<open>Regions\<close>

lemma path_cong: "\<forall>a \<in> set as. h' a = h a \<Longrightarrow> path h' p as = path h p as"
  by (induction as arbitrary: p) auto

lemma path_blocks_cong: "\<forall>a \<in> set as. h' a = h a \<Longrightarrow> path_blocks h' as = path_blocks h as"
  by (auto simp: path_blocks_def intro!: arg_cong[of _ _ concat])

lemma path_mem: "path h p as \<Longrightarrow> a \<in> set as \<Longrightarrow> \<exists>r. h a = Some r"
  by (induction as arbitrary: p) auto

lemma taken_simps:
  assumes "taken P s i b n s'"
  shows "regs s' = regs s" "calls s' = calls s" "fs_wf P s'" "length (bgs s') = length (bgs s)"
  using assms by (auto simp: taken_def)

lemma fs_wf_bgs: "bgs s' = bgs s \<Longrightarrow> fs_wf P s' = fs_wf P s"
  by (simp add: fs_wf_def)

lemma free_set_bgs: "bgs s' = bgs s \<Longrightarrow> free_set s' = free_set s"
  by (simp add: free_set_def)

lemma gained_facts:
  assumes "gained P s n a s'" "heap_ok s"
  shows "fs_wf P s'" "heap_ok s'" "regs s a = None" "\<exists>r. regs s' = (regs s)(a \<mapsto> r) \<and> rlen r = n \<and> rnext r = None
      \<and> unat (rblock r) + unat n < 2 ^ 32 \<and> set (region_blocks r) \<subseteq> free_set s \<and> free_set s' = free_set s - set (region_blocks r)"
proof -
  obtain i b s1 where 1: "taken P s i b n s1" "a = calls s"
    "s' = s1\<lparr>calls := calls s + 1, regs := (regs s)(a \<mapsto> \<lparr>rblock = b, rlen = n, rbg = i, rnext = None, rprev = None\<rparr>)\<rparr>"
    using assms(1) by (auto simp: gained_def)
  show "fs_wf P s'" using taken_simps(3)[OF 1(1)] fs_wf_bgs[of s' s1 P] 1(3) by simp
  show "regs s a = None" using assms(2) 1(2) by (auto simp: heap_ok_def)
  show "heap_ok s'" using assms(2) 1(2,3) by (auto simp: heap_ok_def less_Suc_eq)
  show "\<exists>r. regs s' = (regs s)(a \<mapsto> r) \<and> rlen r = n \<and> rnext r = None
      \<and> unat (rblock r) + unat n < 2 ^ 32 \<and> set (region_blocks r) \<subseteq> free_set s \<and> free_set s' = free_set s - set (region_blocks r)"
    using 1 free_set_bgs[of s' s1]
    by (intro exI[of _ "\<lparr>rblock = b, rlen = n, rbg = i, rnext = None, rprev = None\<rparr>"]) (auto simp: taken_def region_blocks_def)
qed

lemma new_region_ok:
  assumes "\<forall>k. mem_ok E k" "taken P s i b n s1"
  shows "\<exists>s'. new_region E b n i s1 = Inr (calls s, s') \<and> gained P s n (calls s) s'"
  using assms taken_simps(1,2)[OF assms(2)]
  by (auto simp: new_region_def palloc_def gained_def intro!: exI[of _ i] exI[of _ b] exI[of _ s1])

lemma contiguous_from:
  assumes E: "\<forall>k. mem_ok E k" and P: "fs_layout_ok P" and s: "fs_wf P s"
  shows "\<forall>i \<in> set is. i < length (bgs s) \<Longrightarrow>
     (if \<exists>i \<in> set is. n \<le> free_blocks_n (bgs s ! i)
      then \<exists>a s'. allocate_contiguous_from E n is s = Inr (Some a, s') \<and> gained P s n a s'
      else allocate_contiguous_from E n is s = Inr (None, s))"
proof (induction "is")
  case (Cons i "is")
  show ?case
  proof (cases "n \<le> free_blocks_n (bgs s ! i)")
    case True
    obtain b s1 where 1: "ext4_allocate_blocks_from_block_group n i s = Inr (b, s1)" "taken P s i b n s1"
      using from_group_taken[OF P s _ True] Cons.prems by auto
    then show ?thesis using new_region_ok[OF E 1(2)] True by (auto simp: taken_def)
  next
    case False
    then show ?thesis using from_group_refused[of i s n] Cons by (auto simp: not_le)
  qed
qed simp

lemma contiguous:
  assumes "\<forall>k. mem_ok E k" "fs_layout_ok P" "fs_wf P s"
  shows "if \<exists>i < length (bgs s). n \<le> free_blocks_n (bgs s ! i)
      then \<exists>a s'. ext4_allocate_contiguous_blocks E P n s = Inr (Some a, s') \<and> gained P s n a s'
      else ext4_allocate_contiguous_blocks E P n s = Inr (None, s)"
proof -
  have l: "length (bgs s) = unat (groups P)" using assms(3) by (simp add: fs_wf_def)
  then have "(\<exists>i \<in> set [0..<unat (groups P)]. n \<le> free_blocks_n (bgs s ! i))
      \<longleftrightarrow> (\<exists>i < length (bgs s). n \<le> free_blocks_n (bgs s ! i))" by auto
  then show ?thesis
    using contiguous_from[OF assms, of "[0..<unat (groups P)]" n] l by (simp only: ext4_allocate_contiguous_blocks_def) simp
qed

lemma has_room_at:
  assumes "has_room s" "i < length (bgs s)"
  shows "0 \<le> data_blocks_used (bgs s ! i)" "data_blocks_used (bgs s ! i) + int (unat (free_blocks_n (bgs s ! i))) < 2 ^ 31"
    "data_blocks_used (bgs s ! i) = 0 \<Longrightarrow> 0 < free_blocks_n (bgs s ! i)"
  using assms by (auto simp: has_room_def simp del: of_nat_unat)

lemma has_room_put:
  assumes "has_room s" "0 \<le> data_blocks_used g" "data_blocks_used g + int (unat (free_blocks_n g)) < 2 ^ 31"
    "data_blocks_used g = 0 \<longrightarrow> 0 < free_blocks_n g"
  shows "has_room (put_group i g s)"
  using assms set_update_subset_insert[of "bgs s" i g] unfolding has_room_def bgs_put_group by blast

lemma taken_has_room:
  assumes "taken P s i b n s'" "has_room s"
  shows "has_room s'" "0 < unat n \<Longrightarrow> unused s' \<subseteq> unused s - {i}" "unused s' \<subseteq> unused s"
proof -
  obtain g where g: "s' = put_group i g s" "data_blocks_used g = s32 (data_blocks_used (bgs s ! i) + int (unat n))"
    "free_blocks_n g = free_blocks_n (bgs s ! i) - n" "i < length (bgs s)" "unat n \<le> unat (free_blocks_n (bgs s ! i))"
    using assms(1) by (auto simp: taken_def)
  note r = has_room_at[OF assms(2) g(4)]
  have d: "data_blocks_used g = data_blocks_used (bgs s ! i) + int (unat n)"
    using g(2,5) r(1,2) s32_id[of "data_blocks_used (bgs s ! i) + int (unat n)"] by (simp del: of_nat_unat)
  have f: "unat (free_blocks_n g) = unat (free_blocks_n (bgs s ! i)) - unat n"
    using g(3,5) by (simp add: unat_sub word_le_nat_alt)
  have z: "0 < free_blocks_n g" if "data_blocks_used g = 0"
  proof -
    have "unat n = 0" "data_blocks_used (bgs s ! i) = 0" using that d r(1) by linarith+
    then show ?thesis using f r(3) by (simp add: word_less_nat_alt)
  qed
  have "data_blocks_used g + int (unat (free_blocks_n g)) < 2 ^ 31" using d f r(2) g(5) by (simp add: of_nat_diff del: of_nat_unat)
  then show "has_room s'" unfolding g(1) using has_room_put[OF assms(2)] d r(1) z by (simp del: of_nat_unat)
  show "unused s' \<subseteq> unused s - {i}" if "0 < unat n"
  proof -
    have "0 < data_blocks_used g" using d r(1) that by linarith
    then show ?thesis using g(1,4) by (auto simp: unused_def nth_list_update split: if_splits)
  qed
  then show "unused s' \<subseteq> unused s"
  proof (cases "0 < unat n")
    case False
    then have "data_blocks_used g = data_blocks_used (bgs s ! i)" using d by simp
    then show ?thesis using g(1,4) by (auto simp: unused_def nth_list_update split: if_splits)
  qed blast
qed

lemma gained_has_room:
  assumes "gained P s n a s'" "has_room s"
  shows "has_room s'"
proof -
  obtain i b s1 where 1: "taken P s i b n s1"
    "s' = s1\<lparr>calls := calls s + 1, regs := (regs s)(a \<mapsto> \<lparr>rblock = b, rlen = n, rbg = i, rnext = None, rprev = None\<rparr>)\<rparr>"
    using assms(1) by (auto simp: gained_def)
  show ?thesis using taken_has_room(1)[OF 1(1) assms(2)] 1(2) by (simp add: has_room_def)
qed

lemma partial_from:
  assumes E: "\<forall>k. mem_ok E k" and P: "fs_layout_ok P" and s: "fs_wf P s" and m: "has_room s" and n: "0 < unat n"
  shows "\<forall>i \<in> set is. i < length (bgs s) \<Longrightarrow>
     (if set is \<inter> unused s = {} then allocate_partial_from E P n is s = Inr (None, s)
      else \<exists>k a s'. allocate_partial_from E P n is s = Inr (Some a, s') \<and> gained P s k a s' \<and> 0 < unat k \<and> unat k \<le> unat n
        \<and> (k = n \<or> unused s' \<subset> unused s))"
proof (induction "is")
  case (Cons i "is")
  have i: "i < length (bgs s)" using Cons.prems by simp
  show ?case
  proof (cases "i \<in> unused s")
    case True
    then have d: "data_blocks_used (bgs s ! i) = 0" by (simp add: unused_def)
    then have f: "0 < free_blocks_n (bgs s ! i)" by (rule has_room_at(3)[OF m i])
    show ?thesis
    proof (cases "n \<le> free_blocks_n (bgs s ! i)")
      case le: True
      then have "\<exists>i < length (bgs s). n \<le> free_blocks_n (bgs s ! i)" using i by blast
      then show ?thesis using contiguous[OF E P s, of n] True d i le n by auto
    next
      case False
      define k where "k = free_blocks_n (bgs s ! i)"
      obtain b s1 where 1: "ext4_allocate_blocks_from_block_group k i s = Inr (b, s1)" "taken P s i b k s1"
        using from_group_taken[OF P s i, of k] by (auto simp: k_def)
      obtain s' where 2: "new_region E b k i s1 = Inr (calls s, s')" "gained P s k (calls s) s'"
        using new_region_ok[OF E 1(2)] by blast
      have k: "0 < unat k" "unat k \<le> unat n" using f False by (simp_all add: k_def word_less_nat_alt word_le_nat_alt)
      have "unused s1 \<subseteq> unused s - {i}" using taken_has_room(2)[OF 1(2) m] k by simp
      moreover have "unused s' = unused s1"
        using 2(1) by (auto simp: new_region_def palloc_def unused_def split: if_splits)
      ultimately have "unused s' \<subset> unused s" using True by blast
      moreover have "b \<noteq> EXT4_ALLOCATE_FAILED" using 1(2) by (simp add: taken_def)
      ultimately show ?thesis using 1(1) 2 True d i False k by (auto simp: k_def[symmetric] Let_def)
    qed
  next
    case False
    then have "allocate_partial_from E P n (i # is) s = allocate_partial_from E P n is s" "set (i # is) \<inter> unused s = set is \<inter> unused s"
      using i by (auto simp: unused_def)
    then show ?thesis using Cons.IH Cons.prems by (simp only:) simp
  qed
qed simp

lemma partial:
  assumes "\<forall>k. mem_ok E k" "fs_layout_ok P" "fs_wf P s" "has_room s" "0 < unat n"
  shows "(unused s = {} \<and> ext4_allocate_partial E P n s = Inr (None, s))
    \<or> (\<exists>k a s'. ext4_allocate_partial E P n s = Inr (Some a, s') \<and> gained P s k a s' \<and> 0 < unat k \<and> unat k \<le> unat n
        \<and> (k = n \<or> unused s' \<subset> unused s))"
proof -
  have l: "length (bgs s) = unat (groups P)" using assms(3) by (simp add: fs_wf_def)
  then have "set [0..<unat (groups P)] \<inter> unused s = unused s" by (auto simp: unused_def)
  then show ?thesis
    using partial_from[OF assms, of "[0..<unat (groups P)]"] l by (simp add: ext4_allocate_partial_def split: if_splits)
qed

section \<open>Chains of regions\<close>

lemma region_blocks_links [simp]:
  "region_blocks (r\<lparr>rnext := x\<rparr>) = region_blocks r" "region_blocks (r\<lparr>rprev := x\<rparr>) = region_blocks r"
  by (simp_all add: region_blocks_def)

lemma path_snoc:
  assumes "path h p as" "as \<noteq> []" "distinct as" "a \<notin> set as" "h a = Some r" "rnext r = None"
  shows "path (link (last as) a h) p (as @ [a])"
  using assms
proof (induction as arbitrary: p)
  case (Cons b bs)
  then obtain q where q: "p = Some b" "h b = Some q" "path h (rnext q) bs" by auto
  show ?case
  proof (cases "bs = []")
    case True
    then show ?thesis using q Cons.prems by (simp add: link_def)
  next
    case False
    then have "path (link (last bs) a h) (rnext q) (bs @ [a])" using Cons q by auto
    moreover have "link (last bs) a h b = h b" using Cons.prems False by (auto simp: link_def)
    ultimately show ?thesis using q False by simp
  qed
qed simp

lemma path_blocks_link:
  assumes "h l \<noteq> None" "h a \<noteq> None" "l \<noteq> a"
  shows "path_blocks (link l a h) as = path_blocks h as"
proof -
  have "region_blocks (the (link l a h x)) = region_blocks (the (h x))" for x
    using assms by (auto simp: link_def)
  then show ?thesis by (simp add: path_blocks_def)
qed

lemma path_blocks_append [simp]: "path_blocks h (as @ bs) = path_blocks h as @ path_blocks h bs"
  by (simp add: path_blocks_def)

lemma path_blocks_single: "h a = Some r \<Longrightarrow> path_blocks h [a] = region_blocks r"
  by (simp add: path_blocks_def)

lemma distinct_region_blocks [simp]: "distinct (region_blocks r)" "length (region_blocks r) = unat (rlen r)"
  by (simp_all add: region_blocks_def)

lemma collect_first:
  assumes "gained P s0 k a s" "heap_ok s0"
  shows "collected P s0 (Some a) [a] s"
  using gained_facts[OF assms] by (auto simp: collected_def path_blocks_def)

lemma collect_next:
  assumes c: "collected P s0 p as s" "as \<noteq> []" and g: "gained P s k a s1"
  shows "collected P s0 p (as @ [a]) (s1\<lparr>regs := link (last as) a (regs s1)\<rparr>)
    \<and> length (path_blocks (link (last as) a (regs s1)) (as @ [a])) = length (path_blocks (regs s) as) + unat k"
proof -
  have h: "heap_ok s" using c by (simp add: collected_def)
  note f = gained_facts[OF g h]
  obtain r where r: "regs s1 = (regs s)(a \<mapsto> r)" "rlen r = k" "rnext r = None" "unat (rblock r) + unat k < 2 ^ 32"
    "set (region_blocks r) \<subseteq> free_set s" "free_set s1 = free_set s - set (region_blocks r)" using f(4) by blast
  have as: "path (regs s) p as" "distinct as" using c by (auto simp: collected_def)
  have a: "a \<notin> set as" using path_mem[OF as(1), of a] f(3) by auto
  then have l: "last as \<noteq> a" "regs s1 (last as) \<noteq> None"
    using path_mem[OF as(1), of "last as"] c(2) r(1) last_in_set[OF c(2)] by auto
  have eq: "\<forall>x \<in> set as. regs s1 x = regs s x" using a r(1) by auto
  have b: "path_blocks (link (last as) a (regs s1)) (as @ [a]) = path_blocks (regs s) as @ region_blocks r"
  proof -
    have "regs s1 a = Some r" using r(1) by simp
    then show ?thesis
      using path_blocks_link[of "regs s1" "last as" a "as @ [a]"] l path_blocks_cong[OF eq] by (simp add: path_blocks_single)
  qed
  have p: "path (link (last as) a (regs s1)) p (as @ [a])"
  proof (rule path_snoc[where r = r])
    show "path (regs s1) p as" using path_cong[OF eq, of p] as by blast
    show "regs s1 a = Some r" using r(1) by simp
  qed (use c(2) as a r in auto)
  have w: "fs_wf P (s1\<lparr>regs := link (last as) a (regs s1)\<rparr>)" "free_set (s1\<lparr>regs := link (last as) a (regs s1)\<rparr>) = free_set s1"
    using f(1) by (simp_all add: fs_wf_def free_set_def)
  have hp: "heap_ok (s1\<lparr>regs := link (last as) a (regs s1)\<rparr>)"
    using f(2) l r(1) by (auto simp: heap_ok_def link_def)
  have lim: "\<forall>x \<in> set (as @ [a]). unat (rblock (the (link (last as) a (regs s1) x))) + unat (rlen (the (link (last as) a (regs s1) x))) < 2 ^ 32"
    using c(1) r l(1) eq by (auto simp: collected_def link_def)
  show ?thesis
    using c w p hp b r as a lim by (auto simp: collected_def)
qed

section \<open>An allocation\<close>

lemma reg_at_Some [simp]: "regs s a = Some r \<Longrightarrow> reg_at s (Some a) = Inr r"
  by (simp add: reg_at_def)

lemma put_reg_Some [simp]: "regs s a = Some r \<Longrightarrow> put_reg (Some a) f s = Inr (s\<lparr>regs := (regs s)(a \<mapsto> f r)\<rparr>)"
  by (simp add: put_reg_def)

lemma link_step:
  assumes "regs s l \<noteq> None" "regs s a \<noteq> None" "l \<noteq> a"
  shows "bindR (put_reg (Some l) (\<lambda>r. r\<lparr>rnext := Some a\<rparr>) s) (put_reg (Some a) (\<lambda>r. r\<lparr>rprev := Some l\<rparr>))
    = Inr (s\<lparr>regs := link l a (regs s)\<rparr>)"
  using assms by (auto simp: link_def put_reg_def)

lemma unused_finite: "finite (unused s)"
  by (rule finite_subset[of _ "{..<length (bgs s)}"]) (auto simp: unused_def)

text \<open>The loop ends, because each round but the last takes all there is of a group that was unused.\<close>

lemma multiple_spec:
  assumes E: "\<forall>k. mem_ok E k" and P: "fs_layout_ok P"
  shows "collected P s0 p as s \<Longrightarrow> has_room s \<Longrightarrow> as \<noteq> [] \<Longrightarrow> \<exists>r s' as'.
      allocate_multiple E P n p (Some (last as)) s = Some (Inr (r, s'))
      \<and> (if r = None then fs_wf P s' \<and> heap_ok s' \<and> has_room s' \<and> free_set s' \<subseteq> free_set s0
         else r = p \<and> has_room s' \<and> collected P s0 p as' s' \<and> length (path_blocks (regs s') as') = length (path_blocks (regs s) as) + unat n)"
proof (induction "card (unused s)" arbitrary: n as s rule: less_induct)
  case less
  have w: "fs_wf P s" "heap_ok s" "path (regs s) p as" using less.prems(1) by (auto simp: collected_def)
  show ?case
  proof (cases "n = 0")
    case True
    have "p \<noteq> None" using w(3) less.prems(3) by (cases as) auto
    then show ?thesis using True less.prems(1,2) by (subst allocate_multiple.simps) auto
  next
    case False
    then have n: "0 < unat n" by (simp add: unat_gt_0)
    then have pos: "n > 0" by (simp add: word_less_nat_alt)
    from partial[OF E P w(1) less.prems(2) n]
    consider (none) "ext4_allocate_partial E P n s = Inr (None, s)"
      | (some) k a s1 where "ext4_allocate_partial E P n s = Inr (Some a, s1)" "gained P s k a s1" "0 < unat k" "unat k \<le> unat n"
          "k = n \<or> unused s1 \<subset> unused s" by blast
    then show ?thesis
    proof cases
      case none
      then show ?thesis using pos w less.prems(1,2) by (subst allocate_multiple.simps) (auto simp: collected_def)
    next
      case some
      note 1 = some(1) and g = some(2) and k = some(3,4) and d = some(5)
      define s2 where "s2 = s1\<lparr>regs := link (last as) a (regs s1)\<rparr>"
      obtain r where r: "regs s1 = (regs s)(a \<mapsto> r)" "rlen r = k" "regs s a = None"
        using gained_facts(3,4)[OF g w(2)] by blast
      have "regs s (last as) \<noteq> None" using path_mem[OF w(3), of "last as"] less.prems(3) by auto
      then have l: "regs s1 (last as) \<noteq> None" "regs s1 a \<noteq> None" "last as \<noteq> a" using r by auto
      have c: "collected P s0 p (as @ [a]) s2"
        "length (path_blocks (regs s2) (as @ [a])) = length (path_blocks (regs s) as) + unat k"
        using collect_next[OF less.prems(1,3) g] by (auto simp: s2_def)
      have rm: "has_room s1" by (rule gained_has_room[OF g less.prems(2)])
      have u: "unat (n - k) = unat n - unat k" using k(2) by (simp add: unat_sub word_le_nat_alt)
      have rm2: "has_room s2" and un2: "unused s2 = unused s1"
        using rm by (simp_all add: s2_def has_room_def unused_def)
      have "link (last as) a (regs s1) a = Some (r\<lparr>rprev := Some (last as)\<rparr>)" using r l by (simp add: link_def)
      then have at: "reg_at s2 (Some a) = Inr (r\<lparr>rprev := Some (last as)\<rparr>)" by (simp add: s2_def)
      have p: "p \<noteq> None" using w(3) less.prems(3) by (cases as) auto
      have step: "allocate_multiple E P n p (Some (last as)) s = allocate_multiple E P (n - k) p (Some a) s2"
        by (subst allocate_multiple.simps) (simp add: pos 1 p link_step[OF l, folded s2_def] at r(2))
      show ?thesis
      proof (cases "k = n")
        case True
        then have "allocate_multiple E P n p (Some (last as)) s = Some (Inr (p, s2))"
          unfolding step by (subst allocate_multiple.simps) simp
        then show ?thesis using p c rm2 True by auto
      next
        case False
        then have "card (unused s2) < card (unused s)" using d un2 unused_finite[of s] by (simp add: psubset_card_mono)
        note h = less.hyps[OF this c(1) rm2, of "n - k"]
        have "length (path_blocks (regs s2) (as @ [a])) + unat (n - k) = length (path_blocks (regs s) as) + unat n"
          using c(2) u k(2) by simp
        then show ?thesis unfolding step using h by (simp only: last_snoc snoc_eq_iff_butlast) simp
      qed
    qed
  qed
qed

lemma multiple_first:
  assumes E: "\<forall>k. mem_ok E k" and P: "fs_layout_ok P" and s: "fs_wf P s" "heap_ok s" "has_room s" "0 < unat n"
  shows "\<exists>r s' as. allocate_multiple E P n None None s = Some (Inr (r, s'))
      \<and> (if r = None then fs_wf P s' \<and> heap_ok s' \<and> has_room s' \<and> free_set s' \<subseteq> free_set s
         else has_room s' \<and> collected P s r as s' \<and> length (path_blocks (regs s') as) = unat n)"
proof -
  have pos: "n > 0" using s(4) by (simp add: word_less_nat_alt)
  from partial[OF E P s(1,3,4)]
  consider (none) "ext4_allocate_partial E P n s = Inr (None, s)"
    | (some) k a s1 where "ext4_allocate_partial E P n s = Inr (Some a, s1)" "gained P s k a s1" "0 < unat k" "unat k \<le> unat n"
    by blast
  then show ?thesis
  proof cases
    case none
    then show ?thesis using pos s by (subst allocate_multiple.simps) auto
  next
    case some
    note 1 = some(1) and g = some(2) and k = some(3,4)
    obtain r where r: "regs s1 = (regs s)(a \<mapsto> r)" "rlen r = k"
      using gained_facts(4)[OF g s(2)] by blast
    have step: "allocate_multiple E P n None None s = allocate_multiple E P (n - k) (Some a) (Some (last [a])) s1"
      using pos 1 r by (subst allocate_multiple.simps) simp
    have u: "unat (n - k) = unat n - unat k" using k(2) by (simp add: unat_sub word_le_nat_alt)
    have "collected P s (Some a) [a] s1" by (rule collect_first[OF g s(2)])
    moreover have "has_room s1" by (rule gained_has_room[OF g s(3)])
    ultimately show ?thesis
      using multiple_spec[OF E P, of s "Some a" "[a]" s1 "n - k"] r u k unfolding step
      by (fastforce simp: path_blocks_def split: if_splits)
  qed
qed

lemma do_allocate_spec:
  assumes E: "\<forall>k. mem_ok E k" and P: "fs_layout_ok P" and s: "fs_wf P s" "heap_ok s" "has_room s"
  shows "\<exists>r s' as. do_allocate E P n s = Inr (r, s')
      \<and> (if r = None then fs_wf P s' \<and> heap_ok s' \<and> has_room s' \<and> free_set s' \<subseteq> free_set s \<and> (\<forall>i < length (bgs s). free_blocks_n (bgs s ! i) < n)
         else has_room s' \<and> collected P s r as s' \<and> length (path_blocks (regs s') as) = unat n)"
proof (cases "\<exists>i < length (bgs s). n \<le> free_blocks_n (bgs s ! i)")
  case True
  then obtain a s' where a: "ext4_allocate_contiguous_blocks E P n s = Inr (Some a, s')" "gained P s n a s'"
    using contiguous[OF E P s(1), of n] by auto
  obtain r where "regs s' = (regs s)(a \<mapsto> r)" "rlen r = n" using gained_facts(4)[OF a(2) s(2)] by blast
  then show ?thesis
    using a(1) collect_first[OF a(2) s(2)]
    by (intro exI[of _ "Some a"] exI[of _ s'] exI[of _ "[a]"]) (simp add: do_allocate_def path_blocks_def gained_has_room[OF a(2) s(3)])
next
  case False
  show ?thesis
  proof (cases "n = 0")
    case True
    then have "allocate_multiple E P n None None s = Some (Inr (None, s))" by (subst allocate_multiple.simps) simp
    then show ?thesis
      using False contiguous[OF E P s(1), of n] s
      by (auto simp: do_allocate_def ext4_allocate_multiple_contiguous_blocks_def not_le)
  next
    case n: False
    then have "0 < unat n" by (simp add: unat_gt_0)
    from multiple_first[OF E P s this] obtain r s' as where m: "allocate_multiple E P n None None s = Some (Inr (r, s'))"
      "if r = None then fs_wf P s' \<and> heap_ok s' \<and> has_room s' \<and> free_set s' \<subseteq> free_set s
         else has_room s' \<and> collected P s r as s' \<and> length (path_blocks (regs s') as) = unat n" by blast
    have "ext4_allocate_contiguous_blocks E P n s = Inr (None, s)" using False contiguous[OF E P s(1), of n] by (simp only: if_False)
    then have "do_allocate E P n s = Inr (r, s')"
      by (simp add: do_allocate_def ext4_allocate_multiple_contiguous_blocks_def m(1))
    moreover have "\<forall>i < length (bgs s). free_blocks_n (bgs s ! i) < n" using False by (auto simp: not_le)
    ultimately show ?thesis using m(2) by (intro exI[of _ r] exI[of _ s'] exI[of _ as]) (simp split: if_splits)
  qed
qed

section \<open>Reading an allocation\<close>

lemma find_block_path:
  assumes "path (regs s) p as" "\<forall>a \<in> set as. unat (rblock (the (regs s a))) + unat (rlen (the (regs s a))) < 2 ^ 32"
  shows "find_block s p n = Some (Inr (if unat n < length (path_blocks (regs s) as)
     then of_nat (path_blocks (regs s) as ! unat n) else EXT4_ALLOCATE_FAILED))"
  using assms
proof (induction as arbitrary: p n)
  case Nil
  then show ?case by (subst find_block.simps) (simp add: path_blocks_def)
next
  case (Cons a as)
  then obtain r where r: "p = Some a" "regs s a = Some r" "path (regs s) (rnext r) as" by auto
  have b: "path_blocks (regs s) (a # as) = region_blocks r @ path_blocks (regs s) as" using r by (simp add: path_blocks_def)
  show ?case
  proof (cases "n < rlen r")
    case True
    then have "unat n < unat (rlen r)" by (simp add: word_less_nat_alt)
    then show ?thesis unfolding b using True r by (subst find_block.simps) (simp add: nth_append region_blocks_def)
  next
    case False
    then have "unat (n - rlen r) = unat n - unat (rlen r)" "\<not> unat n < unat (rlen r)"
      by (simp_all add: unat_sub word_less_nat_alt word_le_nat_alt)
    then show ?thesis unfolding b using False r Cons by (subst find_block.simps) (auto simp: nth_append)
  qed
qed

lemma fold_regions_path:
  "path (regs s) p as \<Longrightarrow> fold_regions f s p x = Some (Inr (foldl f x (map (\<lambda>a. the (regs s a)) as)))"
proof (induction as arbitrary: p x)
  case Nil
  then show ?case by (subst fold_regions.simps) simp
next
  case (Cons a as)
  then obtain r where r: "p = Some a" "regs s a = Some r" "path (regs s) (rnext r) as" by auto
  then show ?case using Cons.IH[OF r(3)] by (subst fold_regions.simps) simp
qed

lemma length_fold: "foldl (\<lambda>i r. i + rlen r) x (map (\<lambda>a. the (h a)) as) = x + of_nat (length (path_blocks h as))"
  by (induction as arbitrary: x) (simp_all add: path_blocks_def add.assoc)

lemma fs_ok_calls: "fs_ok P s \<Longrightarrow> fs_ok P (s\<lparr>calls := calls s + 1\<rparr>)"
  by (auto simp: fs_ok_def fs_wf_def heap_ok_def has_room_def less_Suc_eq)

lemma allocate_blocks_spec:
  assumes E: "\<forall>k. mem_ok E k" and P: "fs_layout_ok P" and s: "fs_ok P s"
  shows "\<exists>r s'. allocate_blocks E P n s = Inr (r, s') \<and> fs_ok P s' \<and>
    (case r of
       None \<Rightarrow> free_set s' \<subseteq> free_set s \<and> (\<forall>g \<in> set (bgs s). free_blocks_n g < n)
     | Some al \<Rightarrow> \<exists>bs. shows_blocks al s' bs \<and> length bs = unat n \<and> distinct bs \<and> set bs \<subseteq> free_set s \<and> free_set s' = free_set s - set bs)"
proof -
  obtain r s' as where d: "do_allocate E P n s = Inr (r, s')"
    "if r = None then fs_wf P s' \<and> heap_ok s' \<and> has_room s' \<and> free_set s' \<subseteq> free_set s \<and> (\<forall>i < length (bgs s). free_blocks_n (bgs s ! i) < n)
     else has_room s' \<and> collected P s r as s' \<and> length (path_blocks (regs s') as) = unat n"
    using do_allocate_spec[OF E P, of s n] s unfolding fs_ok_def by blast
  show ?thesis
  proof (cases r)
    case None
    then show ?thesis
      using d by (auto simp: allocate_blocks_def fs_ok_def in_set_conv_nth intro!: exI[of _ None] exI[of _ s'])
  next
    case (Some a)
    define s2 where "s2 = s'\<lparr>calls := calls s' + 1\<rparr>"
    define al where "al = \<lparr>alist = \<lparr>lfirst = r, llast = r, liter = r, partial_iter = 0\<rparr>, oob_list = empty_regions\<rparr>"
    define bs where "bs = path_blocks (regs s') as"
    have c: "has_room s'" "collected P s r as s'" "length bs = unat n" using d(2) Some by (simp_all add: bs_def)
    have ok: "fs_ok P s2" using fs_ok_calls[of P s'] c by (simp add: s2_def fs_ok_def collected_def)
    have p: "path (regs s2) r as" "regs s2 = regs s'" "free_set s2 = free_set s'"
      using c(2) by (simp_all add: collected_def s2_def free_set_def)
    have "allocate_blocks E P n s = Inr (Some al, s2)"
      using d(1) E Some by (simp add: allocate_blocks_def create_allocation_def palloc_def s2_def al_def)
    moreover have "shows_blocks al s2 bs"
      using find_block_path[OF p(1)] fold_regions_path[OF p(1), of "\<lambda>i r. i + rlen r" 0, unfolded length_fold] c(2) p(2)
      by (simp add: shows_blocks_def get_block_def block_allocation_len_def al_def collected_def bs_def length_fold)
    ultimately show ?thesis using ok c p by (auto simp: collected_def bs_def)
  qed
qed

section \<open>Single blocks\<close>

lemma allocate_block_from_spec:
  assumes P: "fs_layout_ok P" and s: "fs_ok P s"
  shows "\<forall>i \<in> set is. i < length (bgs s) \<Longrightarrow> \<exists>b s'. allocate_block_from is s = Inr (b, s') \<and> fs_ok P s'
     \<and> (if b = EXT4_ALLOCATE_FAILED then s' = s \<and> (\<forall>i \<in> set is. free_blocks_n (bgs s ! i) = 0)
        else unat b \<in> free_set s \<and> free_set s' = free_set s - {unat b})"
proof (induction "is")
  case (Cons i "is")
  have w: "fs_wf P s" "i < length (bgs s)" using s Cons.prems by (simp_all add: fs_ok_def)
  show ?case
  proof (cases "1 \<le> free_blocks_n (bgs s ! i)")
    case True
    obtain b s1 where 1: "ext4_allocate_blocks_from_block_group 1 i s = Inr (b, s1)" "taken P s i b 1 s1"
      using from_group_taken[OF P w True] by auto
    have "fs_ok P s1"
      using s taken_simps[OF 1(2)] taken_has_room(1)[OF 1(2)] by (auto simp: fs_ok_def heap_ok_def)
    then show ?thesis using 1 by (auto simp: taken_def)
  next
    case False
    then have "unat (free_blocks_n (bgs s ! i)) = 0" by (simp add: word_le_nat_alt)
    then have "free_blocks_n (bgs s ! i) = 0" by (simp add: unat_eq_zero)
    then show ?thesis using from_group_refused[of i s 1] Cons w by (auto split: if_splits)
  qed
qed (use s in simp)

section \<open>Inodes\<close>

lemma mark_inodes_ok:
  assumes "0 < unat f" "length bm < 2 ^ 28"
  shows "\<forall>i \<in> set is. 8 * ofs + unat f + i \<le> 8 * length bm \<Longrightarrow>
    \<exists>bm'. mark_inodes ofs f is bm = Inr bm' \<and> marked bm ((\<lambda>i. 8 * ofs + unat f + i - 1) ` set is) bm'"
  using assms(2)
proof (induction "is" arbitrary: bm)
  case (Cons i "is")
  have b: "8 * ofs + unat f + i \<le> 8 * length bm" using Cons.prems by simp
  have s: "unat f + i < 2 ^ 32" using b Cons.prems(2) by simp
  have si: "unat (of_nat i :: u32) = i" using s by (simp add: unat_of_nat)
  then have "unat (f + of_nat i) = unat f + i" using s by (simp add: unat_word_ariths)
  then have u: "unat (f + of_nat i - 1 :: u32) = unat f + i - 1" using assms(1) by (simp add: unat_sub word_le_nat_alt)
  define x where "x = 8 * ofs + unat f + i - 1"
  have x: "x < 8 * length bm" "x div 8 = ofs + (unat f + i - 1) div 8" "x mod 8 = (unat f + i - 1) mod 8"
  proof -
    have "x = 8 * ofs + (unat f + i - 1)" using assms(1) by (simp add: x_def)
    then show "x div 8 = ofs + (unat f + i - 1) div 8" "x mod 8 = (unat f + i - 1) mod 8" by simp_all
    show "x < 8 * length bm" using b assms(1) by (simp add: x_def)
  qed
  define bm1 where "bm1 = bm[x div 8 := bm ! (x div 8) OR push_bit (x mod 8) 1]"
  have m: "marked bm {x} bm1" unfolding bm1_def by (rule marked_or[OF x(1)])
  then have l: "length bm1 = length bm" by (simp add: marked_def)
  obtain bm' where 1: "mark_inodes ofs f is bm1 = Inr bm'" "marked bm1 ((\<lambda>i. 8 * ofs + unat f + i - 1) ` set is) bm'"
    using Cons.IH[of bm1] Cons.prems l by auto
  have k: "x div 8 < length bm" using x(1) by linarith
  have "mark_inodes ofs f (i # is) bm = Inr bm'"
    using 1(1) k x u by (simp add: bm1_def Let_def unat_div_mod_8)
  then show ?case using marked_trans[OF m 1(2)] by (simp add: x_def)
qed simp

lemma reserve_inodes_spec:
  assumes P: "fs_layout_ok P" and s: "fs_ok P s" and i: "i < length (bgs s)"
  shows "\<exists>r s'. reserve_inodes P i n s = Inr (r, s') \<and> fs_ok P s' \<and> free_set s' = free_set s
     \<and> (if free_inodes (bgs s ! i) < n then r = EXT4_ALLOCATE_FAILED \<and> s' = s
        else r = first_free_inode (bgs s ! i) \<and> r \<noteq> EXT4_ALLOCATE_FAILED)"
proof (cases "free_inodes (bgs s ! i) < n")
  case True
  then show ?thesis using i s by (simp add: reserve_inodes_def get_free_inodes_def)
next
  case False
  define g where "g = bgs s ! i"
  define S F where "S = unat (bsize P)" "F = unat (first_free_inode g)"
  have g: "group_wf P i g" using s i by (simp add: fs_ok_def fs_wf_def g_def)
  have n: "unat n \<le> unat (free_inodes g)" using False by (simp add: g_def word_less_nat_alt)
  have l: "16 * S < 2 ^ 31" "unat (blocks_per_group P) \<le> 8 * S" "unat (inodes_per_group P) \<le> 8 * S"
    using P by (auto simp: fs_layout_ok_def S_F_def)
  have w: "length (bitmaps g) = 2 * S" "0 < F" "F - 1 + unat (free_inodes g) = unat (inodes_per_group P)"
    using g by (auto simp: group_wf_def S_F_def)
  have "\<forall>j \<in> set [0..<unat n]. 8 * S + F + j \<le> 8 * length (bitmaps g)" using w l n by auto
  then obtain bm where m: "mark_inodes S (first_free_inode g) [0..<unat n] (bitmaps g) = Inr bm"
    "marked (bitmaps g) ((\<lambda>i. 8 * S + F + i - 1) ` {0..<unat n}) bm"
    using mark_inodes_ok[of "first_free_inode g" "bitmaps g" "[0..<unat n]" S] w(1,2) l(1) by (auto simp: S_F_def(2))
  define g' where "g' = g\<lparr>bitmaps := bm, first_free_inode := first_free_inode g + n, free_inodes := free_inodes g - n\<rparr>"
  have set: "(\<lambda>i. 8 * S + F + i - 1) ` {0..<unat n} = {8 * S + (F - 1)..<8 * S + (F - 1) + unat n}"
  proof -
    have e: "(\<lambda>i. 8 * S + F + i - 1) = (+) (8 * S + (F - 1))" using w(2) by auto
    show ?thesis unfolding e image_add_atLeastLessThan by (simp add: add.commute)
  qed
  have u: "unat (first_free_inode g + n) = F + unat n" "unat (free_inodes g - n) = unat (free_inodes g) - unat n"
    using w l n by (simp_all add: unat_word_ariths unat_sub word_le_nat_alt S_F_def)
  have b: "bit_at bm x \<longleftrightarrow> bit_at (bitmaps g) x \<or> 8 * S + (F - 1) \<le> x \<and> x < 8 * S + (F - 1) + unat n" "length bm = 2 * S" for x
    using m(2) w(1) unfolding set by (simp_all add: marked_def)
  have "group_wf P i g'"
    using g w n u l b unfolding group_wf_def g'_def by (auto simp: S_F_def[symmetric])
  moreover have "group_free g' = group_free (bgs s ! i) - {}" by (simp add: g'_def group_free_def g_def)
  ultimately have ok: "fs_ok P (put_group i g' s)" "free_set (put_group i g' s) = free_set s"
    using s fs_wf_put[of P s i g'] has_room_at[of s i] i free_set_put[of P s i g' "{}"]
    by (auto simp: fs_ok_def heap_ok_def g'_def g_def simp del: of_nat_unat intro!: has_room_put)
  have "F < 2 ^ 32 - 1" using w l by simp
  then have "first_free_inode g \<noteq> EXT4_ALLOCATE_FAILED" using unat_FAILED by (auto simp: S_F_def)
  moreover have "reserve_inodes P i n s = Inr (first_free_inode g, put_group i g' s)"
    using False i m(1) by (simp add: reserve_inodes_def get_free_inodes_def g_def g'_def S_F_def)
  ultimately show ?thesis using ok False by (simp add: g_def)
qed

lemma allocate_inode_from_spec:
  assumes P: "fs_layout_ok P" and s: "fs_ok P s"
  shows "\<forall>i \<in> set is. i < length (bgs s) \<Longrightarrow> \<exists>r s'. allocate_inode_from P is s = Inr (r, s') \<and> fs_ok P s' \<and> free_set s' = free_set s"
proof (induction "is")
  case (Cons i "is")
  then have "i < length (bgs s)" by simp
  from reserve_inodes_spec[OF P s this, of 1] show ?case
    using Cons by (fastforce split: if_splits)
qed (use s in simp)

text \<open>Changes that the allocation of blocks does not see.\<close>

lemma fs_ok_put_other:
  assumes s: "fs_ok P s" and i: "i < length (bgs s)"
    and g: "\<exists>t d. g = (bgs s ! i)\<lparr>inode_table := t, used_dirs := d\<rparr>"
  shows "fs_ok P (put_group i g s)" "free_set (put_group i g s) = free_set s"
proof -
  obtain t d where e: "g = (bgs s ! i)\<lparr>inode_table := t, used_dirs := d\<rparr>" using g by blast
  have "group_wf P i (bgs s ! i)" using s i by (simp add: fs_ok_def fs_wf_def)
  then have w: "group_wf P i g" by (simp add: e group_wf_def)
  then show "fs_ok P (put_group i g s)"
    using s fs_wf_put[of P s i g] has_room_at[of s i] i
    by (auto simp: fs_ok_def heap_ok_def e simp del: of_nat_unat intro!: has_room_put)
  show "free_set (put_group i g s) = free_set s"
    using free_set_put[of P s i g "{}"] w s i by (simp add: fs_ok_def e group_free_def)
qed

lemma fs_ok_more:
  assumes "fs_ok P s" "bgs s' = bgs s" "dom (regs s') \<subseteq> dom (regs s)" "calls s \<le> calls s'"
  shows "fs_ok P s'"
  using assms by (fastforce simp: fs_ok_def fs_wf_def heap_ok_def has_room_def dom_def)

lemma inode_table_spec:
  assumes E: "\<forall>k. mem_ok E k" and s: "fs_ok P s" and i: "i < length (bgs s)"
  shows "\<exists>s'. allocate_bg_inode_table E P i s = Inr (0, s') \<and> fs_ok P s' \<and> free_set s' = free_set s \<and> inode_table (bgs s' ! i)"
proof (cases "inode_table (bgs s ! i)")
  case True
  then show ?thesis using s i by (simp add: allocate_bg_inode_table_def)
next
  case False
  define g where "g = (bgs s ! i)\<lparr>inode_table := True\<rparr>"
  have "\<exists>t d. g = (bgs s ! i)\<lparr>inode_table := t, used_dirs := d\<rparr>"
    by (rule exI[of _ True], rule exI[of _ "used_dirs (bgs s ! i)"]) (simp add: g_def)
  note o = fs_ok_put_other[OF s i this]
  define blk where "blk = first_block (bgs s ! i) + 2 + (if has_superblock (bgs s ! i) then super_blocks P else 0)"
  define s' where "s' = (put_group i g s)\<lparr>calls := calls s + 2, queued := queued s @ [(InodeTable i, inode_table_blocks P * bsize P, blk)]\<rparr>"
  have "allocate_bg_inode_table E P i s = Inr (0, s')"
    using E i False
    by (simp add: allocate_bg_inode_table_def palloc_def queue_block_def s'_def g_def blk_def put_group_def Let_def)
  moreover have "fs_ok P s'" by (rule fs_ok_more[OF o(1)]) (simp_all add: s'_def)
  moreover have "free_set s' = free_set s" using o(2) by (simp add: s'_def free_set_def)
  ultimately show ?thesis using i by (simp add: s'_def g_def)
qed

lemma inode_group:
  assumes "0 < unat n" "unat n \<le> unat (groups P) * unat (inodes_per_group P)"
  shows "unat ((n - 1) div inodes_per_group P) < unat (groups P)" "inodes_per_group P \<noteq> 0"
proof -
  have "unat (n - 1) < unat (groups P) * unat (inodes_per_group P)" using assms by (simp add: unat_sub word_le_nat_alt)
  then show "unat ((n - 1) div inodes_per_group P) < unat (groups P)" by (simp add: unat_div less_mult_imp_div_less)
  show "inodes_per_group P \<noteq> 0" using assms by auto
qed

lemma get_inode_spec:
  assumes E: "\<forall>k. mem_ok E k" and s: "fs_ok P s" and n: "0 < unat n" "unat n \<le> unat (groups P) * unat (inodes_per_group P)"
  shows "\<exists>s'. get_inode E P n s = Inr (Some (unat ((n - 1) div inodes_per_group P), (n - 1) mod inodes_per_group P * inode_size P), s')
    \<and> fs_ok P s' \<and> free_set s' = free_set s"
proof -
  have "unat ((n - 1) div inodes_per_group P) < length (bgs s)" using inode_group(1)[OF n] s by (simp add: fs_ok_def fs_wf_def)
  from inode_table_spec[OF E s this] show ?thesis using inode_group(2)[OF n] by (auto simp: get_inode_def Let_def)
qed

lemma add_directory_spec:
  assumes s: "fs_ok P s" and n: "0 < unat n" "unat n \<le> unat (groups P) * unat (inodes_per_group P)"
  shows "\<exists>s'. add_directory P n s = Inr s' \<and> fs_ok P s' \<and> free_set s' = free_set s"
proof -
  define i where "i = unat ((n - 1) div inodes_per_group P)"
  have i: "i < length (bgs s)" using inode_group(1)[OF n] s by (simp add: fs_ok_def fs_wf_def i_def)
  define g where "g = (bgs s ! i)\<lparr>used_dirs := used_dirs (bgs s ! i) + 1\<rparr>"
  have "\<exists>t d. g = (bgs s ! i)\<lparr>inode_table := t, used_dirs := d\<rparr>"
    by (rule exI[of _ "inode_table (bgs s ! i)"], rule exI[of _ "used_dirs (bgs s ! i) + 1"]) (simp add: g_def)
  from fs_ok_put_other[OF s i this] show ?thesis
    using inode_group(2)[OF n] i by (simp add: add_directory_def Let_def i_def[symmetric] g_def)
qed

section \<open>The first state\<close>

lemma bit_at_zero [simp]: "x < 8 * n \<Longrightarrow> \<not> bit_at (replicate n 0) x"
  by (simp add: bit_at_def div_less_iff_less_mult mult.commute)

text \<open>The overrun is negative for a group that ends within the file system; as a 32-bit number it exceeds what is free.\<close>

lemma overrun:
  fixes e :: u32 and len :: u64
  assumes "unat len < 2 ^ 32"
  defines "v \<equiv> ucast (ucast e - len) :: u32"
  shows "unat len \<le> unat e \<Longrightarrow> unat v = unat e - unat len"
    "unat e < unat len \<Longrightarrow> unat v = 2 ^ 32 + unat e - unat len"
proof -
  have lt: "unat e < 2 ^ 32" using unsigned_less[of e] by simp
  then have e: "unat (ucast e :: u64) = unat e" by (simp add: unsigned_ucast_eq take_bit_nat_eq_self)
  show "unat v = unat e - unat len" if "unat len \<le> unat e"
  proof -
    have "unat (ucast e - len) = unat e - unat len" using that e by (simp add: unat_sub word_le_nat_alt)
    moreover have "unat e - unat len < 2 ^ 32" using lt by simp
    ultimately show ?thesis by (simp add: v_def unsigned_ucast_eq take_bit_nat_eq_self)
  qed
  show "unat v = 2 ^ 32 + unat e - unat len" if "unat e < unat len"
  proof -
    have "uint (ucast e :: u64) = uint e" using arg_cong[OF e, of int] by simp
    then have "uint (ucast e - len) = (int (unat e) - int (unat len)) mod 2 ^ 64"
      by (simp add: uint_word_ariths)
    then have "uint v = ((int (unat e) - int (unat len)) mod 2 ^ 64) mod 2 ^ 32" by (simp add: v_def unsigned_ucast_eq take_bit_eq_mod)
    also have "\<dots> = (int (unat e) - int (unat len)) mod 2 ^ 32" by (rule mod_mod_cancel) simp
    also have "\<dots> = (int (unat e) - int (unat len) + 2 ^ 32) mod 2 ^ 32" by simp
    also have "\<dots> = int (unat e) - int (unat len) + 2 ^ 32" using that assms(1) by (intro mod_pos_pos_trivial) (simp_all del: of_nat_unat)
    finally have "int (unat v) = int (2 ^ 32 + unat e - unat len)" using that assms(1) by (simp add: of_nat_diff)
    then show ?thesis by (simp only: of_nat_eq_iff)
  qed
qed

text \<open>What \<open>init_bg\<close> makes of a group: the header reserved, and what lies beyond the end of the file system.\<close>

lemma header_reserved:
  assumes P: "fs_layout_ok P" and h: "h \<le> blocks_per_group P" and g: "bitmaps g = replicate (2 * unat (bsize P)) 0"
    "free_blocks_n g = blocks_per_group P" "first_free_block g = 0"
  shows "\<exists>bm. reserve_blocks g 0 h = Inr (0, g\<lparr>bitmaps := bm, free_blocks_n := blocks_per_group P - h, first_free_block := h\<rparr>)
    \<and> marked (replicate (2 * unat (bsize P)) 0) {0..<unat h} bm"
proof -
  have l: "16 * unat (bsize P) < 2 ^ 31" "unat (blocks_per_group P) \<le> 8 * unat (bsize P)" using P by (auto simp: fs_layout_ok_def)
  have h': "unat h \<le> unat (blocks_per_group P)" using h by (simp add: word_le_nat_alt)
  have "\<forall>x. unat (0 :: u32) \<le> x \<and> x < unat (0 :: u32) + unat h \<longrightarrow> \<not> bit_at (bitmaps g) x"
    using l h' g(1) by simp
  then show ?thesis using reserve_blocks_ok[of h g 0] g h h' l by simp
qed

lemma tail_reserved:
  assumes P: "fs_layout_ok P" and g: "unat (first_free_block g) + unat (free_blocks_n g) = unat (blocks_per_group P)"
      "marked (replicate (2 * unat (bsize P)) 0) {0..<unat (first_free_block g)} (bitmaps g)"
    and v: "v < free_blocks_n g"
  shows "\<exists>bm. reserve_blocks g (blocks_per_group P - v) v = Inr (0, g\<lparr>bitmaps := bm, free_blocks_n := free_blocks_n g - v\<rparr>)
    \<and> marked (bitmaps g) {unat (blocks_per_group P) - unat v..<unat (blocks_per_group P)} bm"
proof -
  define B where "B = unat (blocks_per_group P)"
  have l: "16 * unat (bsize P) < 2 ^ 31" "B \<le> 8 * unat (bsize P)" using P by (auto simp: fs_layout_ok_def B_def)
  have v': "unat v < unat (free_blocks_n g)" using v by (simp add: word_less_nat_alt)
  have u: "unat (blocks_per_group P - v) = B - unat v" using v' g(1) by (simp add: unat_sub word_le_nat_alt B_def)
  have "unat (blocks_per_group P - v) \<noteq> unat (first_free_block g)" using u v' g(1) by (simp add: B_def)
  then have ne: "blocks_per_group P - v \<noteq> first_free_block g" by auto
  have b: "\<forall>x. B - unat v \<le> x \<and> x < B \<longrightarrow> \<not> bit_at (bitmaps g) x"
    using g v' l by (auto simp: marked_def B_def)
  have "length (bitmaps g) = 2 * unat (bsize P)" using g(2) by (simp add: marked_def)
  then show ?thesis
    using reserve_blocks_ok[of v g "blocks_per_group P - v"] u v v' g(1) l b ne by (simp add: B_def[symmetric])
qed

lemma layout_facts:
  assumes "fs_layout_ok P" "i < unat (groups P)"
  shows "unat (of_nat (header_of P i) :: u32) = header_of P i" "header_of P i \<le> unat (blocks_per_group P)"
    "2 + inode_table_blocks P + (if ext4_bg_has_super_block P (int i) then super_blocks P else 0) = of_nat (header_of P i)"
    "unat (first_data_block P + of_nat i * blocks_per_group P) = unat (first_data_block P) + i * unat (blocks_per_group P)"
    "unat (first_data_block P + of_nat i * blocks_per_group P + blocks_per_group P) = group_end P i"
proof -
  show h: "header_of P i \<le> unat (blocks_per_group P)" using assms by (simp add: fs_layout_ok_def)
  have "unat (blocks_per_group P) < 2 ^ 32" using unsigned_less[of "blocks_per_group P"] by simp
  then show "unat (of_nat (header_of P i) :: u32) = header_of P i" using h by (simp add: unat_of_nat)
  show "2 + inode_table_blocks P + (if ext4_bg_has_super_block P (int i) then super_blocks P else 0) = of_nat (header_of P i)"
    by (simp add: header_of_def super_blocks_def)
  define B where "B = unat (blocks_per_group P)"
  have "(i + 1) * B \<le> unat (groups P) * B" using assms(2) by (intro mult_le_mono1) simp
  then have lt: "unat (first_data_block P) + (i + 1) * B < 2 ^ 32" using assms(1) by (simp add: fs_layout_ok_def B_def)
  have f: "first_data_block P + of_nat i * blocks_per_group P = of_nat (unat (first_data_block P) + i * B)"
    by (simp add: B_def)
  show u: "unat (first_data_block P + of_nat i * blocks_per_group P) = unat (first_data_block P) + i * unat (blocks_per_group P)"
    unfolding f using lt by (simp add: unat_of_nat B_def del: of_nat_add of_nat_mult)
  have f: "first_data_block P + of_nat i * blocks_per_group P + blocks_per_group P = of_nat (unat (first_data_block P) + (i + 1) * B)"
    by (simp add: B_def algebra_simps)
  show "unat (first_data_block P + of_nat i * blocks_per_group P + blocks_per_group P) = group_end P i"
    unfolding f using lt by (simp add: unat_of_nat B_def group_end_def del: of_nat_add of_nat_mult)
qed

lemma init_reserves:
  assumes P: "init_ok P" and i: "i < unat (groups P)"
    and g: "bitmaps g = replicate (2 * unat (bsize P)) 0" "free_blocks_n g = blocks_per_group P" "first_free_block g = 0"
      "first_block g = first_data_block P + of_nat i * blocks_per_group P" "data_blocks_used g = 0"
      "free_inodes g = inodes_per_group P" "first_free_inode g = 1"
  defines "v \<equiv> ucast (ucast (first_block g + blocks_per_group P) - len_blocks P) :: u32"
  shows "\<exists>g1 r g2. reserve_blocks g 0 (of_nat (header_of P i)) = Inr (0, g1)
    \<and> (if v > 0 then reserve_blocks g1 (blocks_per_group P - v) v else Inr (0, g1)) = Inr (r, g2) \<and> fresh_group P i g2"
proof -
  define B S H where "B = unat (blocks_per_group P)" "S = unat (bsize P)" "H = header_of P i"
  have lay: "fs_layout_ok P" using P by (simp add: init_ok_def)
  note f = layout_facts[OF lay i]
  have I: "H < B" "H + group_end P i < unat (len_blocks P) + B" "unat (len_blocks P) < 2 ^ 32" using P i by (auto simp: init_ok_def B_S_H_def)
  have l: "16 * S < 2 ^ 31" "B \<le> 8 * S" "unat (inodes_per_group P) \<le> 8 * S" using lay by (auto simp: fs_layout_ok_def B_S_H_def)
  have "of_nat H \<le> blocks_per_group P" using f(1,2) by (simp add: word_le_nat_alt B_S_H_def)
  from header_reserved[OF lay this g(1,2,3)] obtain bm where r1: "reserve_blocks g 0 (of_nat H) = Inr (0, g\<lparr>bitmaps := bm,
      free_blocks_n := blocks_per_group P - of_nat H, first_free_block := of_nat H\<rparr>)"
    and m1: "marked (replicate (2 * S) 0) {0..<H} bm" using f(1) by (auto simp: B_S_H_def)
  define g1 where "g1 = g\<lparr>bitmaps := bm, free_blocks_n := blocks_per_group P - of_nat H, first_free_block := of_nat H\<rparr>"
  have u1: "unat (free_blocks_n g1) = B - H" "unat (first_free_block g1) = H"
    using f(1,2) I(1) by (simp_all add: g1_def unat_sub word_le_nat_alt B_S_H_def)
  have fresh: "fresh_group P i (g1\<lparr>bitmaps := bm', free_blocks_n := k\<rparr>)"
    if "0 < unat k" "H + unat k \<le> B" "marked bm {H + unat k..<B} bm'" for k bm'
  proof -
    have "bit_at bm' x \<longleftrightarrow> x < H \<or> H + unat k \<le> x \<and> x < B" if "x < 16 * S" for x
      using \<open>marked bm _ bm'\<close> m1 that by (auto simp: marked_def)
    moreover have "length bm' = 2 * S" using that(3) m1 by (simp add: marked_def)
    ultimately show ?thesis
      using that(1,2) g f(1,4) l I(1) by (auto simp: fresh_group_def group_wf_def g1_def B_S_H_def[symmetric] word_less_nat_alt)
  qed
  have "g1 = g1\<lparr>bitmaps := bm, free_blocks_n := free_blocks_n g1\<rparr>" by (rule block_group_info.equality) (simp_all add: g1_def)
  then have same: "fresh_group P i g1" using fresh[of "free_blocks_n g1" bm] u1 I(1) by simp
  have v: "group_end P i \<ge> unat (len_blocks P) \<Longrightarrow> unat v = group_end P i - unat (len_blocks P)"
    "group_end P i < unat (len_blocks P) \<Longrightarrow> unat v = 2 ^ 32 + group_end P i - unat (len_blocks P)"
    using overrun[OF I(3), of "first_block g + blocks_per_group P"] f(5) g(4) by (simp_all add: v_def)
  show ?thesis
  proof (cases "v < free_blocks_n g1")
    case True
    then have v': "unat v < B - H" using u1 by (simp add: word_less_nat_alt)
    have "marked (replicate (2 * unat (bsize P)) 0) {0..<unat (first_free_block g1)} (bitmaps g1)" using m1 u1 by (simp add: g1_def B_S_H_def)
    from tail_reserved[OF lay _ this True] u1 I(1) obtain bm' where
      r2: "reserve_blocks g1 (blocks_per_group P - v) v = Inr (0, g1\<lparr>bitmaps := bm', free_blocks_n := free_blocks_n g1 - v\<rparr>)"
      and m2: "marked bm {B - unat v..<B} bm'" by (auto simp: B_S_H_def g1_def)
    have k: "unat (free_blocks_n g1 - v) = B - H - unat v" using True u1 by (simp add: unat_sub)
    have "fresh_group P i (g1\<lparr>bitmaps := bm', free_blocks_n := free_blocks_n g1 - v\<rparr>)"
      using fresh[of "free_blocks_n g1 - v" bm'] k v' m2 by simp
    then show ?thesis using r1 r2 same by (auto simp: g1_def[symmetric] B_S_H_def(3)[symmetric])
  next
    case False
    have "free_blocks_n g1 < v"
    proof (cases "group_end P i < unat (len_blocks P)")
      case True
      have "B \<le> group_end P i" by (simp add: group_end_def B_S_H_def)
      then show ?thesis using v(2)[OF True] u1 I True by (simp add: word_less_nat_alt)
    next
      case False
      then show ?thesis using v(1) u1 I \<open>\<not> v < free_blocks_n g1\<close> by (simp add: word_less_nat_alt)
    qed
    then show ?thesis using r1 same by (auto simp: g1_def[symmetric] reserve_blocks_def B_S_H_def(3)[symmetric])
  qed
qed

lemma init_bg_spec:
  assumes E: "\<forall>k. mem_ok E k" and P: "init_ok P" and i: "i < unat (groups P)" "i < length (bgs s)"
  shows "\<exists>g q. init_bg E P i s = Inr (0, s\<lparr>bgs := (bgs s)[i := g], calls := calls s + 2, queued := q\<rparr>) \<and> fresh_group P i g"
proof -
  have lay: "fs_layout_ok P" using P by (simp add: init_ok_def)
  note f = layout_facts[OF lay i(1)]
  define sb where "sb = ext4_bg_has_super_block P (int i)"
  define first where "first = first_data_block P + of_nat i * blocks_per_group P"
  define g where "g = (bgs s ! i)\<lparr>has_superblock := sb, bitmaps := replicate (2 * unat (bsize P)) 0,
     header_blocks := sint (of_nat (header_of P i) :: u32), first_block := first\<rparr>"
  define g0 where "g0 = g\<lparr>data_blocks_used := 0, free_blocks_n := blocks_per_group P, first_free_block := 0,
     free_inodes := inodes_per_group P, first_free_inode := 1\<rparr>"
  define q where "q = queued s @ [(Bitmaps i, 2 * bsize P, first + (if sb then super_blocks P else 0))]"
  have g0: "bitmaps g0 = replicate (2 * unat (bsize P)) 0" "free_blocks_n g0 = blocks_per_group P" "first_free_block g0 = 0"
      "first_block g0 = first_data_block P + of_nat i * blocks_per_group P" "data_blocks_used g0 = 0"
      "free_inodes g0 = inodes_per_group P" "first_free_inode g0 = 1" by (simp_all add: g0_def g_def first_def)
  from init_reserves[OF P i(1) g0] obtain g1 r g2 where 1: "reserve_blocks g0 0 (of_nat (header_of P i)) = Inr (0, g1)"
    "(let v = ucast (ucast (first + blocks_per_group P) - len_blocks P) :: u32 in
      if v > 0 then reserve_blocks g1 (blocks_per_group P - v) v else Inr (0, g1)) = Inr (r, g2)" "fresh_group P i g2"
    unfolding g0(4) first_def Let_def by blast
  have hd: "2 + inode_table_blocks P + (if sb then super_blocks P else 0) = of_nat (header_of P i)" using f(3) by (simp add: sb_def)
  have "init_bg E P i s = Inr (0, put_group i g2 (put_group i g s\<lparr>calls := calls s + 2, queued := q\<rparr>))"
    using E i(2) 1(1,2)
    by (simp add: init_bg_def palloc_def queue_block_def Let_def sb_def[symmetric] hd g_def[symmetric] g0_def[symmetric] first_def[symmetric] put_group_def q_def)
  moreover have "put_group i g2 (put_group i g s\<lparr>calls := calls s + 2, queued := q\<rparr>)
      = s\<lparr>bgs := (bgs s)[i := g2], calls := calls s + 2, queued := q\<rparr>"
    by (rule fstate.equality) (simp_all add: put_group_def)
  ultimately show ?thesis using 1(3) by (intro exI[of _ g2] exI[of _ q]) simp
qed

lemma init_groups_spec:
  assumes E: "\<forall>k. mem_ok E k" and P: "init_ok P"
  shows "\<forall>i \<in> set is. i < unat (groups P) \<Longrightarrow> length (bgs s) = unat (groups P) \<Longrightarrow>
    \<exists>s'. init_groups E P is s = Inr (0, s') \<and> length (bgs s') = length (bgs s) \<and> regs s' = regs s \<and> calls s \<le> calls s'
      \<and> (\<forall>i < length (bgs s). i \<in> set is \<longrightarrow> fresh_group P i (bgs s' ! i))
      \<and> (\<forall>i < length (bgs s). i \<notin> set is \<longrightarrow> bgs s' ! i = bgs s ! i)"
proof (induction "is" arbitrary: s)
  case (Cons i "is")
  then have i: "i < unat (groups P)" "i < length (bgs s)" by auto
  obtain g q where 1: "init_bg E P i s = Inr (0, s\<lparr>bgs := (bgs s)[i := g], calls := calls s + 2, queued := q\<rparr>)" "fresh_group P i g"
    using init_bg_spec[OF E P i] by blast
  define s1 where "s1 = s\<lparr>bgs := (bgs s)[i := g], calls := calls s + 2, queued := q\<rparr>"
  obtain s' where 2: "init_groups E P is s1 = Inr (0, s')" "length (bgs s') = length (bgs s1)" "regs s' = regs s1" "calls s1 \<le> calls s'"
    "\<forall>i < length (bgs s1). i \<in> set is \<longrightarrow> fresh_group P i (bgs s' ! i)"
    "\<forall>i < length (bgs s1). i \<notin> set is \<longrightarrow> bgs s' ! i = bgs s1 ! i"
    using Cons.IH[of s1] Cons.prems by (auto simp: s1_def)
  have "\<forall>j < length (bgs s). j \<in> set (i # is) \<longrightarrow> fresh_group P j (bgs s' ! j)"
    using 1(2) 2(5,6) i(2) by (auto simp: s1_def)
  moreover have "init_groups E P (i # is) s = Inr (0, s')" using 1(1) 2(1) by (simp add: s1_def)
  ultimately show ?case using 2(2-4,6) by (intro exI[of _ s']) (simp add: s1_def)
qed simp

lemma block_allocator_init_spec:
  assumes E: "\<forall>k. mem_ok E k" and P: "init_ok P" and s: "heap_ok s"
  shows "\<exists>s'. block_allocator_init E P s = Inr (0, s') \<and> fs_ok P s' \<and> (\<forall>g \<in> set (bgs s'). 0 < free_blocks_n g)"
proof -
  define s1 where "s1 = s\<lparr>calls := calls s + 1, bgs := replicate (unat (groups P)) zero_group\<rparr>"
  obtain s' where 1: "init_groups E P [0..<unat (groups P)] s1 = Inr (0, s')" "length (bgs s') = unat (groups P)"
    "regs s' = regs s" "calls s < calls s'" "\<forall>i < unat (groups P). fresh_group P i (bgs s' ! i)"
    using init_groups_spec[OF E P, of "[0..<unat (groups P)]" s1] by (auto simp: s1_def Suc_le_eq)
  have lay: "fs_layout_ok P" using P by (simp add: init_ok_def)
  have F: "data_blocks_used g = 0 \<and> unat (free_blocks_n g) < 2 ^ 31 \<and> 0 < free_blocks_n g" if g: "g \<in> set (bgs s')" for g
  proof -
    obtain i where "i < unat (groups P)" "g = bgs s' ! i" using g 1(2) by (auto simp: in_set_conv_nth)
    then have "fresh_group P i g" using 1(5) by simp
    then show ?thesis using lay by (auto simp: fresh_group_def group_wf_def fs_layout_ok_def)
  qed
  then have "has_room s'" by (simp add: has_room_def del: of_nat_unat)
  moreover have "fs_wf P s'" using 1(2,5) by (simp add: fs_wf_def fresh_group_def)
  moreover have "heap_ok s'" using s 1(3,4) by (auto simp: heap_ok_def)
  moreover have "block_allocator_init E P s = Inr (0, s')"
    using E 1(1) by (simp add: block_allocator_init_def palloc_def s1_def)
  ultimately show ?thesis using F by (simp add: fs_ok_def)
qed

section \<open>Reachable states\<close>

lemma free_regions_fs_ok:
  assumes "free_regions p s = Some y"
  shows "fs_ok P s \<Longrightarrow> y = Inr s' \<Longrightarrow> fs_ok P s' \<and> free_set s' = free_set s"
  using assms
proof (induction p s y rule: free_regions.raw_induct[rotated 1, consumes 1, case_names step])
  case (step loop p s y)
  show ?case
  proof (cases "\<exists>a q. p = Some a \<and> reg_at s p = Inr q")
    case True
    then obtain a q where a: "p = Some a" "reg_at s p = Inr q" by blast
    define s1 where "s1 = s\<lparr>regs := (regs s)(a := None)\<rparr>"
    have "fs_ok P s1" by (rule fs_ok_more[OF step.prems(1)]) (auto simp: s1_def split: if_splits)
    moreover have "loop (rnext q) s1 = Some y" using step.hyps a by (simp add: s1_def)
    ultimately show ?thesis using step.IH[of "rnext q" s1] step.prems(2) by (simp add: s1_def free_set_def)
  next
    case False
    then show ?thesis using step.hyps step.prems by (auto split: option.splits sum.splits)
  qed
qed

lemma free_alloc_fs_ok:
  assumes "free_alloc al s = Inr s'" "fs_ok P s"
  shows "fs_ok P s' \<and> free_set s' = free_set s"
proof -
  obtain s1 where "free_regions (lfirst (alist al)) s = Some (Inr s1)" "free_regions (lfirst (oob_list al)) s1 = Some (Inr s')"
    using assms(1) by (auto simp: free_alloc_def)
  then show ?thesis using free_regions_fs_ok[of _ s _ P s1] free_regions_fs_ok[of _ s1 _ P s'] assms(2) by simp
qed

lemma index_groups: "fs_ok P s \<Longrightarrow> \<forall>i \<in> set [0..<unat (groups P)]. i < length (bgs s)"
  by (simp add: fs_ok_def fs_wf_def)

lemma calls_progress:
  assumes E: "\<forall>k. mem_ok E k" and P: "fs_layout_ok P" and s: "fs_ok P s"
  shows "calls_defined E P s"
  unfolding calls_defined_def
proof (intro conjI allI impI)
  show "\<exists>q. allocate_blocks E P n s = Inr q" for n using allocate_blocks_spec[OF E P s, of n] by blast
  show "\<exists>q. allocate_block P s = Inr q"
    using allocate_block_from_spec[OF P s index_groups[OF s]] by (auto simp: allocate_block_def)
  show "\<exists>q. reserve_inodes P i n s = Inr q" if "i < unat (groups P)" for i n
    using reserve_inodes_spec[OF P s, of i n] index_groups[OF s] that by auto
  show "\<exists>q. allocate_inode P s = Inr q"
    using allocate_inode_from_spec[OF P s index_groups[OF s]] by (auto simp: allocate_inode_def)
  show "\<exists>q. get_inode E P n s = Inr q" if "0 < unat n \<and> unat n \<le> unat (groups P) * unat (inodes_per_group P)" for n
    using get_inode_spec[OF E s, of n] that by auto
  show "\<exists>q. add_directory P n s = Inr q" if "0 < unat n \<and> unat n \<le> unat (groups P) * unat (inodes_per_group P)" for n
    using add_directory_spec[OF s, of n] that by auto
qed

lemma step_preserves:
  assumes E: "\<forall>k. mem_ok E k" and P: "fs_layout_ok P" and st: "fs_step E P s s'" and s: "fs_ok P s"
  shows "fs_ok P s' \<and> free_set s' \<subseteq> free_set s"
  using st
proof cases
  case (blocks n r)
  then show ?thesis using allocate_blocks_spec[OF E P s, of n] by (auto split: option.splits)
next
  case (one_block b)
  then show ?thesis
    using allocate_block_from_spec[OF P s index_groups[OF s]] by (auto simp: allocate_block_def split: if_splits)
next
  case (inodes i n r)
  then show ?thesis using reserve_inodes_spec[OF P s, of i n] index_groups[OF s] by auto
next
  case (one_inode r)
  then show ?thesis using allocate_inode_from_spec[OF P s index_groups[OF s]] by (auto simp: allocate_inode_def)
next
  case (table n r)
  then show ?thesis using get_inode_spec[OF E s table(1,2)] by auto
next
  case (directory n)
  then show ?thesis using add_directory_spec[OF s directory(1,2)] by auto
next
  case (release al)
  then show ?thesis using free_alloc_fs_ok[OF _ s] by blast
qed

lemma steps_preserve:
  assumes E: "\<forall>k. mem_ok E k" and P: "fs_layout_ok P" and st: "(fs_step E P)\<^sup>*\<^sup>* s0 s" and s: "fs_ok P s0"
  shows "fs_ok P s \<and> free_set s \<subseteq> free_set s0"
  using st
proof (induction rule: rtranclp_induct)
  case (step s1 s2)
  then show ?case using step_preserves[OF E P step(2)] by blast
qed (use s in simp)


lemma two_groups_ok: "init_ok two_groups" "fs_layout_ok two_groups"
  by (auto simp: init_ok_def fs_layout_ok_def two_groups_def header_of_def group_end_def ext4_bg_has_super_block_def less_2_cases_iff)




section \<open>Where the code does not keep its promises\<close>

text \<open>
  A group from which nothing was allocated but which has no free block, as the last group of a file system that ends with
  its header: each round of the loop gets a region without blocks from it, for ever.
\<close>

lemma full_group_partial:
  assumes E: "\<forall>k. mem_ok E k" and i: "i < unat (groups P)" "length (bgs s) = unat (groups P)"
    and used: "\<forall>j < i. data_blocks_used (bgs s ! j) \<noteq> 0"
    and g: "data_blocks_used (bgs s ! i) = 0" "free_blocks_n (bgs s ! i) = 0"
      "first_block (bgs s ! i) + first_free_block (bgs s ! i) \<noteq> EXT4_ALLOCATE_FAILED" and n: "n > 0"
  shows "ext4_allocate_partial E P n s = Inr (Some (calls s), s\<lparr>calls := calls s + 1,
    regs := (regs s)(calls s \<mapsto> \<lparr>rblock = first_block (bgs s ! i) + first_free_block (bgs s ! i), rlen = 0, rbg = i, rnext = None, rprev = None\<rparr>)\<rparr>)"
proof -
  have skip: "allocate_partial_from E P n (js @ is) s = allocate_partial_from E P n is s" if "\<forall>j \<in> set js. j < i" for js "is"
    using that used i by (induction js) auto
  have rb: "reserve_bits a 0 0 b bm = Some (Inr (Some (0, b), bm))" for a b bm by (subst reserve_bits.simps) simp
  have ry: "reserve_bytes 0 0 b bm = Some (Inr (Some (0, b), bm))" for b bm by (subst reserve_bytes.simps) simp
  have rs: "reserve_blocks (bgs s ! i) (first_free_block (bgs s ! i)) 0 = Inr (0, bgs s ! i)"
    using g(2) by (simp add: reserve_blocks_def rb ry)
  have "[0..<unat (groups P)] = [0..<i] @ i # [Suc i..<unat (groups P)]" using i(1) upt_add_eq_append[of 0 i "unat (groups P) - i"] by (simp add: upt_conv_Cons)
  then have "ext4_allocate_partial E P n s = allocate_partial_from E P n (i # [Suc i..<unat (groups P)]) s"
    using skip[of "[0..<i]"] by (simp add: ext4_allocate_partial_def)
  moreover have "(bgs s ! i)\<lparr>data_blocks_used := 0\<rparr> = bgs s ! i" using g(1) by (intro block_group_info.equality) simp_all
  moreover have "n \<noteq> 0" using n by simp
  ultimately show ?thesis
    using E i g rs s32_id[of 0] by (simp add: ext4_allocate_blocks_from_block_group_def get_free_blocks_def new_region_def palloc_def put_group_def Let_def not_le)
qed

lemma full_group_round:
  assumes s: "stuck E P i s" "0 < n" and p: "prev = None \<or> (\<exists>a r. prev = Some a \<and> a < calls s \<and> regs s a = Some r)"
  shows "\<exists>r s'. stuck E P i s' \<and> regs s' (calls s) = Some r \<and> rlen r = 0 \<and> calls s < calls s' \<and>
    (\<exists>s1. ext4_allocate_partial E P n s = Inr (Some (calls s), s1) \<and>
      bindR (if prev = None then Inr s1
             else bindR (put_reg prev (\<lambda>r. r\<lparr>rnext := Some (calls s)\<rparr>) s1) (put_reg (Some (calls s)) (\<lambda>r. r\<lparr>rprev := prev\<rparr>)))
        (\<lambda>s'. bindR (reg_at s' (Some (calls s))) (\<lambda>r. Inr (s', r))) = Inr (s', r))"
proof -
  define r where "r = \<lparr>rblock = first_block (bgs s ! i) + first_free_block (bgs s ! i), rlen = 0, rbg = i, rnext = None, rprev = None\<rparr>"
  define s1 where "s1 = s\<lparr>calls := calls s + 1, regs := (regs s)(calls s \<mapsto> r)\<rparr>"
  have 1: "ext4_allocate_partial E P n s = Inr (Some (calls s), s1)"
    using full_group_partial[of E i P s n] s by (simp add: stuck_def s1_def r_def)
  show ?thesis
  proof (cases prev)
    case None
    then show ?thesis using 1 s(1) by (intro exI[of _ r] exI[of _ s1]) (auto simp: s1_def r_def stuck_def)
  next
    case (Some a)
    define s2 where "s2 = s1\<lparr>regs := link a (calls s) (regs s1)\<rparr>"
    have a: "regs s1 a \<noteq> None" "regs s1 (calls s) \<noteq> None" "a \<noteq> calls s" using p Some by (auto simp: s1_def)
    have at: "regs s2 (calls s) = Some (r\<lparr>rprev := Some a\<rparr>)" using a by (simp add: s2_def link_def s1_def)
    have st: "stuck E P i s2" "calls s < calls s2" "rlen (r\<lparr>rprev := Some a\<rparr>) = 0"
      using s(1) by (simp_all add: stuck_def s2_def s1_def r_def)
    show ?thesis
      using link_step[OF a, folded s2_def]
      by (intro exI[of _ "r\<lparr>rprev := Some a\<rparr>"] exI[of _ s2]) (simp add: 1 Some st at reg_at_def)
  qed
qed

lemma full_group_hangs:
  assumes "allocate_multiple E P n first prev s = Some y"
  shows "stuck E P i s \<Longrightarrow> prev = None \<or> (\<exists>a r. prev = Some a \<and> a < calls s \<and> regs s a = Some r) \<Longrightarrow> n = 0"
  using assms
proof (induction E P n first prev s y rule: allocate_multiple.raw_induct[rotated 1, consumes 1, case_names step])
  case (step loop E P n first prev s y)
  show ?case
  proof (rule ccontr)
    assume "n \<noteq> 0"
    then have n: "n > 0" by (simp add: word_neq_0_conv)
    from full_group_round[OF step.prems(1) this step.prems(2)] obtain r s' s1 where
      1: "stuck E P i s'" "regs s' (calls s) = Some r" "rlen r = 0" "calls s < calls s'" "ext4_allocate_partial E P n s = Inr (Some (calls s), s1)"
      and 2: "bindR (if prev = None then Inr s1
             else bindR (put_reg prev (\<lambda>r. r\<lparr>rnext := Some (calls s)\<rparr>) s1) (put_reg (Some (calls s)) (\<lambda>r. r\<lparr>rprev := prev\<rparr>)))
        (\<lambda>s'. bindR (reg_at s' (Some (calls s))) (\<lambda>r. Inr (s', r))) = Inr (s', r)" by blast
    have "loop E P n (if first = None then Some (calls s) else first) (Some (calls s)) s' = Some y"
      using step.hyps n by (simp add: 1(3,5) 2 cong del: if_weak_cong)
    from step.IH[OF this 1(1)] show False using 1(2,4) \<open>n \<noteq> 0\<close> by blast
  qed
qed

text \<open>\<open>reduce_allocation\<close> frees the last region and keeps the pointer to it: a reduction by more than the last region reads the freed node.\<close>

lemma reduce_use_after_free:
  assumes "regs s 0 = Some \<lparr>rblock = 10, rlen = 4, rbg = 0, rnext = Some 1, rprev = None\<rparr>"
    "regs s 1 = Some \<lparr>rblock = 20, rlen = 2, rbg = 0, rnext = None, rprev = Some 0\<rparr>"
    "bgs s = [g]" "free_blocks g 2 = Inr g'"
  shows "reduce_allocation \<lparr>alist = \<lparr>lfirst = Some 0, llast = Some 1, liter = Some 0, partial_iter = 0\<rparr>, oob_list = empty_regions\<rparr> 3 s
    = Inl UseAfterFree"
  using assms
  by (simp add: reduce_allocation_def reduce_loop.simps[of 3] reduce_loop.simps[of 1] reg_at_def put_reg_def group_def put_group_def Let_def)

text \<open>Appending to the end of a list clears the successor, so that only the first region of several is appended.\<close>

lemma append_all_first_only:
  assumes "regs s 0 = Some r" "rnext r = Some 1"
  shows "\<exists>s'. append_all (Some 0) empty_regions s = Some (Inr (\<lparr>lfirst = Some 0, llast = Some 0, liter = Some 0, partial_iter = 0\<rparr>, s'))
    \<and> path (regs s') (Some 0) [0]"
  using assms
  by (simp add: append_all.simps[of "Some 0"] append_all.simps[of None] region_list_append_def empty_regions_def)

end
